(* ===== verification/Prelude.thy ===== *)
theory Prelude
  imports Main "HOL-Library.Word" "HOL-Library.AList" "HOL-Library.Monad_Syntax" "HOL-Library.Multiset"
begin

unbundle bit_operations_syntax

text \<open>
  Shared vocabulary of the development: the machine types of the Rust sources, panics as
  the value \<^term>\<open>None\<close>, vectors with checked indexing, hash maps as association lists
  with distinct keys, the byte codecs of the wire formats, and the generic
  interfaces (a step machine with an invariant, a self-delimiting codec) that the component
  theories interpret.
\<close>

section \<open>Machine types\<close>

type_synonym u8 = "8 word"
type_synonym u16 = "16 word"
type_synonym u32 = "32 word"
type_synonym u64 = "64 word"
type_synonym bytes = "u8 list"

text \<open>
  Sizes (\<open>usize\<close>), counters and nanosecond time stamps are \<^typ>\<open>nat\<close>: none of the code
  modelled here relies on their wrap-around. Saturating subtraction of unsigned values is then
  the subtraction of \<^typ>\<open>nat\<close>.
\<close>

abbreviation u32_max :: nat where
  "u32_max \<equiv> 4294967295"

abbreviation u64_max :: nat where
  "u64_max \<equiv> 18446744073709551615"

lemma unat_of_nat_u64: "n \<le> u64_max \<Longrightarrow> unat (of_nat n :: u64) = n"
  by (simp add: unsigned_of_nat take_bit_nat_eq_self)

lemma unat_of_nat_u32: "n \<le> u32_max \<Longrightarrow> unat (of_nat n :: u32) = n"
  by (simp add: unsigned_of_nat take_bit_nat_eq_self)

lemma counter_suc: "(n :: u64) + 1 = 0 \<or> unat (n + 1) = Suc (unat n)"
  using unatSuc [of n] by (metis add.commute)

section \<open>Panics\<close>

text \<open>
  A computation that may panic returns an \<^typ>\<open>'a option\<close>; \<^term>\<open>None\<close> is the panic
  (an out-of-range index, a failed \<open>assert!\<close>) or, for loops, the absence of a result.
\<close>

definition rust_assert :: "bool \<Rightarrow> unit option" where
  "rust_assert b = (if b then Some () else None)"

definition vec_get :: "'a list \<Rightarrow> nat \<Rightarrow> 'a option" where
  "vec_get xs i = (if i < length xs then Some (xs ! i) else None)"

definition vec_set :: "'a list \<Rightarrow> nat \<Rightarrow> 'a \<Rightarrow> 'a list option" where
  "vec_set xs i x = (if i < length xs then Some (xs[i := x]) else None)"

text \<open>Checked slicing \<open>&xs[a..b]\<close>: a panic unless \<open>a \<le> b \<le> len\<close>.\<close>

definition vec_slice :: "'a list \<Rightarrow> nat \<Rightarrow> nat \<Rightarrow> 'a list option" where
  "vec_slice xs a b = (if a \<le> b \<and> b \<le> length xs then Some (take (b - a) (drop a xs)) else None)"

named_theorems panic_simps \<open>evaluation of checked operations\<close>

lemma rust_assert_simps [panic_simps]:
  "b \<Longrightarrow> rust_assert b = Some ()" "\<not> b \<Longrightarrow> rust_assert b = None"
  by (simp_all add: rust_assert_def)

lemma rust_assert_bind [simp]:
  "(rust_assert b \<bind> f = Some y) \<longleftrightarrow> b \<and> f () = Some y"
  by (simp add: rust_assert_def)

lemma vec_get_Some [simp]: "i < length xs \<Longrightarrow> vec_get xs i = Some (xs ! i)"
  and vec_get_None [simp]: "length xs \<le> i \<Longrightarrow> vec_get xs i = None"
  by (simp_all add: vec_get_def)

lemma vec_set_Some [simp]: "i < length xs \<Longrightarrow> vec_set xs i x = Some (xs[i := x])"
  by (simp add: vec_set_def)

lemma vec_get_eq_Some: "vec_get xs i = Some x \<longleftrightarrow> i < length xs \<and> xs ! i = x"
  by (auto simp: vec_get_def)

text \<open>A loop over a list whose body may panic.\<close>

fun foldM :: "('a \<Rightarrow> 's \<Rightarrow> 's option) \<Rightarrow> 'a list \<Rightarrow> 's \<Rightarrow> 's option" where
  "foldM f [] s = Some s"
| "foldM f (x # xs) s = Option.bind (f x s) (foldM f xs)"

lemma foldM_inv:
  assumes "\<And>x s. P s \<Longrightarrow> \<exists>s'. f x s = Some s' \<and> P s'" "P s"
  shows "\<exists>s'. foldM f xs s = Some s' \<and> P s'"
  using assms(2)
proof (induction xs arbitrary: s)
  case (Cons x xs)
  from assms(1) [OF Cons.prems, of x] Cons.IH show ?case by auto
qed simp

section \<open>Ends of lists\<close>

definition take_last :: "nat \<Rightarrow> 'a list \<Rightarrow> 'a list" where
  "take_last n xs = drop (length xs - n) xs"

lemma take_last_snoc: "0 < n \<Longrightarrow> take_last n (take_last n xs @ [y]) = take_last n (xs @ [y])"
  by (cases "length xs < n") (auto simp: take_last_def Suc_diff_le)

lemma take_last_map: "take_last n (map f xs) = map f (take_last n xs)"
  by (simp add: take_last_def drop_map)

lemma set_take_last: "set (take_last n xs) \<subseteq> set xs"
  by (simp add: take_last_def set_drop_subset)

lemma length_take_last [simp]: "length (take_last n xs) = min n (length xs)"
  by (auto simp: take_last_def)

lemma last_take_last: "0 < n \<Longrightarrow> xs \<noteq> [] \<Longrightarrow> last (take_last n xs) = last xs"
  by (simp add: take_last_def)

lemma take_last_Nil_iff: "0 < n \<Longrightarrow> take_last n xs = [] \<longleftrightarrow> xs = []"
  by (cases xs) (auto simp: take_last_def)

lemma trim_front: "length xs \<le> Suc n \<Longrightarrow> (if length xs > n then tl xs else xs) = take_last n xs"
  by (auto simp: take_last_def drop_Suc Suc_diff_le not_less le_Suc_eq)

section \<open>Hash maps\<close>

text \<open>
  A \<open>HashMap\<close> is an association list with distinct keys. Look-up is \<^const>\<open>map_of\<close>,
  \<open>insert\<close> is \<^const>\<open>AList.update\<close>, \<open>remove\<close> is \<^const>\<open>AList.delete\<close>. The
  iteration order of a Rust hash map is not specified: an operation whose outcome could
  depend on it takes the order as an argument, constrained by \<open>hm_order\<close>.
\<close>

type_synonym ('k, 'v) hmap = "('k \<times> 'v) list"

abbreviation hm_get :: "('k, 'v) hmap \<Rightarrow> 'k \<Rightarrow> 'v option" where
  "hm_get m k \<equiv> map_of m k"

abbreviation hm_insert :: "'k \<Rightarrow> 'v \<Rightarrow> ('k, 'v) hmap \<Rightarrow> ('k, 'v) hmap" where
  "hm_insert k v m \<equiv> AList.update k v m"

abbreviation hm_remove :: "'k \<Rightarrow> ('k, 'v) hmap \<Rightarrow> ('k, 'v) hmap" where
  "hm_remove k m \<equiv> AList.delete k m"

definition hm_keys :: "('k, 'v) hmap \<Rightarrow> 'k list" where
  "hm_keys m = map fst m"

definition hm_wf :: "('k, 'v) hmap \<Rightarrow> bool" where
  "hm_wf m \<longleftrightarrow> distinct (map fst m)"

definition hm_order :: "('k, 'v) hmap \<Rightarrow> 'k list \<Rightarrow> bool" where
  "hm_order m ks \<longleftrightarrow> distinct ks \<and> set ks = fst ` set m"

lemma hm_wf_Nil [simp]: "hm_wf []"
  by (simp add: hm_wf_def)

lemma hm_wf_insert [simp, intro]: "hm_wf m \<Longrightarrow> hm_wf (hm_insert k v m)"
  by (simp add: hm_wf_def distinct_update)

lemma hm_wf_remove [simp, intro]: "hm_wf m \<Longrightarrow> hm_wf (hm_remove k m)"
  by (simp add: hm_wf_def distinct_delete)

lemma hm_get_insert [simp]: "hm_get (hm_insert k v m) k' = (if k' = k then Some v else hm_get m k')"
  by (simp add: update_conv')

lemma hm_get_remove [simp]: "hm_get (hm_remove k m) k' = (if k' = k then None else hm_get m k')"
  by (simp add: delete_conv')

lemma hm_get_keys: "hm_get m k \<noteq> None \<longleftrightarrow> k \<in> fst ` set m"
  by (simp add: map_of_eq_None_iff)

lemma hm_get_mem: "hm_wf m \<Longrightarrow> hm_get m k = Some v \<longleftrightarrow> (k, v) \<in> set m"
  by (simp add: hm_wf_def)

lemma length_hm_insert_new: "hm_get m k = None \<Longrightarrow> length (hm_insert k v m) = Suc (length m)"
  by (induction m) auto

lemma length_hm_insert_old: "hm_get m k = Some w \<Longrightarrow> length (hm_insert k v m) = length m"
  by (induction m) (auto split: if_splits)

lemma length_hm_remove:
  "hm_wf m \<Longrightarrow> length (hm_remove k m) = (if hm_get m k = None then length m else length m - 1)"
proof (induction m)
  case Nil
  then show ?case by simp
next
  case (Cons p m)
  obtain k' v' where p: "p = (k', v')" by (cases p)
  with Cons.prems have wf: "hm_wf m" and new: "k' \<notin> fst ` set m"
    by (auto simp: hm_wf_def)
  show ?case
  proof (cases "k' = k")
    case True
    with new have "hm_remove k m = m" by (simp add: delete_id)
    with True p show ?thesis by simp
  next
    case False
    have "hm_get m k \<noteq> None \<Longrightarrow> 0 < length m" by (cases m) auto
    with False p Cons.IH [OF wf] show ?thesis by auto
  qed
qed

lemma hm_keys_insert [simp]: "fst ` set (hm_insert k v m) = insert k (fst ` set m)"
  by (induction m) auto

lemma hm_remove_split:
  "k \<notin> fst ` set xs \<Longrightarrow> k \<notin> fst ` set ys \<Longrightarrow> hm_remove k (xs @ (k, v) # ys) = xs @ ys"
  by (induction xs) auto

lemma hm_wf_filter [simp, intro]: "hm_wf m \<Longrightarrow> hm_wf (filter P m)"
  by (simp add: hm_wf_def distinct_map_filter)

lemma hm_get_filter: "hm_wf m \<Longrightarrow> hm_get (filter P m) k = Some v \<longleftrightarrow> hm_get m k = Some v \<and> P (k, v)"
  by (auto simp: hm_get_mem)

lemma card_hm_keys: "hm_wf m \<Longrightarrow> card (fst ` set m) = length m"
  by (metis hm_wf_def distinct_card length_map list.set_map)

section \<open>Step machines\<close>

text \<open>
  A concurrent component is a machine with labelled steps: \<open>step s a\<close> is the state after the atomic
  action \<open>a\<close>, or \<^term>\<open>None\<close> when the action is not enabled. Interleavings are the sequences of
  labels; what holds in every reachable state follows from an inductive invariant.
\<close>

inductive reach :: "('s \<Rightarrow> bool) \<Rightarrow> ('s \<Rightarrow> 'a \<Rightarrow> 's option) \<Rightarrow> 's \<Rightarrow> bool" for init step where
  reach_init: "init s \<Longrightarrow> reach init step s"
| reach_step: "reach init step s \<Longrightarrow> step s a = Some s' \<Longrightarrow> reach init step s'"

fun run_steps :: "('s \<Rightarrow> 'a \<Rightarrow> 's option) \<Rightarrow> 's \<Rightarrow> 'a list \<Rightarrow> 's option" where
  "run_steps step s [] = Some s"
| "run_steps step s (a # as) = (case step s a of None \<Rightarrow> None | Some s' \<Rightarrow> run_steps step s' as)"

lemma run_steps_reach:
  "run_steps step s as = Some s' \<Longrightarrow> reach init step s \<Longrightarrow> reach init step s'"
  by (induction as arbitrary: s) (auto split: option.splits intro: reach_step)

lemma run_steps_append:
  "run_steps step s (as @ bs) = (case run_steps step s as of None \<Rightarrow> None | Some s1 \<Rightarrow> run_steps step s1 bs)"
  by (induction as arbitrary: s) (auto split: option.splits)

locale safe_machine =
  fixes init :: "'s \<Rightarrow> bool" and step :: "'s \<Rightarrow> 'a \<Rightarrow> 's option" and inv :: "'s \<Rightarrow> bool"
  assumes init_inv: "init s \<Longrightarrow> inv s"
    and step_inv: "inv s \<Longrightarrow> step s a = Some s' \<Longrightarrow> inv s'"
begin

lemma reach_inv: "reach init step s \<Longrightarrow> inv s"
  by (induction rule: reach.induct) (auto intro: init_inv step_inv)

lemma run_inv: "inv s \<Longrightarrow> run_steps step s as = Some s' \<Longrightarrow> inv s'"
  by (induction as arbitrary: s) (auto split: option.splits intro: step_inv)

end

end
