(* ===== verification/Xdp_Packet.thy ===== *)
theory Xdp_Packet
  imports Prelude
begin

unbundle bit_operations_syntax

text \<open>
  The packet abstraction of the edge data plane
  (\<^verbatim>\<open>crates/xdp-edge/src/packet.rs\<close>): the five-tuple that keys connection tracking and
  hashing, the TCP flag tests, and the verdict of the XDP program.
\<close>

definition TCP_FIN :: u8 where "TCP_FIN = 0x01"
definition TCP_SYN :: u8 where "TCP_SYN = 0x02"
definition TCP_RST :: u8 where "TCP_RST = 0x04"
definition TCP_ACK :: u8 where "TCP_ACK = 0x10"
definition PROTO_TCP :: u8 where "PROTO_TCP = 6"
definition PROTO_UDP :: u8 where "PROTO_UDP = 17"

record five_tuple =
  src_ip :: u32
  dst_ip :: u32
  src_port :: u16
  dst_port :: u16
  protocol :: u8

record xdp_packet =
  pk_tuple :: five_tuple
  tcp_flags :: u8
  pk_len :: u32

definition is_syn :: "xdp_packet \<Rightarrow> bool" where
  "is_syn p \<longleftrightarrow> tcp_flags p AND TCP_SYN \<noteq> 0 \<and> tcp_flags p AND TCP_ACK = 0"

definition is_ack :: "xdp_packet \<Rightarrow> bool" where
  "is_ack p \<longleftrightarrow> tcp_flags p AND TCP_ACK \<noteq> 0"

datatype action = Drop | Pass | Forward u32

definition is_drop :: "action \<Rightarrow> bool" where
  "is_drop a = (case a of Drop \<Rightarrow> True | _ \<Rightarrow> False)"

lemma syn_ack_exclusive: "is_syn p \<Longrightarrow> \<not> is_ack p"
  by (simp add: is_syn_def is_ack_def)

end
