(* ===== verification/Conntrack.thy ===== *)
theory Conntrack
  imports Xdp_Packet
begin

text \<open>
  The connection-tracking table (\<^verbatim>\<open>crates/xdp-edge/src/conntrack.rs\<close>): a hash map from
  five-tuples to slab indices, a slab of nodes linked into an LRU list by indices, and a free
  list. Every slab access is checked, so an out-of-range index is a panic of the model. The second
  half states the promise of the table, a bounded least-recently-used cache with idle expiry, and
  proves that the slab code implements it.
\<close>

section \<open>The slab\<close>

record conn_entry =
  backend_ip :: u32
  last_seen_ns :: nat

record ct_node =
  nd_key :: five_tuple
  nd_value :: conn_entry
  nd_prev :: nat
  nd_next :: nat
  nd_used :: bool

definition NIL :: nat where
  "NIL = u32_max"

record conn_track =
  ct_map :: "(five_tuple, nat) hmap"
  ct_nodes :: "ct_node list"
  ct_free :: "nat list"
  ct_head :: nat
  ct_tail :: nat
  ct_capacity :: nat
  ct_timeout_ns :: nat
  ct_evictions :: nat

definition ct_new :: "nat \<Rightarrow> nat \<Rightarrow> conn_track option" where
  "ct_new capacity timeout =
     do { rust_assert (capacity > 0);
          Some \<lparr>ct_map = [], ct_nodes = [], ct_free = [], ct_head = NIL, ct_tail = NIL,
                ct_capacity = capacity, ct_timeout_ns = timeout, ct_evictions = 0\<rparr> }"

text \<open>\<open>self.nodes[i].f = v\<close> as a checked update of one node.\<close>

definition ct_modify :: "conn_track \<Rightarrow> nat \<Rightarrow> (ct_node \<Rightarrow> ct_node) \<Rightarrow> conn_track option" where
  "ct_modify s i f =
     do { n \<leftarrow> vec_get (ct_nodes s) i; Some (s\<lparr>ct_nodes := (ct_nodes s)[i := f n]\<rparr>) }"

text \<open>The free list is popped and pushed at its end; the model keeps its top at the head.\<close>

definition alloc_node :: "conn_track \<Rightarrow> five_tuple \<Rightarrow> conn_entry \<Rightarrow> (nat \<times> conn_track) option" where
  "alloc_node s key value =
     (let node = \<lparr>nd_key = key, nd_value = value, nd_prev = NIL, nd_next = NIL, nd_used = True\<rparr> in
      case ct_free s of
        idx # free \<Rightarrow>
          do { ns \<leftarrow> vec_set (ct_nodes s) idx node;
               Some (idx, s\<lparr>ct_free := free, ct_nodes := ns\<rparr>) }
      | [] \<Rightarrow>
          Some (length (ct_nodes s) mod 2 ^ 32, s\<lparr>ct_nodes := ct_nodes s @ [node]\<rparr>))"

definition push_head :: "conn_track \<Rightarrow> nat \<Rightarrow> conn_track option" where
  "push_head s idx =
     do { s1 \<leftarrow> ct_modify s idx (\<lambda>n. n\<lparr>nd_prev := NIL\<rparr>);
          s2 \<leftarrow> ct_modify s1 idx (\<lambda>n. n\<lparr>nd_next := ct_head s1\<rparr>);
          s3 \<leftarrow> (if ct_head s2 \<noteq> NIL then ct_modify s2 (ct_head s2) (\<lambda>n. n\<lparr>nd_prev := idx\<rparr>)
                else Some s2);
          let s4 = s3\<lparr>ct_head := idx\<rparr> in
          Some (if ct_tail s4 = NIL then s4\<lparr>ct_tail := idx\<rparr> else s4) }"

definition unlink :: "conn_track \<Rightarrow> nat \<Rightarrow> conn_track option" where
  "unlink s idx =
     do { n \<leftarrow> vec_get (ct_nodes s) idx;
          let prev = nd_prev n; next = nd_next n in
          do { s1 \<leftarrow> (if prev \<noteq> NIL then ct_modify s prev (\<lambda>n. n\<lparr>nd_next := next\<rparr>)
                      else Some (s\<lparr>ct_head := next\<rparr>));
               (if next \<noteq> NIL then ct_modify s1 next (\<lambda>n. n\<lparr>nd_prev := prev\<rparr>)
                else Some (s1\<lparr>ct_tail := prev\<rparr>)) } }"

definition move_to_head :: "conn_track \<Rightarrow> nat \<Rightarrow> conn_track option" where
  "move_to_head s idx =
     (if ct_head s = idx then Some s else do { s1 \<leftarrow> unlink s idx; push_head s1 idx })"

definition remove_at :: "conn_track \<Rightarrow> nat \<Rightarrow> conn_track option" where
  "remove_at s idx =
     do { s1 \<leftarrow> unlink s idx;
          n \<leftarrow> vec_get (ct_nodes s1) idx;
          let s2 = s1\<lparr>ct_map := hm_remove (nd_key n) (ct_map s1)\<rparr> in
          do { s3 \<leftarrow> ct_modify s2 idx (\<lambda>n. n\<lparr>nd_used := False\<rparr>);
               Some (s3\<lparr>ct_free := idx # ct_free s3\<rparr>) } }"

section \<open>The operations\<close>

definition ct_lookup :: "conn_track \<Rightarrow> five_tuple \<Rightarrow> nat \<Rightarrow> (conn_entry option \<times> conn_track) option" where
  "ct_lookup s key now =
     (case hm_get (ct_map s) key of
        None \<Rightarrow> Some (None, s)
      | Some idx \<Rightarrow>
          do { n \<leftarrow> vec_get (ct_nodes s) idx;
               let entry = nd_value n in
               if now - last_seen_ns entry > ct_timeout_ns s
               then do { s1 \<leftarrow> remove_at s idx; Some (None, s1) }
               else do { s1 \<leftarrow> ct_modify s idx (\<lambda>n. n\<lparr>nd_value := (nd_value n)\<lparr>last_seen_ns := now\<rparr>\<rparr>);
                         s2 \<leftarrow> move_to_head s1 idx;
                         Some (Some entry, s2) } })"

definition ct_insert :: "conn_track \<Rightarrow> five_tuple \<Rightarrow> conn_entry \<Rightarrow> conn_track option" where
  "ct_insert s key value =
     (case hm_get (ct_map s) key of
        Some idx \<Rightarrow>
          do { s1 \<leftarrow> ct_modify s idx (\<lambda>n. n\<lparr>nd_value := value\<rparr>); move_to_head s1 idx }
      | None \<Rightarrow>
          do { s1 \<leftarrow> (if length (ct_map s) \<ge> ct_capacity s
                      then do { rust_assert (ct_tail s \<noteq> NIL);
                                remove_at (s\<lparr>ct_evictions := ct_evictions s + 1\<rparr>) (ct_tail s) }
                      else Some s);
               (idx, s2) \<leftarrow> alloc_node s1 key value;
               s3 \<leftarrow> push_head s2 idx;
               Some (s3\<lparr>ct_map := hm_insert key idx (ct_map s3)\<rparr>) })"

definition ct_len :: "conn_track \<Rightarrow> nat" where
  "ct_len s = length (ct_map s)"

text \<open>
  \<open>sweep_expired\<close> first collects the expired indices in the iteration order of the map,
  then removes them one by one; \<open>vals\<close> is that order.
\<close>

fun remove_all :: "conn_track \<Rightarrow> nat list \<Rightarrow> conn_track option" where
  "remove_all s [] = Some s"
| "remove_all s (i # is) = do { s1 \<leftarrow> remove_at s i; remove_all s1 is }"

definition ct_expired :: "conn_track \<Rightarrow> nat \<Rightarrow> nat \<Rightarrow> bool" where
  "ct_expired s now idx \<longleftrightarrow> now - last_seen_ns (nd_value (ct_nodes s ! idx)) > ct_timeout_ns s"

definition sweep_expired :: "nat list \<Rightarrow> conn_track \<Rightarrow> nat \<Rightarrow> (nat \<times> conn_track) option" where
  "sweep_expired vals s now =
     do { rust_assert (\<forall>i \<in> set vals. i < length (ct_nodes s));
          let victims = filter (ct_expired s now) vals in
          do { s1 \<leftarrow> remove_all s victims; Some (length victims, s1) } }"

section \<open>List segments in the slab\<close>

text \<open>
  \<open>dseg ns p c is l n\<close>: following \<open>nd_next\<close> from \<open>c\<close> visits exactly the indices
  \<open>is\<close> and arrives at \<open>n\<close>; every visited node points back to the one before it (the
  first to \<open>p\<close>), and \<open>l\<close> is the last visited index (\<open>p\<close> for the empty segment).
\<close>

primrec dseg :: "ct_node list \<Rightarrow> nat \<Rightarrow> nat \<Rightarrow> nat list \<Rightarrow> nat \<Rightarrow> nat \<Rightarrow> bool" where
  "dseg ns p c [] l n \<longleftrightarrow> c = n \<and> l = p"
| "dseg ns p c (i # is) l n \<longleftrightarrow>
     c = i \<and> i < length ns \<and> i \<noteq> NIL \<and> nd_prev (ns ! i) = p \<and> dseg ns i (nd_next (ns ! i)) is l n"

lemma dseg_append:
  "dseg ns p c (is @ js) l n \<longleftrightarrow> (\<exists>m d. dseg ns p c is m d \<and> dseg ns m d js l n)"
  by (induction "is" arbitrary: p c) auto

lemma dseg_bound: "dseg ns p c is l n \<Longrightarrow> i \<in> set is \<Longrightarrow> i < length ns \<and> i \<noteq> NIL"
  by (induction "is" arbitrary: p c) auto

lemma dseg_frame [simp]: "i \<notin> set is \<Longrightarrow> dseg (ns[i := v]) p c is l n = dseg ns p c is l n"
  by (induction "is" arbitrary: p c) auto

lemma dseg_grow: "dseg ns p c is l n \<Longrightarrow> dseg (ns @ vs) p c is l n"
  by (induction "is" arbitrary: p c) (auto simp: nth_append)

lemma dseg_same_links:
  "nd_prev v = nd_prev (ns ! i) \<Longrightarrow> nd_next v = nd_next (ns ! i) \<Longrightarrow>
   dseg (ns[i := v]) p c is l n = dseg ns p c is l n"
proof (induction "is" arbitrary: p c)
  case (Cons a "is")
  have "nd_prev (ns[i := v] ! a) = nd_prev (ns ! a) \<and> nd_next (ns[i := v] ! a) = nd_next (ns ! a)"
    using Cons.prems by (cases "i < length ns") (auto simp: nth_list_update list_update_beyond)
  with Cons show ?case by simp
qed simp

lemma dseg_last: "dseg ns p c (is @ [a]) l n \<Longrightarrow> l = a"
  by (auto simp: dseg_append)

lemma dseg_relink_last:
  assumes "dseg ns p c (is @ [a]) l n" and "a \<notin> set is"
  shows "dseg (ns[a := (ns ! a)\<lparr>nd_next := q\<rparr>]) p c (is @ [a]) a q"
  using assms by (auto simp: dseg_append)

lemma dseg_relink_first:
  assumes "dseg ns p c (y # is) l n" and "y \<notin> set is"
  shows "dseg (ns[y := (ns ! y)\<lparr>nd_prev := q\<rparr>]) q c (y # is) l n"
  using assms by auto

text \<open>What the link operations leave alone: everything but the links, the head and the tail.\<close>

definition nd_data :: "ct_node \<Rightarrow> five_tuple \<times> conn_entry \<times> bool" where
  "nd_data n = (nd_key n, nd_value n, nd_used n)"

definition ct_rest where
  "ct_rest s = (ct_map s, ct_free s, ct_capacity s, ct_timeout_ns s, ct_evictions s,
                map nd_data (ct_nodes s))"

definition ct_links :: "conn_track \<Rightarrow> nat list \<Rightarrow> bool" where
  "ct_links s is \<longleftrightarrow> dseg (ct_nodes s) NIL (ct_head s) is (ct_tail s) NIL \<and> distinct is"

lemma nd_data_simps [simp]:
  "nd_data (n\<lparr>nd_prev := a\<rparr>) = nd_data n" "nd_data (n\<lparr>nd_next := a\<rparr>) = nd_data n"
  by (simp_all add: nd_data_def)

lemma map_nd_data_update [simp]:
  "i < length ns \<Longrightarrow> nd_data v = nd_data (ns ! i) \<Longrightarrow> map nd_data (ns[i := v]) = map nd_data ns"
  by (metis list_update_id map_update nth_map)

lemma ct_links_bound: "ct_links s is \<Longrightarrow> i \<in> set is \<Longrightarrow> i < length (ct_nodes s) \<and> i \<noteq> NIL"
  by (auto simp: ct_links_def dest: dseg_bound)

lemma ct_links_head: "ct_links s is \<Longrightarrow> ct_head s = (case is of [] \<Rightarrow> NIL | i # _ \<Rightarrow> i)"
  by (cases "is") (auto simp: ct_links_def)

lemma ct_links_tail: "ct_links s is \<Longrightarrow> ct_tail s = (if is = [] then NIL else last is)"
  by (cases "is" rule: rev_cases) (auto simp: ct_links_def dest: dseg_last)

lemma push_head_links:
  assumes links: "ct_links s is" and i: "i < length (ct_nodes s)" "i \<noteq> NIL" "i \<notin> set is"
  shows "\<exists>s'. push_head s i = Some s' \<and> ct_links s' (i # is) \<and> ct_rest s' = ct_rest s"
proof (cases "is")
  case Nil
  with links have "ct_head s = NIL" "ct_tail s = NIL"
    by (auto simp: ct_links_def)
  with Nil i show ?thesis
    by (simp add: push_head_def ct_modify_def ct_links_def ct_rest_def)
next
  case (Cons h hs)
  with links have h: "ct_head s = h" "h < length (ct_nodes s)" "h \<noteq> NIL"
    and ne: "h \<noteq> i" "i \<notin> set hs" "h \<notin> set hs"
    using i by (auto simp: ct_links_def)
  have "ct_tail s = last is"
    using ct_links_tail [OF links] Cons by simp
  moreover have "last is \<in> set is"
    using Cons by simp
  ultimately have t: "ct_tail s \<noteq> NIL"
    using ct_links_bound [OF links] by metis
  show ?thesis
    using links i h t ne Cons
    by (simp add: push_head_def ct_modify_def ct_links_def ct_rest_def)
qed

lemma unlink_links:
  assumes links: "ct_links s (xs @ i # ys)"
  shows "\<exists>s'. unlink s i = Some s' \<and> ct_links s' (xs @ ys) \<and> ct_rest s' = ct_rest s"
proof -
  let ?ns = "ct_nodes s" and ?p = "nd_prev (ct_nodes s ! i)" and ?n = "nd_next (ct_nodes s ! i)"
  from links obtain p where xs: "dseg ?ns NIL (ct_head s) xs p i" and i: "i < length ?ns" "i \<noteq> NIL"
    and p: "?p = p" and ys: "dseg ?ns i ?n ys (ct_tail s) NIL" and d: "distinct (xs @ i # ys)"
    by (auto simp: ct_links_def dseg_append)
  show ?thesis
  proof (cases xs rule: rev_cases)
    case Nil
    with xs p have "?p = NIL" "ct_head s = i" by auto
    with Nil i ys d show ?thesis
      by (cases ys) (auto simp: unlink_def ct_modify_def ct_links_def ct_rest_def)
  next
    case (snoc xs' a)
    with xs p have a: "p = a" "a < length ?ns" "a \<noteq> NIL" "a \<notin> set xs'" "a \<notin> set ys" "a \<noteq> i"
      using d by (auto simp: dseg_append)
    have relink: "dseg (?ns[a := (?ns ! a)\<lparr>nd_next := ?n\<rparr>]) NIL (ct_head s) xs a ?n"
      using dseg_relink_last [OF xs [unfolded snoc]] a snoc by simp
    show ?thesis
    proof (cases ys)
      case Nil
      with relink i a p d ys snoc show ?thesis
        by (auto simp: unlink_def ct_modify_def ct_links_def ct_rest_def)
    next
      case (Cons y ys')
      then have y: "?n = y" "y < length ?ns" "y \<noteq> NIL" "y \<noteq> a" "y \<notin> set xs" "y \<notin> set ys'" "y \<noteq> i"
        using ys d snoc by auto
      have "dseg (?ns[a := (?ns ! a)\<lparr>nd_next := ?n\<rparr>]) i ?n ys (ct_tail s) NIL"
        using ys a by simp
      from dseg_relink_first [OF this [unfolded Cons]] y a
      have "dseg (?ns[a := (?ns ! a)\<lparr>nd_next := y\<rparr>, y := (?ns ! y)\<lparr>nd_prev := a\<rparr>]) a y (y # ys') (ct_tail s) NIL"
        by simp
      with relink i a p d y Cons show ?thesis
        by (auto simp: unlink_def ct_modify_def ct_links_def ct_rest_def dseg_append)
    qed
  qed
qed

section \<open>The table invariant\<close>

text \<open>
  \<open>ct_inv s is\<close>: the slab is partitioned into the live nodes \<open>is\<close>, in LRU order from the
  most recently used, and the free nodes; the map is exactly the index of the live nodes by key.
\<close>

definition ct_inv :: "conn_track \<Rightarrow> nat list \<Rightarrow> bool" where
  "ct_inv s is \<longleftrightarrow>
     ct_links s is \<and> hm_wf (ct_map s) \<and>
     (\<forall>k i. hm_get (ct_map s) k = Some i \<longleftrightarrow> i \<in> set is \<and> nd_key (ct_nodes s ! i) = k) \<and>
     distinct (ct_free s) \<and> set (ct_free s) \<inter> set is = {} \<and>
     set (ct_free s) \<union> set is = {..<length (ct_nodes s)} \<and>
     (\<forall>i < length (ct_nodes s). nd_used (ct_nodes s ! i) \<longleftrightarrow> i \<in> set is) \<and>
     length (ct_nodes s) \<le> ct_capacity s \<and> 0 < ct_capacity s \<and> ct_capacity s \<le> u32_max"

definition ct_entry :: "conn_track \<Rightarrow> nat \<Rightarrow> five_tuple \<times> conn_entry" where
  "ct_entry s i = (nd_key (ct_nodes s ! i), nd_value (ct_nodes s ! i))"

lemma ct_rest_nth:
  assumes "ct_rest s' = ct_rest s" and "i < length (ct_nodes s)"
  shows "nd_data (ct_nodes s' ! i) = nd_data (ct_nodes s ! i)"
proof -
  from assms(1) have eq: "map nd_data (ct_nodes s') = map nd_data (ct_nodes s)"
    by (simp add: ct_rest_def)
  then have "length (ct_nodes s') = length (ct_nodes s)"
    by (rule map_eq_imp_length_eq)
  with eq assms(2) show ?thesis by (metis nth_map)
qed

lemma ct_rest_simps:
  assumes "ct_rest s' = ct_rest s"
  shows "ct_map s' = ct_map s" "ct_free s' = ct_free s" "ct_capacity s' = ct_capacity s"
    "ct_timeout_ns s' = ct_timeout_ns s" "ct_evictions s' = ct_evictions s"
    "length (ct_nodes s') = length (ct_nodes s)"
    "i < length (ct_nodes s) \<Longrightarrow> nd_key (ct_nodes s' ! i) = nd_key (ct_nodes s ! i)"
    "i < length (ct_nodes s) \<Longrightarrow> nd_value (ct_nodes s' ! i) = nd_value (ct_nodes s ! i)"
    "i < length (ct_nodes s) \<Longrightarrow> nd_used (ct_nodes s' ! i) = nd_used (ct_nodes s ! i)"
    "i < length (ct_nodes s) \<Longrightarrow> ct_entry s' i = ct_entry s i"
  using assms ct_rest_nth [OF assms, of i]
  by (auto simp: ct_rest_def nd_data_def ct_entry_def dest: map_eq_imp_length_eq)

lemma ct_inv_index:
  assumes "ct_inv s is" and "i \<in> set is"
  shows "i < length (ct_nodes s)" "i \<noteq> NIL" "hm_get (ct_map s) (nd_key (ct_nodes s ! i)) = Some i"
proof -
  from assms(1) have "ct_links s is"
    and map: "\<And>k i. hm_get (ct_map s) k = Some i \<longleftrightarrow> i \<in> set is \<and> nd_key (ct_nodes s ! i) = k"
    unfolding ct_inv_def by blast+
  with assms(2) show "i < length (ct_nodes s)" "i \<noteq> NIL"
    by (simp_all add: ct_links_bound)
  from map [of "nd_key (ct_nodes s ! i)" i] assms(2)
  show "hm_get (ct_map s) (nd_key (ct_nodes s ! i)) = Some i" by blast
qed

lemma ct_inv_key_inj:
  assumes "ct_inv s is"
  shows "inj_on (\<lambda>i. nd_key (ct_nodes s ! i)) (set is)"
proof (rule inj_onI)
  fix i j assume i: "i \<in> set is" and j: "j \<in> set is"
    and eq: "nd_key (ct_nodes s ! i) = nd_key (ct_nodes s ! j)"
  have "Some i = hm_get (ct_map s) (nd_key (ct_nodes s ! i))"
    by (rule ct_inv_index(3) [OF assms i, symmetric])
  also have "\<dots> = Some j"
    unfolding eq by (rule ct_inv_index(3) [OF assms j])
  finally show "i = j" by simp
qed

lemma ct_inv_distinct: "ct_inv s is \<Longrightarrow> distinct is"
  by (simp add: ct_inv_def ct_links_def)

lemma ct_inv_len: "ct_inv s is \<Longrightarrow> length (ct_map s) = length is"
proof -
  assume inv: "ct_inv s is"
  have "fst ` set (ct_map s) = (\<lambda>i. nd_key (ct_nodes s ! i)) ` set is"
  proof (rule set_eqI)
    fix k
    have "k \<in> fst ` set (ct_map s) \<longleftrightarrow> (\<exists>i. hm_get (ct_map s) k = Some i)"
      by (metis hm_get_keys not_Some_eq)
    then show "k \<in> fst ` set (ct_map s) \<longleftrightarrow> k \<in> (\<lambda>i. nd_key (ct_nodes s ! i)) ` set is"
      using inv by (auto simp: ct_inv_def)
  qed
  then show ?thesis
    using inv card_hm_keys [of "ct_map s"] card_image [OF ct_inv_key_inj [OF inv]]
      distinct_card [OF ct_inv_distinct [OF inv]]
    by (simp add: ct_inv_def)
qed

text \<open>Relinking keeps the invariant when it keeps the set of live nodes.\<close>

lemma ct_inv_relink:
  assumes "ct_inv s is" and "ct_links s' js" and "ct_rest s' = ct_rest s" and "set js = set is"
  shows "ct_inv s' js"
  using assms(1,2,4) ct_inv_index(1) [OF assms(1)]
  by (auto simp: ct_inv_def ct_rest_simps [OF assms(3)])

lemma move_to_head_inv:
  assumes inv: "ct_inv s (xs @ i # ys)"
  shows "\<exists>s'. move_to_head s i = Some s' \<and> ct_inv s' (i # xs @ ys) \<and> ct_rest s' = ct_rest s"
proof (cases "ct_head s = i")
  case True
  have "xs = []"
    using inv True ct_links_head [of s "xs @ i # ys"] ct_inv_distinct [OF inv]
    by (cases xs) (auto simp: ct_inv_def)
  with True inv show ?thesis by (simp add: move_to_head_def)
next
  case False
  from inv have "ct_links s (xs @ i # ys)" by (simp add: ct_inv_def)
  from unlink_links [OF this] obtain s1 where s1: "unlink s i = Some s1" "ct_links s1 (xs @ ys)"
    "ct_rest s1 = ct_rest s" by blast
  have "i < length (ct_nodes s1)" "i \<noteq> NIL" "i \<notin> set (xs @ ys)"
    using ct_inv_index [OF inv, of i] ct_inv_distinct [OF inv] ct_rest_simps(6) [OF s1(3)] by auto
  from push_head_links [OF s1(2) this] obtain s2 where s2: "push_head s1 i = Some s2"
    "ct_links s2 (i # xs @ ys)" "ct_rest s2 = ct_rest s1" by blast
  have "ct_inv s2 (i # xs @ ys)"
    by (rule ct_inv_relink [OF inv s2(2)]) (use s1 s2 in auto)
  with False s1 s2 show ?thesis by (simp add: move_to_head_def)
qed

lemma remove_at_inv:
  assumes inv: "ct_inv s (xs @ i # ys)"
  shows "\<exists>s'. remove_at s i = Some s' \<and> ct_inv s' (xs @ ys) \<and>
    map (ct_entry s') (xs @ ys) = map (ct_entry s) (xs @ ys) \<and>
    ct_capacity s' = ct_capacity s \<and> ct_timeout_ns s' = ct_timeout_ns s \<and>
    ct_evictions s' = ct_evictions s"
proof -
  from inv have links: "ct_links s (xs @ i # ys)" by (simp add: ct_inv_def)
  from unlink_links [OF links] obtain s1 where s1: "unlink s i = Some s1" "ct_links s1 (xs @ ys)"
    and rest: "ct_rest s1 = ct_rest s" by blast
  note eqs = ct_rest_simps [OF rest]
  note i = ct_inv_index [OF inv, of i] and d = ct_inv_distinct [OF inv]
  let ?n = "ct_nodes s1 ! i"
  let ?s' = "s1\<lparr>ct_map := hm_remove (nd_key ?n) (ct_map s1),
     ct_nodes := (ct_nodes s1)[i := ?n\<lparr>nd_used := False\<rparr>], ct_free := i # ct_free s1\<rparr>"
  have run: "remove_at s i = Some ?s'"
    using s1 i by (simp add: remove_at_def ct_modify_def eqs Let_def)
  have links': "ct_links ?s' (xs @ ys)"
    using s1(2) d by (simp add: ct_links_def)
  have keys: "j \<in> set (xs @ ys) \<Longrightarrow> nd_key (ct_nodes s ! j) \<noteq> nd_key (ct_nodes s ! i)" for j
    using inj_on_eq_iff [OF ct_inv_key_inj [OF inv], of j i] d by auto
  have ne: "j \<in> set (xs @ ys) \<Longrightarrow> i \<noteq> j" for j
    using d by auto
  have "ct_inv ?s' (xs @ ys)"
    unfolding ct_inv_def
  proof (intro conjI allI impI)
    fix k j
    have "j \<in> set (xs @ ys) \<Longrightarrow> nd_key (ct_nodes ?s' ! j) = nd_key (ct_nodes s ! j)"
      using eqs(7) [of j] ne [of j] ct_inv_index(1) [OF inv, of j] by auto
    moreover have "hm_get (ct_map s) k = Some j \<longleftrightarrow> j \<in> set (xs @ i # ys) \<and> nd_key (ct_nodes s ! j) = k"
      using inv by (simp add: ct_inv_def)
    ultimately show "hm_get (ct_map ?s') k = Some j \<longleftrightarrow> j \<in> set (xs @ ys) \<and> nd_key (ct_nodes ?s' ! j) = k"
      using keys [of j] eqs(1) eqs(7) [of i] i by auto
  next
    fix j assume "j < length (ct_nodes ?s')"
    then have j: "j < length (ct_nodes s)" using eqs(6) by simp
    with inv have "nd_used (ct_nodes s ! j) \<longleftrightarrow> j \<in> set (xs @ i # ys)" by (simp add: ct_inv_def)
    with j show "nd_used (ct_nodes ?s' ! j) \<longleftrightarrow> j \<in> set (xs @ ys)"
      using d eqs(9) [OF j] eqs(6) by (cases "j = i") auto
  qed (use inv links' d eqs in \<open>auto simp: ct_inv_def\<close>)
  moreover have "map (ct_entry ?s') (xs @ ys) = map (ct_entry s) (xs @ ys)"
    using d eqs(6,7,8) ct_inv_index(1) [OF inv] by (auto simp: ct_entry_def nth_list_update)
  ultimately show ?thesis using run eqs by auto
qed

section \<open>The promise: a bounded LRU cache with idle expiry\<close>

text \<open>
  The abstract table is the list of its live connections, the most recently used first.
\<close>

type_synonym lru = "(five_tuple \<times> conn_entry) list"

definition lru_lookup :: "nat \<Rightarrow> lru \<Rightarrow> five_tuple \<Rightarrow> nat \<Rightarrow> conn_entry option \<times> lru" where
  "lru_lookup timeout l k now =
     (case hm_get l k of
        None \<Rightarrow> (None, l)
      | Some e \<Rightarrow>
          if now - last_seen_ns e > timeout then (None, hm_remove k l)
          else (Some e, (k, e\<lparr>last_seen_ns := now\<rparr>) # hm_remove k l))"

definition lru_insert :: "nat \<Rightarrow> lru \<Rightarrow> five_tuple \<Rightarrow> conn_entry \<Rightarrow> lru" where
  "lru_insert cap l k v =
     (case hm_get l k of
        Some _ \<Rightarrow> (k, v) # hm_remove k l
      | None \<Rightarrow> (k, v) # (if length l \<ge> cap then butlast l else l))"

definition lru_evicts :: "nat \<Rightarrow> lru \<Rightarrow> five_tuple \<Rightarrow> nat" where
  "lru_evicts cap l k = (if hm_get l k = None \<and> length l \<ge> cap then 1 else 0)"

definition lru_sweep :: "nat \<Rightarrow> lru \<Rightarrow> nat \<Rightarrow> lru" where
  "lru_sweep timeout l now = filter (\<lambda>(k, e). now - last_seen_ns e \<le> timeout) l"

definition ct_abs :: "conn_track \<Rightarrow> lru \<Rightarrow> bool" where
  "ct_abs s l \<longleftrightarrow> (\<exists>is. ct_inv s is \<and> l = map (ct_entry s) is)"

definition ct_params :: "conn_track \<Rightarrow> nat \<times> nat" where
  "ct_params s = (ct_capacity s, ct_timeout_ns s)"

lemma ct_inv_wf: "ct_inv s is \<Longrightarrow> hm_wf (map (ct_entry s) is)"
  by (auto simp: hm_wf_def ct_entry_def comp_def distinct_map ct_inv_distinct ct_inv_key_inj)

lemma ct_inv_get:
  assumes inv: "ct_inv s is"
  shows "hm_get (map (ct_entry s) is) k = map_option (\<lambda>i. nd_value (ct_nodes s ! i)) (hm_get (ct_map s) k)"
proof (cases "hm_get (ct_map s) k")
  case None
  have "k \<notin> fst ` set (map (ct_entry s) is)"
    using ct_inv_index(3) [OF inv] None by (auto simp: ct_entry_def)
  then have "hm_get (map (ct_entry s) is) k = None" by (simp add: map_of_eq_None_iff)
  with None show ?thesis by simp
next
  case (Some i)
  with inv have "i \<in> set is" "nd_key (ct_nodes s ! i) = k" by (auto simp: ct_inv_def)
  then have "(k, nd_value (ct_nodes s ! i)) \<in> set (map (ct_entry s) is)"
    by (auto simp: ct_entry_def)
  with Some hm_get_mem [OF ct_inv_wf [OF inv]] show ?thesis by simp
qed

lemma ct_inv_remove:
  assumes "ct_inv s (xs @ i # ys)"
  shows "hm_remove (nd_key (ct_nodes s ! i)) (map (ct_entry s) (xs @ i # ys)) = map (ct_entry s) (xs @ ys)"
proof -
  let ?k = "nd_key (ct_nodes s ! i)"
  have "i \<notin> set (xs @ ys)" using ct_inv_distinct [OF assms] by auto
  then have "j \<in> set (xs @ ys) \<Longrightarrow> nd_key (ct_nodes s ! j) \<noteq> ?k" for j
    using inj_on_eq_iff [OF ct_inv_key_inj [OF assms], of j i] by auto
  then have "j \<in> set (xs @ ys) \<Longrightarrow> fst (ct_entry s j) \<noteq> ?k" for j
    by (simp add: ct_entry_def)
  then have "?k \<notin> fst ` set (map (ct_entry s) xs)" "?k \<notin> fst ` set (map (ct_entry s) ys)"
    by (auto simp: image_iff) blast+
  from hm_remove_split [OF this] show ?thesis
    by (simp add: ct_entry_def)
qed

lemma ct_inv_touch:
  assumes inv: "ct_inv s is" and i: "i \<in> set is"
  shows "ct_inv (s\<lparr>ct_nodes := (ct_nodes s)[i := (ct_nodes s ! i)\<lparr>nd_value := v\<rparr>]\<rparr>) is"
proof -
  let ?s = "s\<lparr>ct_nodes := (ct_nodes s)[i := (ct_nodes s ! i)\<lparr>nd_value := v\<rparr>]\<rparr>"
  have same: "nd_key (ct_nodes ?s ! j) = nd_key (ct_nodes s ! j)"
    "nd_used (ct_nodes ?s ! j) = nd_used (ct_nodes s ! j)" for j
    using ct_inv_index(1) [OF inv i] by (cases "i = j"; simp)+
  have "ct_links ?s is"
    using inv by (simp add: ct_inv_def ct_links_def dseg_same_links)
  with inv same show ?thesis by (simp add: ct_inv_def)
qed

section \<open>The slab code implements the cache\<close>

lemma ct_lookup_refines:
  assumes abs: "ct_abs s l"
  shows "\<exists>s'. ct_lookup s k now = Some (fst (lru_lookup (ct_timeout_ns s) l k now), s') \<and>
    ct_abs s' (snd (lru_lookup (ct_timeout_ns s) l k now)) \<and>
    ct_params s' = ct_params s \<and> ct_evictions s' = ct_evictions s"
proof -
  from abs obtain "is" where inv: "ct_inv s is" and l: "l = map (ct_entry s) is"
    by (auto simp: ct_abs_def)
  show ?thesis
  proof (cases "hm_get (ct_map s) k")
    case None
    with abs ct_inv_get [OF inv, of k] show ?thesis
      by (simp add: ct_lookup_def lru_lookup_def l)
  next
    case (Some i)
    let ?e = "nd_value (ct_nodes s ! i)"
    from Some inv have i: "i \<in> set is" and k: "nd_key (ct_nodes s ! i) = k"
      by (auto simp: ct_inv_def)
    note ib = ct_inv_index(1) [OF inv i]
    from i obtain xs ys where "is": "is = xs @ i # ys" by (meson split_list)
    have get: "hm_get l k = Some ?e" using ct_inv_get [OF inv, of k] Some by (simp add: l)
    have rem: "hm_remove k l = map (ct_entry s) (xs @ ys)"
      using ct_inv_remove [of s xs i ys] inv k by (simp add: l "is")
    show ?thesis
    proof (cases "now - last_seen_ns ?e > ct_timeout_ns s")
      case True
      from remove_at_inv [OF inv [unfolded "is"]] obtain s' where "remove_at s i = Some s'"
        "ct_inv s' (xs @ ys)" "map (ct_entry s') (xs @ ys) = map (ct_entry s) (xs @ ys)"
        "ct_params s' = ct_params s" "ct_evictions s' = ct_evictions s"
        by (auto simp: ct_params_def)
      with True Some get rem ib show ?thesis
        by (auto simp: ct_lookup_def lru_lookup_def ct_abs_def)
    next
      case False
      let ?s1 = "s\<lparr>ct_nodes := (ct_nodes s)[i := (ct_nodes s ! i)\<lparr>nd_value := ?e\<lparr>last_seen_ns := now\<rparr>\<rparr>]\<rparr>"
      have "ct_inv ?s1 (xs @ i # ys)" using ct_inv_touch [OF inv i] "is" by simp
      from move_to_head_inv [OF this] obtain s' where s': "move_to_head ?s1 i = Some s'"
        "ct_inv s' (i # xs @ ys)" "ct_rest s' = ct_rest ?s1" by blast
      note eqs = ct_rest_simps [OF s'(3)]
      have "map (ct_entry s') (i # xs @ ys) = map (ct_entry ?s1) (i # xs @ ys)"
        using eqs(10) ct_inv_index(1) [OF inv] "is" by simp
      also have "\<dots> = (k, ?e\<lparr>last_seen_ns := now\<rparr>) # map (ct_entry s) (xs @ ys)"
        using ib k ct_inv_distinct [OF inv] "is" by (auto simp: ct_entry_def nth_list_update)
      finally have "ct_abs s' ((k, ?e\<lparr>last_seen_ns := now\<rparr>) # hm_remove k l)"
        using s'(2) rem unfolding ct_abs_def by metis
      with False Some get s'(1) ib eqs show ?thesis
        by (auto simp: ct_lookup_def lru_lookup_def ct_modify_def ct_params_def)
    qed
  qed
qed

text \<open>A node freshly taken from the slab: either a recycled free node or a new last one.\<close>

lemma alloc_node_inv:
  assumes inv: "ct_inv s is" and room: "length is < ct_capacity s"
  shows "\<exists>i s'. alloc_node s k v = Some (i, s') \<and> i \<notin> set is \<and> i \<noteq> NIL \<and>
    i < length (ct_nodes s') \<and> ct_links s' is \<and> ct_map s' = ct_map s \<and>
    distinct (ct_free s') \<and> i \<notin> set (ct_free s') \<and> set (ct_free s') \<inter> set is = {} \<and>
    insert i (set (ct_free s') \<union> set is) = {..<length (ct_nodes s')} \<and>
    (\<forall>j < length (ct_nodes s'). nd_used (ct_nodes s' ! j) \<longleftrightarrow> j \<in> insert i (set is)) \<and>
    length (ct_nodes s') \<le> ct_capacity s \<and>
    ct_entry s' i = (k, v) \<and> (\<forall>j \<in> set is. ct_entry s' j = ct_entry s j) \<and>
    ct_params s' = ct_params s \<and> ct_evictions s' = ct_evictions s"
proof (cases "ct_free s")
  case Nil
  have full: "set is = {..<length (ct_nodes s)}" using inv Nil by (simp add: ct_inv_def)
  then have "length is = length (ct_nodes s)"
    using distinct_card [OF ct_inv_distinct [OF inv]] by simp
  moreover have "ct_capacity s \<le> u32_max" using inv by (simp add: ct_inv_def)
  ultimately have b: "length (ct_nodes s) < ct_capacity s" "length (ct_nodes s) < u32_max"
    "length (ct_nodes s) mod 2 ^ 32 = length (ct_nodes s)"
    using room by auto
  moreover have "\<forall>i < length (ct_nodes s). nd_used (ct_nodes s ! i)"
    using inv full by (simp add: ct_inv_def)
  moreover have "ct_links (s\<lparr>ct_nodes := ct_nodes s @ vs\<rparr>) is" for vs
    using inv by (auto simp: ct_inv_def ct_links_def dseg_grow)
  ultimately show ?thesis
    using Nil full
    by (auto simp: alloc_node_def NIL_def ct_entry_def ct_params_def nth_append lessThan_Suc)
next
  case (Cons i free)
  have i: "i < length (ct_nodes s)" "i \<notin> set is" "i \<notin> set free" "i \<noteq> NIL"
    and d: "distinct free" "set free \<inter> set is = {}"
    and un: "insert i (set free \<union> set is) = {..<length (ct_nodes s)}"
    and cap: "length (ct_nodes s) \<le> ct_capacity s"
    using inv Cons unfolding ct_inv_def NIL_def by auto
  have used: "nd_used (ct_nodes s ! j) \<longleftrightarrow> j \<in> set is" if "j < length (ct_nodes s)" for j
    using inv that by (simp add: ct_inv_def)
  have "ct_links (s\<lparr>ct_free := free, ct_nodes := (ct_nodes s)[i := w]\<rparr>) is" for w
    using inv i by (simp add: ct_inv_def ct_links_def)
  with Cons i d un cap used show ?thesis
    by (auto simp: alloc_node_def ct_entry_def ct_params_def nth_list_update)
qed

lemma insert_fresh_inv:
  assumes inv: "ct_inv s is" and room: "length is < ct_capacity s" and new: "hm_get (ct_map s) k = None"
  shows "\<exists>s' i. do { (idx, s2) \<leftarrow> alloc_node s k v; s3 \<leftarrow> push_head s2 idx;
      Some (s3\<lparr>ct_map := hm_insert k idx (ct_map s3)\<rparr>) } = Some s' \<and> ct_inv s' (i # is) \<and>
    map (ct_entry s') (i # is) = (k, v) # map (ct_entry s) is \<and>
    ct_params s' = ct_params s \<and> ct_evictions s' = ct_evictions s"
proof -
  from alloc_node_inv [OF inv room, of k v] obtain i s1 where
    alloc: "alloc_node s k v = Some (i, s1)" and
    i: "i \<notin> set is" "i \<noteq> NIL" "i < length (ct_nodes s1)" and links: "ct_links s1 is" and
    map: "ct_map s1 = ct_map s" and
    free: "distinct (ct_free s1)" "i \<notin> set (ct_free s1)" "set (ct_free s1) \<inter> set is = {}"
      "insert i (set (ct_free s1) \<union> set is) = {..<length (ct_nodes s1)}" and
    used: "\<forall>j < length (ct_nodes s1). nd_used (ct_nodes s1 ! j) \<longleftrightarrow> j \<in> insert i (set is)" and
    cap: "length (ct_nodes s1) \<le> ct_capacity s" and
    ent: "ct_entry s1 i = (k, v)" "\<forall>j \<in> set is. ct_entry s1 j = ct_entry s j" and
    par: "ct_params s1 = ct_params s" "ct_evictions s1 = ct_evictions s" by blast
  from push_head_links [OF links i(3,2,1)] obtain s2 where push: "push_head s1 i = Some s2"
    "ct_links s2 (i # is)" and rest: "ct_rest s2 = ct_rest s1" by blast
  note eqs = ct_rest_simps [OF rest]
  let ?s' = "s2\<lparr>ct_map := hm_insert k i (ct_map s2)\<rparr>"
  have lt: "j \<in> set is \<Longrightarrow> j < length (ct_nodes s1)" for j
    using ct_links_bound [OF links] by blast
  have entries: "j \<in> set is \<Longrightarrow> ct_entry ?s' j = ct_entry s j" for j
    using eqs(10) [OF lt [of j]] ent by (simp add: ct_entry_def)
  have top: "ct_entry ?s' i = (k, v)"
    using eqs(10) [OF i(3)] ent by (simp add: ct_entry_def)
  have keys: "j \<in> set is \<Longrightarrow> nd_key (ct_nodes s2 ! j) = nd_key (ct_nodes s ! j)" for j
    using entries [of j] by (simp add: ct_entry_def)
  have "ct_inv ?s' (i # is)"
    unfolding ct_inv_def
  proof (intro conjI allI impI)
    fix k' j
    have old: "hm_get (ct_map s) k' = Some j \<longleftrightarrow> j \<in> set is \<and> nd_key (ct_nodes s ! j) = k'" for k'
      using inv by (simp add: ct_inv_def)
    have "j \<in> set is \<Longrightarrow> nd_key (ct_nodes s ! j) \<noteq> k"
      using new old [of k] by auto
    then show "hm_get (ct_map ?s') k' = Some j \<longleftrightarrow> j \<in> set (i # is) \<and> nd_key (ct_nodes ?s' ! j) = k'"
      using old [of k'] keys [of j] top map eqs(1) i(1) by (auto simp: ct_entry_def)
  qed (use inv push(2) free used cap eqs map par in
      \<open>auto simp: ct_inv_def ct_links_def ct_params_def\<close>)
  moreover have "map (ct_entry ?s') (i # is) = (k, v) # map (ct_entry s) is"
    using entries top by simp
  ultimately show ?thesis
    using alloc push(1) par eqs by (auto simp: ct_params_def)
qed

lemma ct_insert_refines:
  assumes abs: "ct_abs s l"
  shows "\<exists>s'. ct_insert s k v = Some s' \<and> ct_abs s' (lru_insert (ct_capacity s) l k v) \<and>
    ct_params s' = ct_params s \<and>
    ct_evictions s' = ct_evictions s + lru_evicts (ct_capacity s) l k"
proof -
  from abs obtain "is" where inv: "ct_inv s is" and l: "l = map (ct_entry s) is"
    by (auto simp: ct_abs_def)
  note len = ct_inv_len [OF inv]
  show ?thesis
  proof (cases "hm_get (ct_map s) k")
    case (Some i)
    from Some inv have i: "i \<in> set is" and k: "nd_key (ct_nodes s ! i) = k"
      by (auto simp: ct_inv_def)
    note ib = ct_inv_index(1) [OF inv i]
    from i obtain xs ys where "is": "is = xs @ i # ys" by (meson split_list)
    have rem: "hm_remove k l = map (ct_entry s) (xs @ ys)"
      using ct_inv_remove [of s xs i ys] inv k by (simp add: l "is")
    let ?s1 = "s\<lparr>ct_nodes := (ct_nodes s)[i := (ct_nodes s ! i)\<lparr>nd_value := v\<rparr>]\<rparr>"
    have "ct_inv ?s1 (xs @ i # ys)" using ct_inv_touch [OF inv i] "is" by simp
    from move_to_head_inv [OF this] obtain s' where s': "move_to_head ?s1 i = Some s'"
      "ct_inv s' (i # xs @ ys)" "ct_rest s' = ct_rest ?s1" by blast
    note eqs = ct_rest_simps [OF s'(3)]
    have "map (ct_entry s') (i # xs @ ys) = map (ct_entry ?s1) (i # xs @ ys)"
      using eqs(10) ct_inv_index(1) [OF inv] "is" by simp
    also have "\<dots> = (k, v) # map (ct_entry s) (xs @ ys)"
      using ib k ct_inv_distinct [OF inv] "is" by (auto simp: ct_entry_def nth_list_update)
    finally have "ct_abs s' ((k, v) # hm_remove k l)"
      using s'(2) rem unfolding ct_abs_def by metis
    with Some s'(1) ib eqs ct_inv_get [OF inv, of k] show ?thesis
      by (simp add: ct_insert_def lru_insert_def lru_evicts_def ct_modify_def ct_params_def l)
  next
    case None
    have get: "hm_get l k = None" using ct_inv_get [OF inv, of k] None by (simp add: l)
    show ?thesis
    proof (cases "length is \<ge> ct_capacity s")
      case False
      from insert_fresh_inv [OF inv _ None, of v] False obtain s' i where
        "do { (idx, s2) \<leftarrow> alloc_node s k v; s3 \<leftarrow> push_head s2 idx;
           Some (s3\<lparr>ct_map := hm_insert k idx (ct_map s3)\<rparr>) } = Some s'"
        "ct_inv s' (i # is)" "map (ct_entry s') (i # is) = (k, v) # map (ct_entry s) is"
        "ct_params s' = ct_params s" "ct_evictions s' = ct_evictions s" by auto
      with None False get len l show ?thesis
        unfolding ct_abs_def by (fastforce simp: ct_insert_def lru_insert_def lru_evicts_def)
    next
      case True
      have pos: "0 < ct_capacity s" using inv by (simp add: ct_inv_def)
      with True obtain xs i where "is": "is = xs @ [i]" by (cases "is" rule: rev_cases) auto
      have tail: "ct_tail s = i" "i \<noteq> NIL"
        using inv "is" ct_links_tail [of s "is"] ct_inv_index(2) [OF inv, of i] by (auto simp: ct_inv_def)
      let ?s = "s\<lparr>ct_evictions := ct_evictions s + 1\<rparr>"
      have "ct_inv ?s (xs @ i # [])"
        using inv "is" by (simp add: ct_inv_def ct_links_def)
      from remove_at_inv [OF this] obtain s1 where s1: "remove_at ?s i = Some s1" "ct_inv s1 xs"
        "map (ct_entry s1) xs = map (ct_entry ?s) xs" "ct_params s1 = ct_params s"
        "ct_evictions s1 = ct_evictions s + 1" by (auto simp: ct_params_def)
      have "length is \<le> length (ct_nodes s)"
        using ct_inv_distinct [OF inv] ct_inv_index(1) [OF inv]
        by (metis card_mono distinct_card finite_lessThan lessThan_iff card_lessThan subsetI)
      then have room: "length xs < ct_capacity s1"
        using "is" s1(4) inv by (simp add: ct_params_def ct_inv_def)
      have "map (ct_entry s1) xs = butlast l"
        using s1(3) l "is" by (simp add: ct_entry_def)
      moreover have "k \<notin> fst ` set (butlast l)"
        using get by (auto simp: map_of_eq_None_iff dest: in_set_butlastD)
      ultimately have "hm_get (ct_map s1) k = None"
        using ct_inv_get [OF s1(2), of k] by (simp add: map_of_eq_None_iff [symmetric])
      from insert_fresh_inv [OF s1(2) room this, of v] obtain s' i' where
        "do { (idx, s2) \<leftarrow> alloc_node s1 k v; s3 \<leftarrow> push_head s2 idx;
           Some (s3\<lparr>ct_map := hm_insert k idx (ct_map s3)\<rparr>) } = Some s'"
        "ct_inv s' (i' # xs)" "map (ct_entry s') (i' # xs) = (k, v) # map (ct_entry s1) xs"
        "ct_params s' = ct_params s1" "ct_evictions s' = ct_evictions s1" by auto
      with None True get len l tail s1 \<open>map (ct_entry s1) xs = butlast l\<close> show ?thesis
        unfolding ct_abs_def
        by (fastforce simp: ct_insert_def lru_insert_def lru_evicts_def rust_assert_def)
    qed
  qed
qed

lemma remove_all_inv:
  assumes "ct_inv s is" and "distinct vs" and "set vs \<subseteq> set is"
  shows "\<exists>s'. remove_all s vs = Some s' \<and> ct_inv s' (filter (\<lambda>i. i \<notin> set vs) is) \<and>
    (\<forall>i \<in> set is - set vs. ct_entry s' i = ct_entry s i) \<and>
    ct_params s' = ct_params s \<and> ct_evictions s' = ct_evictions s"
  using assms
proof (induction vs arbitrary: s "is")
  case Nil
  then show ?case by simp
next
  case (Cons v vs)
  from Cons.prems obtain xs ys where "is": "is = xs @ v # ys" by (metis list.set_intros(1) split_list subsetD)
  from remove_at_inv [OF Cons.prems(1) [unfolded "is"]] obtain s1 where
    s1: "remove_at s v = Some s1" "ct_inv s1 (xs @ ys)"
    and ent: "map (ct_entry s1) (xs @ ys) = map (ct_entry s) (xs @ ys)"
    and par: "ct_params s1 = ct_params s" "ct_evictions s1 = ct_evictions s"
    by (auto simp: ct_params_def)
  have d: "distinct is" by (rule ct_inv_distinct [OF Cons.prems(1)])
  have "set vs \<subseteq> set (xs @ ys)" using Cons.prems(2,3) "is" by auto
  from Cons.IH [OF s1(2) _ this] Cons.prems(2) obtain s' where
    s': "remove_all s1 vs = Some s'" "ct_inv s' (filter (\<lambda>i. i \<notin> set vs) (xs @ ys))"
    "\<forall>i \<in> set (xs @ ys) - set vs. ct_entry s' i = ct_entry s1 i"
    "ct_params s' = ct_params s1" "ct_evictions s' = ct_evictions s1" by auto
  have "v \<notin> set zs \<Longrightarrow> filter (\<lambda>i. i \<notin> set (v # vs)) zs = filter (\<lambda>i. i \<notin> set vs) zs" for zs
    by (intro filter_cong) auto
  from this [of xs] this [of ys]
  have "filter (\<lambda>i. i \<notin> set vs) (xs @ ys) = filter (\<lambda>i. i \<notin> set (v # vs)) is"
    using d "is" by simp
  moreover have "\<forall>i \<in> set is - set (v # vs). ct_entry s' i = ct_entry s i"
    using s'(3) ent "is" by auto
  ultimately show ?case using s1(1) s' par by auto
qed

lemma sweep_refines:
  assumes abs: "ct_abs s l" and vals: "mset vals = image_mset snd (mset (ct_map s))"
  shows "\<exists>s'. sweep_expired vals s now =
      Some (length l - length (lru_sweep (ct_timeout_ns s) l now), s') \<and>
    ct_abs s' (lru_sweep (ct_timeout_ns s) l now) \<and>
    ct_params s' = ct_params s \<and> ct_evictions s' = ct_evictions s"
proof -
  from abs obtain "is" where inv: "ct_inv s is" and l: "l = map (ct_entry s) is"
    by (auto simp: ct_abs_def)
  have "set vals = snd ` set (ct_map s)"
    using vals by (metis mset_map set_map set_mset_mset)
  also have "\<dots> = set is"
  proof (intro equalityI subsetI)
    fix i assume "i \<in> snd ` set (ct_map s)"
    then obtain k where "(k, i) \<in> set (ct_map s)" by auto
    moreover have "hm_wf (ct_map s)" using inv by (simp add: ct_inv_def)
    ultimately have "hm_get (ct_map s) k = Some i" by (simp add: hm_get_mem)
    then show "i \<in> set is" using inv by (simp add: ct_inv_def)
  next
    fix i assume "i \<in> set is"
    from map_of_SomeD [OF ct_inv_index(3) [OF inv this]]
    show "i \<in> snd ` set (ct_map s)" by force
  qed
  finally have set: "set vals = set is" .
  have "length vals = length is"
    using vals ct_inv_len [OF inv] by (metis size_image_mset size_mset)
  with set have dv: "distinct vals"
    using ct_inv_distinct [OF inv] by (metis card_distinct distinct_card)
  let ?vs = "filter (ct_expired s now) vals"
  have keep: "filter (\<lambda>i. i \<notin> set ?vs) is = filter (\<lambda>i. \<not> ct_expired s now i) is"
    using set by (auto intro!: filter_cong)
  have "distinct ?vs" "set ?vs \<subseteq> set is" using dv set by auto
  from remove_all_inv [OF inv this, unfolded keep] obtain s' where
    s': "remove_all s ?vs = Some s'" "ct_inv s' (filter (\<lambda>i. \<not> ct_expired s now i) is)"
    "\<forall>i \<in> set is - set ?vs. ct_entry s' i = ct_entry s i"
    "ct_params s' = ct_params s" "ct_evictions s' = ct_evictions s"
    by blast
  have sw: "lru_sweep (ct_timeout_ns s) l now = map (ct_entry s) (filter (\<lambda>i. \<not> ct_expired s now i) is)"
    by (auto simp: lru_sweep_def l filter_map comp_def ct_entry_def ct_expired_def not_less)
  also have "\<dots> = map (ct_entry s') (filter (\<lambda>i. \<not> ct_expired s now i) is)"
    using s'(3) by simp
  finally have "ct_abs s' (lru_sweep (ct_timeout_ns s) l now)"
    using s'(2) unfolding ct_abs_def by blast
  moreover have "length ?vs = length l - length (lru_sweep (ct_timeout_ns s) l now)"
  proof -
    have "length ?vs = length (filter (ct_expired s now) is)"
      using dv set ct_inv_distinct [OF inv]
      by (metis distinct_filter distinct_card set_filter)
    then show ?thesis
      using sum_length_filter_compl [of "ct_expired s now" "is"] unfolding sw by (simp add: l)
  qed
  moreover have "\<forall>i \<in> set vals. i < length (ct_nodes s)"
    using set ct_inv_index(1) [OF inv] by simp
  ultimately show ?thesis
    using s' by (simp add: sweep_expired_def rust_assert_def)
qed

lemma ct_new_refines:
  "0 < cap \<Longrightarrow> cap \<le> u32_max \<Longrightarrow>
   \<exists>s. ct_new cap timeout = Some s \<and> ct_abs s [] \<and> ct_params s = (cap, timeout) \<and> ct_evictions s = 0"
  by (auto simp: ct_new_def rust_assert_def ct_abs_def ct_inv_def ct_links_def ct_params_def)

section \<open>Whole histories\<close>

text \<open>
  A history of the table is a list of calls. The iteration order of the hash map, which
  \<open>sweep_expired\<close> uses, is the parameter \<open>iter\<close>: any function that lists the values of the map.
\<close>

datatype ct_op = CtLookup five_tuple nat | CtInsert five_tuple conn_entry | CtSweep nat

datatype ct_out = OutLookup "conn_entry option" | OutInsert | OutSweep nat

definition iter_ok :: "((five_tuple, nat) hmap \<Rightarrow> nat list) \<Rightarrow> bool" where
  "iter_ok iter \<longleftrightarrow> (\<forall>m. mset (iter m) = image_mset snd (mset m))"

fun ct_step :: "((five_tuple, nat) hmap \<Rightarrow> nat list) \<Rightarrow> conn_track \<Rightarrow> ct_op \<Rightarrow> (ct_out \<times> conn_track) option" where
  "ct_step iter s (CtLookup k now) = do { (r, s1) \<leftarrow> ct_lookup s k now; Some (OutLookup r, s1) }"
| "ct_step iter s (CtInsert k v) = do { s1 \<leftarrow> ct_insert s k v; Some (OutInsert, s1) }"
| "ct_step iter s (CtSweep now) =
     do { (n, s1) \<leftarrow> sweep_expired (iter (ct_map s)) s now; Some (OutSweep n, s1) }"

fun ct_run :: "((five_tuple, nat) hmap \<Rightarrow> nat list) \<Rightarrow> conn_track \<Rightarrow> ct_op list \<Rightarrow> (ct_out list \<times> conn_track) option" where
  "ct_run iter s [] = Some ([], s)"
| "ct_run iter s (c # cs) =
     do { (r, s1) \<leftarrow> ct_step iter s c; (rs, s2) \<leftarrow> ct_run iter s1 cs; Some (r # rs, s2) }"

fun lru_step :: "nat \<Rightarrow> nat \<Rightarrow> lru \<Rightarrow> ct_op \<Rightarrow> ct_out \<times> lru" where
  "lru_step cap timeout l (CtLookup k now) = map_prod OutLookup id (lru_lookup timeout l k now)"
| "lru_step cap timeout l (CtInsert k v) = (OutInsert, lru_insert cap l k v)"
| "lru_step cap timeout l (CtSweep now) =
     (OutSweep (length l - length (lru_sweep timeout l now)), lru_sweep timeout l now)"

fun lru_run :: "nat \<Rightarrow> nat \<Rightarrow> lru \<Rightarrow> ct_op list \<Rightarrow> ct_out list \<times> lru" where
  "lru_run cap timeout l [] = ([], l)"
| "lru_run cap timeout l (c # cs) =
     (let (r, l1) = lru_step cap timeout l c; (rs, l2) = lru_run cap timeout l1 cs in (r # rs, l2))"

lemma ct_step_refines:
  assumes "iter_ok iter" and "ct_abs s l" and "ct_params s = (cap, timeout)"
  shows "\<exists>s'. ct_step iter s c = Some (fst (lru_step cap timeout l c), s') \<and>
    ct_abs s' (snd (lru_step cap timeout l c)) \<and> ct_params s' = (cap, timeout)"
proof (cases c)
  case (CtLookup k now)
  with ct_lookup_refines [OF assms(2), of k now] assms(3) show ?thesis
    by (auto simp: ct_params_def)
next
  case (CtInsert k v)
  with ct_insert_refines [OF assms(2), of k v] assms(3) show ?thesis
    by (auto simp: ct_params_def)
next
  case (CtSweep now)
  have "mset (iter (ct_map s)) = image_mset snd (mset (ct_map s))"
    using assms(1) by (simp add: iter_ok_def)
  from CtSweep sweep_refines [OF assms(2) this, of now] assms(3) show ?thesis
    by (auto simp: ct_params_def)
qed

lemma ct_run_refines:
  assumes "iter_ok iter" and "ct_abs s l" and "ct_params s = (cap, timeout)"
  shows "\<exists>s'. ct_run iter s cs = Some (fst (lru_run cap timeout l cs), s') \<and>
    ct_abs s' (snd (lru_run cap timeout l cs)) \<and> ct_params s' = (cap, timeout)"
  using assms(2,3)
proof (induction cs arbitrary: s l)
  case Nil
  then show ?case by simp
next
  case (Cons c cs)
  from ct_step_refines [OF assms(1) Cons.prems, of c] obtain s1 where
    "ct_step iter s c = Some (fst (lru_step cap timeout l c), s1)"
    "ct_abs s1 (snd (lru_step cap timeout l c))" "ct_params s1 = (cap, timeout)" by blast
  with Cons.IH [of s1 "snd (lru_step cap timeout l c)"] show ?case
    by (auto simp: split_beta Let_def)
qed

text \<open>The abstract cache never outgrows its capacity and never holds a key twice.\<close>

definition lru_ok :: "nat \<Rightarrow> lru \<Rightarrow> bool" where
  "lru_ok cap l \<longleftrightarrow> hm_wf l \<and> length l \<le> cap"

lemma ct_abs_ok:
  assumes "ct_abs s l"
  shows "lru_ok (ct_capacity s) l" and "ct_len s = length l"
proof -
  from assms obtain "is" where inv: "ct_inv s is" and l: "l = map (ct_entry s) is"
    by (auto simp: ct_abs_def)
  have "length is \<le> length (ct_nodes s)"
    using ct_inv_distinct [OF inv] ct_inv_index(1) [OF inv]
    by (metis card_mono distinct_card finite_lessThan lessThan_iff card_lessThan subsetI)
  with inv l show "lru_ok (ct_capacity s) l" "ct_len s = length l"
    by (auto simp: lru_ok_def ct_inv_wf ct_len_def ct_inv_len ct_inv_def)
qed

section \<open>What a client of the table relies on\<close>

text \<open>
  The data plane sees the table through two calls. Their contract: a look-up returns the entry
  of the key unless it has been idle for longer than the time-to-live, refreshes it when it returns
  it and drops it otherwise; an insertion binds its key and can only drop other keys.
\<close>

definition live_entry :: "nat \<Rightarrow> nat \<Rightarrow> conn_entry option \<Rightarrow> conn_entry option" where
  "live_entry ttl now r =
     (case r of None \<Rightarrow> None | Some e \<Rightarrow> if now - last_seen_ns e > ttl then None else Some e)"

locale conn_cache =
  fixes ok :: "'s \<Rightarrow> bool"
    and peek :: "'s \<Rightarrow> five_tuple \<Rightarrow> conn_entry option"
    and ttl :: "'s \<Rightarrow> nat"
    and lookup :: "'s \<Rightarrow> five_tuple \<Rightarrow> nat \<Rightarrow> (conn_entry option \<times> 's) option"
    and put :: "'s \<Rightarrow> five_tuple \<Rightarrow> conn_entry \<Rightarrow> 's option"
  assumes lookup_law: "ok s \<Longrightarrow> \<exists>s'. lookup s k now = Some (live_entry (ttl s) now (peek s k), s') \<and>
      ok s' \<and> ttl s' = ttl s \<and> (\<forall>k'. k' \<noteq> k \<longrightarrow> peek s' k' = peek s k') \<and>
      peek s' k = map_option (\<lambda>e. e\<lparr>last_seen_ns := now\<rparr>) (live_entry (ttl s) now (peek s k))"
    and put_law: "ok s \<Longrightarrow> \<exists>s'. put s k e = Some s' \<and> ok s' \<and> ttl s' = ttl s \<and> peek s' k = Some e \<and>
      (\<forall>k'. k' \<noteq> k \<longrightarrow> peek s' k' = peek s k' \<or> peek s' k' = None)"
begin

text \<open>
  Look-up, and on a miss insertion of a chosen backend \<open>b\<close>: the key ends up bound to the
  backend the client is told, and no other key is rebound.
\<close>

definition settled where
  "settled s k bk now s' \<longleftrightarrow> ok s' \<and> ttl s' = ttl s \<and>
     peek s' k = Some \<lparr>backend_ip = bk, last_seen_ns = now\<rparr> \<and>
     (\<forall>k'. k' \<noteq> k \<longrightarrow> peek s' k' = peek s k' \<or> peek s' k' = None)"

lemma resolve_hit:
  assumes "ok s" and "live_entry (ttl s) now (peek s k) = Some e"
  shows "\<exists>s'. lookup s k now = Some (Some e, s') \<and> settled s k (backend_ip e) now s'"
  using lookup_law [OF assms(1), of k now] assms(2) by (auto simp: settled_def)

lemma resolve_miss:
  assumes "ok s" and "live_entry (ttl s) now (peek s k) = None"
  shows "\<exists>s1 s'. lookup s k now = Some (None, s1) \<and> put s1 k \<lparr>backend_ip = bk, last_seen_ns = now\<rparr> = Some s' \<and>
    settled s k bk now s'"
proof -
  from lookup_law [OF assms(1), of k now] assms(2) obtain s1 where
    s1: "lookup s k now = Some (None, s1)" "ok s1" "ttl s1 = ttl s"
    "\<forall>k'. k' \<noteq> k \<longrightarrow> peek s1 k' = peek s k'" by auto
  with put_law [OF s1(2), of k "\<lparr>backend_ip = bk, last_seen_ns = now\<rparr>"] show ?thesis
    by (auto simp: settled_def)
qed

end

text \<open>
  With room for one more key, an insertion drops nothing.
\<close>

locale roomy_cache = conn_cache +
  fixes cap :: "'a \<Rightarrow> nat"
  assumes keys_finite: "ok s \<Longrightarrow> finite (dom (peek s))"
    and cap_lookup: "ok s \<Longrightarrow> lookup s k now = Some (r, s') \<Longrightarrow> cap s' = cap s"
    and cap_put: "ok s \<Longrightarrow> put s k e = Some s' \<Longrightarrow> cap s' = cap s"
    and put_keep: "ok s \<Longrightarrow> card (insert k (dom (peek s))) \<le> cap s \<Longrightarrow> put s k e = Some s' \<Longrightarrow>
      k' \<noteq> k \<Longrightarrow> peek s' k' = peek s k'"
begin

definition has_room where
  "has_room s K \<longleftrightarrow> finite K \<and> dom (peek s) \<subseteq> K \<and> card K \<le> cap s"

lemma resolve_keeps:
  assumes "ok s" and "has_room s K" and "k \<in> K"
    and "lookup s k now = Some (r, s1)" and "case r of Some e \<Rightarrow> s' = s1 | None \<Rightarrow> put s1 k v = Some s'"
  shows "\<forall>k'. k' \<noteq> k \<longrightarrow> peek s' k' = peek s k'" and "has_room s' K"
proof -
  from lookup_law [OF assms(1), of k now] assms(4) have
    s1: "ok s1" "\<forall>k'. k' \<noteq> k \<longrightarrow> peek s1 k' = peek s k'" by auto
  have sub: "insert k (dom (peek s1)) \<subseteq> K"
  proof
    fix x assume "x \<in> insert k (dom (peek s1))"
    then have "x = k \<or> x \<in> dom (peek s)" using s1(2) by (auto simp: dom_def)
    then show "x \<in> K" using assms(2,3) by (auto simp: has_room_def)
  qed
  then have "card (insert k (dom (peek s1))) \<le> cap s1"
    using assms(2) cap_lookup [OF assms(1,4)] card_mono [OF _ sub] by (simp add: has_room_def)
  with put_keep [OF s1(1)] assms(5) s1(2) show others: "\<forall>k'. k' \<noteq> k \<longrightarrow> peek s' k' = peek s k'"
    by (auto split: option.splits)
  have "dom (peek s') \<subseteq> K"
  proof
    fix x assume "x \<in> dom (peek s')"
    then have "x = k \<or> x \<in> dom (peek s)" using others by (auto simp: dom_def)
    then show "x \<in> K" using assms(2,3) by (auto simp: has_room_def)
  qed
  moreover have "cap s' = cap s"
    using assms(5) cap_lookup [OF assms(1,4)] cap_put [OF s1(1)] by (auto split: option.splits)
  ultimately show "has_room s' K" using assms(2) by (simp add: has_room_def)
qed

end

definition ct_ok :: "conn_track \<Rightarrow> bool" where
  "ct_ok s \<longleftrightarrow> (\<exists>l. ct_abs s l)"

definition ct_peek :: "conn_track \<Rightarrow> five_tuple \<Rightarrow> conn_entry option" where
  "ct_peek s k = map_option (\<lambda>i. nd_value (ct_nodes s ! i)) (hm_get (ct_map s) k)"

lemma ct_abs_peek: "ct_abs s l \<Longrightarrow> ct_peek s k = hm_get l k"
  by (auto simp: ct_abs_def ct_peek_def ct_inv_get)

lemma ct_okI: "ct_abs s l \<Longrightarrow> ct_ok s"
  by (auto simp: ct_ok_def)

lemma hm_get_butlast:
  assumes "hm_wf l"
  shows "hm_get (butlast l) k = hm_get l k \<or> hm_get (butlast l) k = None"
proof (cases l rule: rev_cases)
  case (snoc l' p)
  with assms show ?thesis by (cases p) (auto simp: hm_wf_def map_add_def split: option.splits)
qed simp

interpretation ct: conn_cache ct_ok ct_peek ct_timeout_ns ct_lookup ct_insert
proof
  fix s k now assume "ct_ok s"
  then obtain l where abs: "ct_abs s l" by (auto simp: ct_ok_def)
  note peek = ct_abs_peek [OF abs]
  from ct_lookup_refines [OF abs, of k now] obtain s' where
    s': "ct_lookup s k now = Some (fst (lru_lookup (ct_timeout_ns s) l k now), s')"
    "ct_abs s' (snd (lru_lookup (ct_timeout_ns s) l k now))" "ct_params s' = ct_params s" by blast
  have "fst (lru_lookup (ct_timeout_ns s) l k now) = live_entry (ct_timeout_ns s) now (ct_peek s k)"
    by (simp add: lru_lookup_def live_entry_def peek split: option.split)
  moreover have "ct_peek s' k' = (if k' = k
      then map_option (\<lambda>e. e\<lparr>last_seen_ns := now\<rparr>) (live_entry (ct_timeout_ns s) now (ct_peek s k))
      else ct_peek s k')" for k'
    using ct_abs_peek [OF s'(2), of k']
    by (auto simp: lru_lookup_def live_entry_def peek split: option.split)
  ultimately show "\<exists>s'. ct_lookup s k now = Some (live_entry (ct_timeout_ns s) now (ct_peek s k), s') \<and>
      ct_ok s' \<and> ct_timeout_ns s' = ct_timeout_ns s \<and> (\<forall>k'. k' \<noteq> k \<longrightarrow> ct_peek s' k' = ct_peek s k') \<and>
      ct_peek s' k = map_option (\<lambda>e. e\<lparr>last_seen_ns := now\<rparr>) (live_entry (ct_timeout_ns s) now (ct_peek s k))"
    using s' by (auto simp: ct_params_def intro: ct_okI)
next
  fix s k e assume "ct_ok s"
  then obtain l where abs: "ct_abs s l" by (auto simp: ct_ok_def)
  note peek = ct_abs_peek [OF abs]
  from ct_insert_refines [OF abs, of k e] obtain s' where
    s': "ct_insert s k e = Some s'" "ct_abs s' (lru_insert (ct_capacity s) l k e)"
    "ct_params s' = ct_params s" by blast
  have "hm_wf l" using ct_abs_ok(1) [OF abs] by (simp add: lru_ok_def)
  then have "k' \<noteq> k \<Longrightarrow> ct_peek s' k' = ct_peek s k' \<or> ct_peek s' k' = None" for k'
    using ct_abs_peek [OF s'(2), of k'] hm_get_butlast [of l k']
    by (auto simp: lru_insert_def peek split: option.splits if_splits)
  moreover have "ct_peek s' k = Some e"
    using ct_abs_peek [OF s'(2), of k] by (auto simp: lru_insert_def split: option.splits)
  ultimately show "\<exists>s'. ct_insert s k e = Some s' \<and> ct_ok s' \<and> ct_timeout_ns s' = ct_timeout_ns s \<and>
      ct_peek s' k = Some e \<and> (\<forall>k'. k' \<noteq> k \<longrightarrow> ct_peek s' k' = ct_peek s k' \<or> ct_peek s' k' = None)"
    using s' by (auto simp: ct_params_def intro: ct_okI)
qed

lemma lru_insert_keep:
  assumes "hm_wf l" and "card (insert k (fst ` set l)) \<le> cap" and "k' \<noteq> k"
  shows "hm_get (lru_insert cap l k v) k' = hm_get l k'"
proof (cases "hm_get l k")
  case None
  then have "k \<notin> fst ` set l" by (simp add: map_of_eq_None_iff)
  then have "length l < cap" using assms(1,2) card_hm_keys [of l] by simp
  with None assms(3) show ?thesis by (simp add: lru_insert_def)
qed (use assms in \<open>simp add: lru_insert_def\<close>)

lemma ct_peek_keys: "ct_abs s l \<Longrightarrow> dom (ct_peek s) = fst ` set l"
  by (simp add: ct_abs_peek dom_map_of_conv_image_fst [symmetric] fun_eq_iff dom_def)

interpretation ctr: roomy_cache ct_ok ct_peek ct_timeout_ns ct_lookup ct_insert ct_capacity
proof
  fix s assume "ct_ok s"
  then obtain l where "ct_abs s l" by (auto simp: ct_ok_def)
  then show "finite (dom (ct_peek s))" by (simp add: ct_peek_keys)
next
  fix s k now r s' assume "ct_ok s" "ct_lookup s k now = Some (r, s')"
  then show "ct_capacity s' = ct_capacity s"
    using ct_lookup_refines [of s _ k now] by (auto simp: ct_ok_def ct_params_def)
next
  fix s k e s' assume "ct_ok s" "ct_insert s k e = Some s'"
  then show "ct_capacity s' = ct_capacity s"
    using ct_insert_refines [of s _ k e] by (auto simp: ct_ok_def ct_params_def)
next
  fix s k e s' k' assume "ct_ok s" and room: "card (insert k (dom (ct_peek s))) \<le> ct_capacity s"
    and s': "ct_insert s k e = Some s'" and neq: "k' \<noteq> k"
  then obtain l where abs: "ct_abs s l" by (auto simp: ct_ok_def)
  from ct_insert_refines [OF abs, of k e] s' have abs': "ct_abs s' (lru_insert (ct_capacity s) l k e)" by auto
  have "hm_wf l" using ct_abs_ok(1) [OF abs] by (simp add: lru_ok_def)
  from lru_insert_keep [OF this _ neq, of "ct_capacity s" e] room
  show "ct_peek s' k' = ct_peek s k'"
    unfolding ct_peek_keys [OF abs] by (simp add: ct_abs_peek [OF abs] ct_abs_peek [OF abs'])
qed

text \<open>A sweep drops exactly the entries a look-up at that time would refuse.\<close>

lemma sweep_peek:
  assumes "ct_ok s" and "iter_ok iter"
  shows "\<exists>n s'. sweep_expired (iter (ct_map s)) s now = Some (n, s') \<and> ct_ok s' \<and>
    ct_params s' = ct_params s \<and>
    (\<forall>k. ct_peek s' k = live_entry (ct_timeout_ns s) now (ct_peek s k))"
proof -
  from assms(1) obtain l where abs: "ct_abs s l" by (auto simp: ct_ok_def)
  have "mset (iter (ct_map s)) = image_mset snd (mset (ct_map s))"
    using assms(2) by (simp add: iter_ok_def)
  from sweep_refines [OF abs this, of now] obtain s' where
    s': "sweep_expired (iter (ct_map s)) s now = Some (length l - length (lru_sweep (ct_timeout_ns s) l now), s')"
    "ct_abs s' (lru_sweep (ct_timeout_ns s) l now)" "ct_params s' = ct_params s" by blast
  have "hm_wf l" using ct_abs_ok(1) [OF abs] by (simp add: lru_ok_def)
  then have "hm_get (lru_sweep (ct_timeout_ns s) l now) k = live_entry (ct_timeout_ns s) now (hm_get l k)" for k
    by (induction l) (auto simp: lru_sweep_def live_entry_def hm_wf_def hm_get_keys [symmetric]
        split: option.splits)
  with s' show ?thesis
    by (auto simp: ct_abs_peek [OF abs] ct_abs_peek [OF s'(2)] intro: ct_okI)
qed

section \<open>Properties\<close>

text \<open>
  C1. The connection table (a slab of nodes with an intrusive doubly linked list, a free list and
  a hash index) behaves, on every sequence of look-ups, insertions and sweeps, exactly like the
  abstract least-recently-used cache with time-outs: no call panics (no dangling index, no failed
  assertion), every answer is the answer of the abstract cache, the links and the index stay
  consistent with its recency order, and the table never holds more than its capacity. The
  result does not depend on the iteration order of the hash map.
\<close>

theorem conntrack_refines_lru:
  assumes "0 < cap" and "cap \<le> u32_max" and "iter_ok iter"
  shows "\<exists>s0 s'. ct_new cap timeout = Some s0 \<and>
    ct_run iter s0 cs = Some (fst (lru_run cap timeout [] cs), s') \<and>
    ct_abs s' (snd (lru_run cap timeout [] cs)) \<and> ct_len s' \<le> cap"
proof -
  from ct_new_refines [OF assms(1,2), of timeout] obtain s0 where
    s0: "ct_new cap timeout = Some s0" "ct_abs s0 []" "ct_params s0 = (cap, timeout)" by blast
  from ct_run_refines [OF assms(3) s0(2,3), of cs] obtain s' where
    s': "ct_run iter s0 cs = Some (fst (lru_run cap timeout [] cs), s')"
    "ct_abs s' (snd (lru_run cap timeout [] cs))" "ct_params s' = (cap, timeout)" by blast
  with s0 show ?thesis using ct_abs_ok [OF s'(2)] by (auto simp: lru_ok_def ct_params_def)
qed

definition sample_tuple :: "u16 \<Rightarrow> five_tuple" where
  "sample_tuple port = \<lparr>src_ip = 1, dst_ip = 2, src_port = port, dst_port = 80, protocol = 6\<rparr>"

theorem conntrack_refines_lru_witness:
  "iter_ok (map snd) \<and> (\<exists>s0 s'. ct_new 2 10 = Some s0 \<and>
     ct_run (map snd) s0
       [CtInsert (sample_tuple 1) \<lparr>backend_ip = 7, last_seen_ns = 0\<rparr>,
        CtInsert (sample_tuple 2) \<lparr>backend_ip = 8, last_seen_ns = 1\<rparr>,
        CtLookup (sample_tuple 1) 5,
        CtInsert (sample_tuple 3) \<lparr>backend_ip = 9, last_seen_ns = 6\<rparr>,
        CtLookup (sample_tuple 2) 6, CtLookup (sample_tuple 1) 30, CtSweep 40] =
       Some ([OutInsert, OutInsert, OutLookup (Some \<lparr>backend_ip = 7, last_seen_ns = 0\<rparr>), OutInsert,
              OutLookup None, OutLookup None, OutSweep 1], s') \<and>
     ct_len s' \<le> 2)"
proof -
  let ?cs = "[CtInsert (sample_tuple 1) \<lparr>backend_ip = 7, last_seen_ns = 0\<rparr>,
        CtInsert (sample_tuple 2) \<lparr>backend_ip = 8, last_seen_ns = 1\<rparr>,
        CtLookup (sample_tuple 1) 5,
        CtInsert (sample_tuple 3) \<lparr>backend_ip = 9, last_seen_ns = 6\<rparr>,
        CtLookup (sample_tuple 2) 6, CtLookup (sample_tuple 1) 30, CtSweep 40]"
  have it: "iter_ok (map snd)" by (simp add: iter_ok_def)
  have "fst (lru_run 2 10 [] ?cs) = [OutInsert, OutInsert, OutLookup (Some \<lparr>backend_ip = 7, last_seen_ns = 0\<rparr>),
      OutInsert, OutLookup None, OutLookup None, OutSweep 1]"
    by (simp add: lru_insert_def lru_lookup_def lru_sweep_def sample_tuple_def)
  with it conntrack_refines_lru [of 2 "map snd" 10 ?cs] show ?thesis by auto
qed

end
