(* ===== verification/Token_Bucket.thy ===== *)
theory Token_Bucket
  imports Prelude Complex_Main
begin

text \<open>
  The per-source token bucket (\<^verbatim>\<open>crates/xdp-edge/src/token_bucket.rs\<close>). The buckets
  compute in \<open>f64\<close>: every arithmetic operation is the exact real operation followed by a rounding
  \<open>rnd\<close>, which is an argument of the definitions; what the proofs use of it is the
  predicate \<open>f64_rounding\<close> below.
\<close>

section \<open>Buckets\<close>

record token_bucket =
  tb_rate_per_ns :: real
  tb_burst :: real
  tb_tokens :: real
  tb_last_refill_ns :: nat

definition tb_new :: "(real \<Rightarrow> real) \<Rightarrow> real \<Rightarrow> real \<Rightarrow> token_bucket option" where
  "tb_new rnd rate burst =
     do { rust_assert (rate > 0 \<and> burst \<ge> 1);
          Some \<lparr>tb_rate_per_ns = rnd (rate / 1000000000), tb_burst = burst, tb_tokens = burst,
                tb_last_refill_ns = 0\<rparr> }"

definition refill :: "(real \<Rightarrow> real) \<Rightarrow> token_bucket \<Rightarrow> nat \<Rightarrow> token_bucket" where
  "refill rnd b now =
     (if now > tb_last_refill_ns b then
        (let elapsed = rnd (real (now - tb_last_refill_ns b)) in
         b\<lparr>tb_tokens := min (rnd (tb_tokens b + rnd (elapsed * tb_rate_per_ns b))) (tb_burst b),
           tb_last_refill_ns := now\<rparr>)
      else b)"

definition tb_allow :: "(real \<Rightarrow> real) \<Rightarrow> token_bucket \<Rightarrow> nat \<Rightarrow> bool \<times> token_bucket" where
  "tb_allow rnd b now =
     (let b1 = refill rnd b now in
      if tb_tokens b1 \<ge> 1 then (True, b1\<lparr>tb_tokens := rnd (tb_tokens b1 - 1)\<rparr>) else (False, b1))"

section \<open>The limiter\<close>

record rate_limiter =
  rl_buckets :: "(u32, token_bucket) hmap"
  rl_rate :: real
  rl_burst :: real
  rl_max_entries :: nat
  rl_overflow_count :: nat

definition rl_new :: "real \<Rightarrow> real \<Rightarrow> nat \<Rightarrow> rate_limiter" where
  "rl_new rate_per_sec burst max_entries =
     \<lparr>rl_buckets = [], rl_rate = rate_per_sec, rl_burst = burst, rl_max_entries = max_entries,
      rl_overflow_count = 0\<rparr>"

definition rl_allow :: "(real \<Rightarrow> real) \<Rightarrow> rate_limiter \<Rightarrow> u32 \<Rightarrow> nat \<Rightarrow> (bool \<times> rate_limiter) option" where
  "rl_allow rnd r src now =
     (case hm_get (rl_buckets r) src of
        Some b \<Rightarrow>
          (let (ok, b1) = tb_allow rnd b now in
           Some (ok, r\<lparr>rl_buckets := hm_insert src b1 (rl_buckets r)\<rparr>))
      | None \<Rightarrow>
          if length (rl_buckets r) \<ge> rl_max_entries r
          then Some (True, r\<lparr>rl_overflow_count := rl_overflow_count r + 1\<rparr>)
          else do { b \<leftarrow> tb_new rnd (rl_rate r) (rl_burst r);
                    let (ok, b1) = tb_allow rnd b now in
                    Some (ok, r\<lparr>rl_buckets := hm_insert src b1 (rl_buckets r)\<rparr>) })"

definition rl_entry_count :: "rate_limiter \<Rightarrow> nat" where
  "rl_entry_count r = length (rl_buckets r)"

section \<open>What is used of floating point\<close>

text \<open>
  \<open>f64_rounding rnd u eta big\<close>: rounding is monotone and exact at 0; up to \<open>big\<close> it
  overshoots a non-negative value by at most the relative error \<open>u\<close> and the absolute error
  \<open>eta\<close> (for binary64 round-to-nearest, \<open>u = 2\<^sup>-\<^sup>5\<^sup>3\<close>, and \<open>eta\<close> half the least
  subnormal).
\<close>

definition f64_rounding :: "(real \<Rightarrow> real) \<Rightarrow> real \<Rightarrow> real \<Rightarrow> real \<Rightarrow> bool" where
  "f64_rounding rnd u eta big \<longleftrightarrow>
     mono rnd \<and> rnd 0 = 0 \<and> 0 \<le> u \<and> 0 \<le> eta \<and> (\<forall>x. 0 \<le> x \<and> x \<le> big \<longrightarrow> rnd x \<le> x + u * x + eta)"

definition tb_inv :: "token_bucket \<Rightarrow> bool" where
  "tb_inv b \<longleftrightarrow> 0 \<le> tb_rate_per_ns b \<and> 1 \<le> tb_burst b \<and> 0 \<le> tb_tokens b \<and> tb_tokens b \<le> tb_burst b"

lemma rnd_nonneg: "f64_rounding rnd u eta big \<Longrightarrow> 0 \<le> x \<Longrightarrow> 0 \<le> rnd x"
  by (metis f64_rounding_def monoD)

lemma tb_new_inv:
  assumes "f64_rounding rnd u eta big" and "tb_new rnd rate burst = Some b"
  shows "tb_inv b" and "tb_burst b = burst"
  using assms by (auto simp: tb_new_def tb_inv_def rust_assert_def rnd_nonneg split: if_splits)

lemma refill_inv:
  assumes "f64_rounding rnd u eta big" and "tb_inv b"
  shows "tb_inv (refill rnd b now)"
proof -
  have "0 \<le> rnd (tb_tokens b + rnd (rnd (real d) * tb_rate_per_ns b))" for d
    using assms by (auto simp: tb_inv_def intro!: rnd_nonneg [OF assms(1)] add_nonneg_nonneg mult_nonneg_nonneg)
  with assms(2) show ?thesis
    by (auto simp: refill_def tb_inv_def Let_def simp del: of_nat_diff)
qed

lemma refill_same [simp]:
  "tb_burst (refill rnd b now) = tb_burst b" "tb_rate_per_ns (refill rnd b now) = tb_rate_per_ns b"
  "tb_last_refill_ns (refill rnd b now) = max now (tb_last_refill_ns b)"
  by (auto simp: refill_def Let_def)

lemma tb_allow_same [simp]:
  "tb_burst (snd (tb_allow rnd b now)) = tb_burst b"
  "tb_rate_per_ns (snd (tb_allow rnd b now)) = tb_rate_per_ns b"
  "tb_last_refill_ns (snd (tb_allow rnd b now)) = max now (tb_last_refill_ns b)"
  by (auto simp: tb_allow_def Let_def)

text \<open>The burst size is itself an \<open>f64\<close> value: \<open>rnd (tb_burst b) = tb_burst b\<close>.\<close>

lemma tb_allow_inv:
  assumes "f64_rounding rnd u eta big" and "tb_inv b" and "rnd (tb_burst b) = tb_burst b"
  shows "tb_inv (snd (tb_allow rnd b now))"
proof -
  let ?b = "refill rnd b now"
  have inv: "tb_inv ?b" by (rule refill_inv [OF assms(1,2)])
  have "rnd (tb_tokens ?b - 1) \<le> rnd (tb_burst b)"
    using assms(1) inv by (intro monoD [of rnd]) (auto simp: f64_rounding_def tb_inv_def)
  moreover have "1 \<le> tb_tokens ?b \<Longrightarrow> 0 \<le> rnd (tb_tokens ?b - 1)"
    by (rule rnd_nonneg [OF assms(1)]) simp
  ultimately show ?thesis
    using inv assms(3) by (auto simp: tb_allow_def tb_inv_def Let_def)
qed

section \<open>The rate bound\<close>

text \<open>One refill adds at most the exact amount and the rounding error of one call.\<close>

definition refill_err :: "real \<Rightarrow> real \<Rightarrow> token_bucket \<Rightarrow> real" where
  "refill_err u eta b = (1 + u) * tb_rate_per_ns b * eta + 2 * eta + u * tb_burst b"

lemma refill_tokens:
  assumes f: "f64_rounding rnd u eta big" and inv: "tb_inv b" and big: "tb_burst b \<le> big"
    and now: "real now \<le> big"
  shows "tb_tokens (refill rnd b now) \<le> tb_tokens b +
    (1 + u)\<^sup>2 * tb_rate_per_ns b * real (now - tb_last_refill_ns b) + refill_err u eta b"
proof (cases "now > tb_last_refill_ns b")
  case False
  have "0 \<le> (1 + u) * tb_rate_per_ns b * eta" "0 \<le> u * tb_burst b" "0 \<le> eta"
    using f inv by (auto simp: f64_rounding_def tb_inv_def)
  with False show ?thesis by (simp add: refill_def refill_err_def)
next
  case True
  let ?d = "real (now - tb_last_refill_ns b)" and ?r = "tb_rate_per_ns b" and ?t = "tb_tokens b"
  let ?e = "rnd ?d" and ?B = "tb_burst b"
  have u: "0 \<le> u" "0 \<le> eta" and r: "0 \<le> ?r" and t: "0 \<le> ?t" "?t \<le> ?B" and B: "1 \<le> ?B"
    using f inv by (auto simp: f64_rounding_def tb_inv_def)
  have over: "0 \<le> x \<Longrightarrow> x \<le> big \<Longrightarrow> rnd x \<le> x + u * x + eta" for x
    using f by (auto simp: f64_rounding_def)
  have e: "0 \<le> ?e" by (rule rnd_nonneg [OF f]) simp
  have "?e \<le> ?d + u * ?d + eta" using over [of ?d] now by simp
  then have "?e * ?r \<le> (?d + u * ?d + eta) * ?r" using r by (intro mult_right_mono) auto
  then have y: "?e * ?r + u * (?e * ?r) \<le> (1 + u)\<^sup>2 * ?r * ?d + (1 + u) * ?r * eta"
    using mult_left_mono [of "?e * ?r" "(?d + u * ?d + eta) * ?r" "1 + u"] u
    by (simp add: power2_eq_square algebra_simps)
  have y0: "0 \<le> ?e * ?r" using e r by simp
  let ?x = "?t + rnd (?e * ?r)"
  have x0: "0 \<le> ?x" using t rnd_nonneg [OF f y0] by simp
  have cap: "min (rnd ?x) ?B \<le> ?B" by simp
  have main: "min (rnd ?x) ?B \<le> ?t + ?e * ?r + u * (?e * ?r) + 2 * eta + u * ?B"
  proof (cases "?e * ?r \<le> big")
    case False
    then have "?B \<le> ?e * ?r" using big by simp
    moreover have "0 \<le> u * (?e * ?r)" "0 \<le> u * ?B" using u y0 B by auto
    ultimately show ?thesis using cap t u by linarith
  next
    case True
    then have s: "rnd (?e * ?r) \<le> ?e * ?r + u * (?e * ?r) + eta" using over y0 by simp
    show ?thesis
    proof (cases "?x \<le> ?B")
      case True
      then have "rnd ?x \<le> ?x + u * ?x + eta" using over [of ?x] x0 big by simp
      moreover have "u * ?x \<le> u * ?B" using True u by (intro mult_left_mono)
      ultimately show ?thesis using s by linarith
    next
      case False
      moreover have "0 \<le> u * ?B" using u B by simp
      ultimately show ?thesis using cap s u by linarith
    qed
  qed
  with y True show ?thesis
    by (simp add: refill_def refill_err_def Let_def)
qed

lemma tb_allow_tokens:
  assumes f: "f64_rounding rnd u eta big" and inv: "tb_inv b" and big: "tb_burst b \<le> big"
    and now: "real now \<le> big"
  shows "tb_tokens (snd (tb_allow rnd b now)) + of_bool (fst (tb_allow rnd b now)) \<le> tb_tokens b +
    (1 + u)\<^sup>2 * tb_rate_per_ns b * real (now - tb_last_refill_ns b) + refill_err u eta b
    + u * tb_burst b + eta"
proof -
  let ?b = "refill rnd b now"
  have inv': "tb_inv ?b" by (rule refill_inv [OF f inv])
  have u: "0 \<le> u * tb_burst b" "0 \<le> eta" and u0: "0 \<le> u"
    using f inv by (auto simp: f64_rounding_def tb_inv_def)
  have "rnd (tb_tokens ?b - 1) \<le> tb_tokens ?b - 1 + u * tb_burst b + eta" if "1 \<le> tb_tokens ?b"
  proof -
    have t: "0 \<le> tb_tokens ?b - 1" "tb_tokens ?b - 1 \<le> tb_burst b"
      using that inv' by (auto simp: tb_inv_def)
    then have "rnd (tb_tokens ?b - 1) \<le> tb_tokens ?b - 1 + u * (tb_tokens ?b - 1) + eta"
      using f big by (auto simp: f64_rounding_def)
    moreover have "u * (tb_tokens ?b - 1) \<le> u * tb_burst b"
      using t u0 by (intro mult_left_mono)
    ultimately show ?thesis by linarith
  qed
  with refill_tokens [OF f inv big now] u show ?thesis
    by (auto simp: tb_allow_def Let_def simp del: of_nat_diff)
qed

text \<open>A run of the bucket over a sequence of arrival times; how many arrivals it admits.\<close>

fun tb_run :: "(real \<Rightarrow> real) \<Rightarrow> token_bucket \<Rightarrow> nat list \<Rightarrow> bool list \<times> token_bucket" where
  "tb_run rnd b [] = ([], b)"
| "tb_run rnd b (t # ts) =
     (let (ok, b1) = tb_allow rnd b t; (oks, b2) = tb_run rnd b1 ts in (ok # oks, b2))"

definition admitted :: "bool list \<Rightarrow> nat" where
  "admitted oks = length (filter id oks)"

lemma tb_run_inv:
  assumes f: "f64_rounding rnd u eta big" and "tb_inv b" and "rnd (tb_burst b) = tb_burst b"
  shows "tb_inv (snd (tb_run rnd b ts)) \<and> tb_burst (snd (tb_run rnd b ts)) = tb_burst b"
  using assms(2,3)
proof (induction ts arbitrary: b)
  case (Cons t ts)
  from Cons.IH [of "snd (tb_allow rnd b t)"] Cons.prems tb_allow_inv [OF f Cons.prems, of t]
  show ?case by (simp add: split_beta Let_def)
qed simp

lemma tb_run_tokens:
  assumes f: "f64_rounding rnd u eta big" and inv: "tb_inv b" and rb: "rnd (tb_burst b) = tb_burst b"
    and big: "tb_burst b \<le> big" and ts: "\<forall>t \<in> set ts. real t \<le> big"
  shows "tb_tokens (snd (tb_run rnd b ts)) + real (admitted (fst (tb_run rnd b ts))) \<le>
    tb_tokens b + (1 + u)\<^sup>2 * tb_rate_per_ns b *
      real (Max (insert (tb_last_refill_ns b) (set ts)) - tb_last_refill_ns b)
    + real (length ts) * (refill_err u eta b + u * tb_burst b + eta)"
  using inv rb big ts
proof (induction ts arbitrary: b)
  case Nil
  then show ?case by (simp add: admitted_def)
next
  case (Cons t ts)
  let ?b = "snd (tb_allow rnd b t)" and ?l = "tb_last_refill_ns b"
  let ?c = "(1 + u)\<^sup>2 * tb_rate_per_ns b" and ?err = "refill_err u eta b + u * tb_burst b + eta"
  let ?m = "Max (insert (max t ?l) (set ts))"
  have err: "refill_err u eta ?b = refill_err u eta b" by (simp add: refill_err_def)
  have step: "tb_tokens ?b + of_bool (fst (tb_allow rnd b t)) \<le> tb_tokens b + ?c * real (t - ?l) + ?err"
    using tb_allow_tokens [OF f Cons.prems(1,3), of t] Cons.prems(4) by (simp add: add.assoc)
  have IH: "tb_tokens (snd (tb_run rnd ?b ts)) + real (admitted (fst (tb_run rnd ?b ts))) \<le>
      tb_tokens ?b + ?c * real (?m - max t ?l) + real (length ts) * ?err"
    using Cons.IH [of ?b] Cons.prems tb_allow_inv [OF f Cons.prems(1,2), of t]
    by (simp add: err del: of_nat_diff)
  have "max t ?l \<le> ?m" by (rule Max_ge) auto
  then have "real (t - ?l) + real (?m - max t ?l) = real (?m - ?l)" by linarith
  then have c: "?c * real (t - ?l) + ?c * real (?m - max t ?l) = ?c * real (?m - ?l)"
    by (metis distrib_left)
  have mx: "Max (insert ?l (set (t # ts))) = ?m"
    by (cases "ts = []") (auto simp: Max_insert max.assoc max.left_commute max.commute)
  have ad: "real (admitted (fst (tb_run rnd b (t # ts)))) =
      of_bool (fst (tb_allow rnd b t)) + real (admitted (fst (tb_run rnd ?b ts)))"
    by (simp add: admitted_def split_beta Let_def)
  have sn: "snd (tb_run rnd b (t # ts)) = snd (tb_run rnd ?b ts)"
    by (simp add: split_beta Let_def)
  have ln: "real (length (t # ts)) * ?err = real (length ts) * ?err + ?err"
    by (simp add: algebra_simps)
  show ?case
    unfolding mx ad sn ln using step IH c by linarith
qed

section \<open>The limiter keeps one private bucket per source\<close>

definition rl_inv :: "rate_limiter \<Rightarrow> bool" where
  "rl_inv r \<longleftrightarrow> hm_wf (rl_buckets r) \<and> length (rl_buckets r) \<le> rl_max_entries r \<and>
     rl_rate r > 0 \<and> rl_burst r \<ge> 1"

lemma rl_new_inv: "rate > 0 \<Longrightarrow> burst \<ge> 1 \<Longrightarrow> rl_inv (rl_new rate burst n)"
  by (simp add: rl_inv_def rl_new_def)

text \<open>The bucket a source has, or would get at its first packet.\<close>

definition bucket_of :: "(real \<Rightarrow> real) \<Rightarrow> rate_limiter \<Rightarrow> u32 \<Rightarrow> token_bucket" where
  "bucket_of rnd r src =
     (case hm_get (rl_buckets r) src of
        Some b \<Rightarrow> b
      | None \<Rightarrow> \<lparr>tb_rate_per_ns = rnd (rl_rate r / 1000000000), tb_burst = rl_burst r,
                 tb_tokens = rl_burst r, tb_last_refill_ns = 0\<rparr>)"

lemma tb_new_bucket_of:
  "rl_inv r \<Longrightarrow> hm_get (rl_buckets r) src = None \<Longrightarrow>
   tb_new rnd (rl_rate r) (rl_burst r) = Some (bucket_of rnd r src)"
  by (simp add: tb_new_def bucket_of_def rl_inv_def rust_assert_def)

definition rl_room :: "rate_limiter \<Rightarrow> u32 set \<Rightarrow> bool" where
  "rl_room r srcs \<longleftrightarrow> card (fst ` set (rl_buckets r) \<union> srcs) \<le> rl_max_entries r"

lemma rl_allow_step:
  assumes inv: "rl_inv r" and room: "rl_room r (insert src srcs)" and fin: "finite srcs"
  shows "\<exists>r'. rl_allow rnd r src now = Some (fst (tb_allow rnd (bucket_of rnd r src) now), r') \<and>
    rl_inv r' \<and> rl_room r' srcs \<and> bucket_of rnd r' src = snd (tb_allow rnd (bucket_of rnd r src) now) \<and>
    (\<forall>s. s \<noteq> src \<longrightarrow> bucket_of rnd r' s = bucket_of rnd r s)"
proof -
  let ?b = "bucket_of rnd r src"
  let ?r = "r\<lparr>rl_buckets := hm_insert src (snd (tb_allow rnd ?b now)) (rl_buckets r)\<rparr>"
  have room': "rl_room ?r srcs"
    using room by (simp add: rl_room_def)
  have len: "length (rl_buckets r) < rl_max_entries r" if "hm_get (rl_buckets r) src = None"
  proof -
    have "src \<notin> fst ` set (rl_buckets r)" using that by (simp add: map_of_eq_None_iff)
    then have "Suc (card (fst ` set (rl_buckets r))) = card (insert src (fst ` set (rl_buckets r)))"
      by simp
    also have "\<dots> \<le> card (fst ` set (rl_buckets r) \<union> insert src srcs)"
      using fin by (intro card_mono) auto
    finally have "Suc (card (fst ` set (rl_buckets r))) \<le> rl_max_entries r"
      using room by (simp add: rl_room_def)
    then show ?thesis
      using inv card_hm_keys [of "rl_buckets r"] by (simp add: rl_inv_def)
  qed
  have inv': "rl_inv ?r"
  proof (cases "hm_get (rl_buckets r) src")
    case None
    with len inv show ?thesis by (simp add: rl_inv_def length_hm_insert_new)
  next
    case (Some b)
    with inv show ?thesis by (simp add: rl_inv_def length_hm_insert_old)
  qed
  have run: "rl_allow rnd r src now = Some (fst (tb_allow rnd ?b now), ?r)"
  proof (cases "hm_get (rl_buckets r) src")
    case None
    with len inv tb_new_bucket_of [OF inv None, of rnd] show ?thesis
      by (simp add: rl_allow_def split_beta Let_def)
  next
    case (Some b)
    then have "?b = b" by (simp add: bucket_of_def)
    with Some show ?thesis by (simp add: rl_allow_def split_beta Let_def)
  qed
  have "bucket_of rnd (r\<lparr>rl_buckets := hm_insert src v (rl_buckets r)\<rparr>) s =
      (if s = src then v else bucket_of rnd r s)" for s v
    by (simp add: bucket_of_def split: option.split)
  with run inv' room' show ?thesis by auto
qed

fun rl_run :: "(real \<Rightarrow> real) \<Rightarrow> rate_limiter \<Rightarrow> (u32 \<times> nat) list \<Rightarrow> (bool list \<times> rate_limiter) option" where
  "rl_run rnd r [] = Some ([], r)"
| "rl_run rnd r ((src, now) # ps) =
     do { (ok, r1) \<leftarrow> rl_allow rnd r src now; (oks, r2) \<leftarrow> rl_run rnd r1 ps; Some (ok # oks, r2) }"

definition verdicts_of :: "u32 \<Rightarrow> (u32 \<times> nat) list \<Rightarrow> bool list \<Rightarrow> bool list" where
  "verdicts_of src ps oks = map snd (filter (\<lambda>(p, ok). fst p = src) (zip ps oks))"

definition arrivals_of :: "u32 \<Rightarrow> (u32 \<times> nat) list \<Rightarrow> nat list" where
  "arrivals_of src ps = map snd (filter (\<lambda>p. fst p = src) ps)"

lemma rl_run_private:
  assumes "rl_inv r" and "rl_room r (fst ` set ps)"
  shows "\<exists>oks r'. rl_run rnd r ps = Some (oks, r') \<and> rl_inv r' \<and>
    (\<forall>src. verdicts_of src ps oks = fst (tb_run rnd (bucket_of rnd r src) (arrivals_of src ps)))"
  using assms
proof (induction ps arbitrary: r)
  case Nil
  then show ?case by (simp add: verdicts_of_def arrivals_of_def)
next
  case (Cons p ps)
  obtain src now where p: "p = (src, now)" by (cases p)
  from Cons.prems(2) have "rl_room r (insert src (fst ` set ps))" by (simp add: p)
  from rl_allow_step [OF Cons.prems(1) this, of rnd now] obtain r1 where
    r1: "rl_allow rnd r src now = Some (fst (tb_allow rnd (bucket_of rnd r src) now), r1)"
    "rl_inv r1" "rl_room r1 (fst ` set ps)"
    "bucket_of rnd r1 src = snd (tb_allow rnd (bucket_of rnd r src) now)"
    "\<forall>s. s \<noteq> src \<longrightarrow> bucket_of rnd r1 s = bucket_of rnd r s" by auto
  from Cons.IH [OF r1(2,3)] obtain oks r2 where
    r2: "rl_run rnd r1 ps = Some (oks, r2)" "rl_inv r2"
    "\<And>s. verdicts_of s ps oks = fst (tb_run rnd (bucket_of rnd r1 s) (arrivals_of s ps))" by blast
  have "verdicts_of s (p # ps) (fst (tb_allow rnd (bucket_of rnd r src) now) # oks) =
      fst (tb_run rnd (bucket_of rnd r s) (arrivals_of s (p # ps)))" for s
    using r2(3) [of s] r1(4,5)
    by (auto simp: verdicts_of_def arrivals_of_def p split_beta Let_def)
  with r1 r2 show ?case by (auto simp: p)
qed

lemma rl_allow_max: "rl_allow rnd r src now = Some (ok, r') \<Longrightarrow> rl_max_entries r' = rl_max_entries r"
  by (auto simp: rl_allow_def split_beta Let_def split: option.splits if_splits bind_splits)

lemma rl_run_max: "rl_run rnd r ps = Some (oks, r') \<Longrightarrow> rl_max_entries r' = rl_max_entries r"
proof (induction ps arbitrary: r oks r')
  case (Cons p ps)
  then show ?case
    by (cases p) (auto dest!: rl_allow_max split: bind_splits)
qed simp

section \<open>Properties\<close>

text \<open>
  C23. The rate bound of a token bucket, in floating point. From any well-formed state, whatever
  the arrival times (out of order included), the number of packets admitted is at most the burst
  plus the configured rate times the time elapsed, up to the rounding of the multiplications
  and one rounding error per call.
\<close>

theorem bucket_rate_bound:
  assumes "f64_rounding rnd u eta big" and "tb_inv b" and "rnd (tb_burst b) = tb_burst b"
    and "tb_burst b \<le> big" and "\<forall>t \<in> set ts. real t \<le> big"
  shows "real (admitted (fst (tb_run rnd b ts))) \<le> tb_burst b
    + (1 + u)\<^sup>2 * tb_rate_per_ns b * real (Max (insert (tb_last_refill_ns b) (set ts)) - tb_last_refill_ns b)
    + real (length ts) * (refill_err u eta b + u * tb_burst b + eta)"
proof -
  have "0 \<le> tb_tokens (snd (tb_run rnd b ts))"
    using tb_run_inv [OF assms(1-3), of ts] by (simp add: tb_inv_def)
  moreover have "tb_tokens b \<le> tb_burst b" using assms(2) by (simp add: tb_inv_def)
  ultimately show ?thesis using tb_run_tokens [OF assms] by linarith
qed

theorem bucket_rate_bound_witness:
  "f64_rounding id 0 0 100 \<and>
   real (admitted (fst (tb_run id \<lparr>tb_rate_per_ns = 1 / 2, tb_burst = 3, tb_tokens = 1, tb_last_refill_ns = 4\<rparr>
     [4, 4, 5, 6, 5, 10]))) \<le> 3 + 1 / 2 * 6"
proof -
  let ?b = "\<lparr>tb_rate_per_ns = 1 / 2 :: real, tb_burst = 3, tb_tokens = 1, tb_last_refill_ns = 4\<rparr>"
  have f: "f64_rounding id 0 0 100" by (simp add: f64_rounding_def mono_def)
  have "real (admitted (fst (tb_run id ?b [4, 4, 5, 6, 5, 10]))) \<le> tb_burst ?b
    + (1 + 0)\<^sup>2 * tb_rate_per_ns ?b * real (Max (insert (tb_last_refill_ns ?b) (set [4, 4, 5, 6, 5, 10])) - tb_last_refill_ns ?b)
    + real (length [4 :: nat, 4, 5, 6, 5, 10]) * (refill_err 0 0 ?b + 0 * tb_burst ?b + 0)"
    by (rule bucket_rate_bound [OF f]) (simp_all add: tb_inv_def)
  with f show ?thesis by (simp add: refill_err_def)
qed

text \<open>
  C28. Sources do not interfere: while the map has room for every source that appears, the limiter
  never panics and gives each source exactly the verdicts of a private bucket that saw only
  this source's packets.
\<close>

theorem limiter_isolates_sources:
  assumes "0 < rate" and "1 \<le> burst" and "card (fst ` set ps) \<le> max_entries"
  shows "\<exists>oks r'. rl_run rnd (rl_new rate burst max_entries) ps = Some (oks, r') \<and>
    rl_entry_count r' \<le> max_entries \<and>
    (\<forall>src. \<exists>b. tb_new rnd rate burst = Some b \<and>
       verdicts_of src ps oks = fst (tb_run rnd b (arrivals_of src ps)))"
proof -
  let ?r = "rl_new rate burst max_entries"
  have inv: "rl_inv ?r" using assms by (simp add: rl_new_inv)
  have "rl_room ?r (fst ` set ps)" using assms(3) by (simp add: rl_room_def rl_new_def)
  from rl_run_private [OF inv this, of rnd] obtain oks r' where
    r': "rl_run rnd ?r ps = Some (oks, r')" "rl_inv r'"
    "\<forall>src. verdicts_of src ps oks = fst (tb_run rnd (bucket_of rnd ?r src) (arrivals_of src ps))"
    by blast
  moreover have "rl_max_entries r' = max_entries"
    using rl_run_max [OF r'(1)] by (simp add: rl_new_def)
  moreover have "tb_new rnd rate burst = Some (bucket_of rnd ?r src)" for src
    using tb_new_bucket_of [OF inv, of src rnd] by (simp add: rl_new_def)
  ultimately show ?thesis by (auto simp: rl_inv_def rl_entry_count_def)
qed

theorem limiter_isolates_sources_witness:
  "\<exists>oks r'. rl_run id (rl_new 1000000000 1 2) [(1, 0), (1, 0), (2, 0), (1, 1)] = Some (oks, r') \<and>
     rl_entry_count r' \<le> 2 \<and>
     (\<forall>src. \<exists>b. tb_new id 1000000000 1 = Some b \<and>
        verdicts_of src [(1, 0), (1, 0), (2, 0), (1, 1)] oks =
          fst (tb_run id b (arrivals_of src [(1, 0), (1, 0), (2, 0), (1, 1)])))"
  by (rule limiter_isolates_sources) (simp_all add: card_insert_if)

end
