(* ===== verification/Syn_Flood.thy ===== *)
theory Syn_Flood
  imports Prelude
begin

text \<open>
  The SYN-flood detector (\<^verbatim>\<open>crates/xdp-edge/src/synflood.rs\<close>): per source, the SYN and
  ACK counts of the current window, and the ratio test on them.
\<close>

section \<open>The detector\<close>

record syn_window =
  w_syn :: nat
  w_ack :: nat
  w_start_ns :: nat
  w_init :: bool

definition window_default :: syn_window where
  "window_default = \<lparr>w_syn = 0, w_ack = 0, w_start_ns = 0, w_init = False\<rparr>"

record syn_guard =
  sg_windows :: "(u32, syn_window) hmap"
  sg_window_ns :: nat
  sg_syn_threshold :: nat
  sg_ack_ratio :: nat
  sg_flagged_sources :: nat

definition sg_new :: "nat \<Rightarrow> nat \<Rightarrow> nat \<Rightarrow> syn_guard" where
  "sg_new window_ns syn_threshold ack_ratio =
     \<lparr>sg_windows = [], sg_window_ns = window_ns, sg_syn_threshold = syn_threshold,
      sg_ack_ratio = ack_ratio, sg_flagged_sources = 0\<rparr>"

definition sat_mul_u32 :: "nat \<Rightarrow> nat \<Rightarrow> nat" where
  "sat_mul_u32 a b = min (a * b) u32_max"

definition window_of :: "syn_guard \<Rightarrow> u32 \<Rightarrow> syn_window" where
  "window_of g src = (case hm_get (sg_windows g) src of Some w \<Rightarrow> w | None \<Rightarrow> window_default)"

definition sg_observe :: "syn_guard \<Rightarrow> u32 \<Rightarrow> bool \<Rightarrow> bool \<Rightarrow> nat \<Rightarrow> bool \<times> syn_guard" where
  "sg_observe g src syn ack now =
     (let w = window_of g src;
          w1 = (if \<not> w_init w \<or> now - w_start_ns w \<ge> sg_window_ns g
                then \<lparr>w_syn = 0, w_ack = 0, w_start_ns = now, w_init = True\<rparr> else w);
          w2 = (if syn then w1\<lparr>w_syn := w_syn w1 + 1\<rparr>
                else if ack then w1\<lparr>w_ack := w_ack w1 + 1\<rparr> else w1);
          flagged = (w_syn w2 \<ge> sg_syn_threshold g \<and> w_syn w2 > sat_mul_u32 (w_ack w2) (sg_ack_ratio g));
          n = (if flagged \<and> w_syn w2 = sg_syn_threshold g then sg_flagged_sources g + 1
               else sg_flagged_sources g)
      in (flagged, g\<lparr>sg_windows := hm_insert src w2 (sg_windows g), sg_flagged_sources := n\<rparr>))"

definition sg_tracked_sources :: "syn_guard \<Rightarrow> nat" where
  "sg_tracked_sources g = length (sg_windows g)"

section \<open>Windows\<close>

text \<open>A TCP packet as the detector sees it: its SYN and ACK tests and its arrival time.\<close>

type_synonym tcp_event = "bool \<times> bool \<times> nat"

fun sg_run :: "syn_guard \<Rightarrow> u32 \<Rightarrow> tcp_event list \<Rightarrow> bool list \<times> syn_guard" where
  "sg_run g src [] = ([], g)"
| "sg_run g src ((syn, ack, now) # es) =
     (let (v, g1) = sg_observe g src syn ack now; (vs, g2) = sg_run g1 src es in (v # vs, g2))"

definition syns :: "tcp_event list \<Rightarrow> nat" where
  "syns es = length (filter (\<lambda>(syn, ack, t). syn) es)"

definition acks :: "tcp_event list \<Rightarrow> nat" where
  "acks es = length (filter (\<lambda>(syn, ack, t). \<not> syn \<and> ack) es)"

definition flood_test :: "syn_guard \<Rightarrow> nat \<Rightarrow> nat \<Rightarrow> bool" where
  "flood_test g s a \<longleftrightarrow> s \<ge> sg_syn_threshold g \<and> s > sat_mul_u32 a (sg_ack_ratio g)"

lemma window_of_observe:
  "window_of (snd (sg_observe g src syn ack now)) src' =
     (if src' = src then
        (let w = window_of g src;
             w1 = (if \<not> w_init w \<or> now - w_start_ns w \<ge> sg_window_ns g
                   then \<lparr>w_syn = 0, w_ack = 0, w_start_ns = now, w_init = True\<rparr> else w)
         in if syn then w1\<lparr>w_syn := w_syn w1 + 1\<rparr>
            else if ack then w1\<lparr>w_ack := w_ack w1 + 1\<rparr> else w1)
      else window_of g src')"
  by (simp add: sg_observe_def window_of_def Let_def)

lemma sg_observe_params [simp]:
  "sg_window_ns (snd (sg_observe g src syn ack now)) = sg_window_ns g"
  "sg_syn_threshold (snd (sg_observe g src syn ack now)) = sg_syn_threshold g"
  "sg_ack_ratio (snd (sg_observe g src syn ack now)) = sg_ack_ratio g"
  by (simp_all add: sg_observe_def Let_def)

lemma sg_observe_verdict:
  "fst (sg_observe g src syn ack now) =
     flood_test g (w_syn (window_of (snd (sg_observe g src syn ack now)) src))
       (w_ack (window_of (snd (sg_observe g src syn ack now)) src))"
  by (simp add: window_of_observe flood_test_def) (simp add: sg_observe_def Let_def)

lemma flood_test_cong:
  "sg_syn_threshold g' = sg_syn_threshold g \<Longrightarrow> sg_ack_ratio g' = sg_ack_ratio g \<Longrightarrow>
   flood_test g' s a = flood_test g s a"
  by (simp add: flood_test_def)

text \<open>Inside an open window the counts are those of the packets seen since it opened.\<close>

lemma sg_run_window:
  assumes "w_init (window_of g src)" and "\<forall>(syn, ack, t) \<in> set es. t - w_start_ns (window_of g src) < sg_window_ns g"
  shows "w_syn (window_of (snd (sg_run g src es)) src) = w_syn (window_of g src) + syns es \<and>
    w_ack (window_of (snd (sg_run g src es)) src) = w_ack (window_of g src) + acks es \<and>
    sg_syn_threshold (snd (sg_run g src es)) = sg_syn_threshold g \<and>
    sg_ack_ratio (snd (sg_run g src es)) = sg_ack_ratio g"
  using assms
proof (induction es arbitrary: g)
  case Nil
  then show ?case by (simp add: syns_def acks_def)
next
  case (Cons e es)
  obtain syn ack t where e: "e = (syn, ack, t)" by (cases e)
  let ?g = "snd (sg_observe g src syn ack t)"
  have "t - w_start_ns (window_of g src) < sg_window_ns g" using Cons.prems(2) by (simp add: e)
  with Cons.prems(1) have w: "window_of ?g src =
      (if syn then (window_of g src)\<lparr>w_syn := w_syn (window_of g src) + 1\<rparr>
       else if ack then (window_of g src)\<lparr>w_ack := w_ack (window_of g src) + 1\<rparr> else window_of g src)"
    by (simp add: window_of_observe Let_def)
  have "w_init (window_of ?g src)"
    "\<forall>(syn, ack, t) \<in> set es. t - w_start_ns (window_of ?g src) < sg_window_ns ?g"
    using Cons.prems by (auto simp: w)
  from Cons.IH [OF this] show ?case
    by (auto simp: e w syns_def acks_def split_beta Let_def)
qed

lemma sg_run_params [simp]:
  "sg_window_ns (snd (sg_run g src es)) = sg_window_ns g"
  "sg_syn_threshold (snd (sg_run g src es)) = sg_syn_threshold g"
  "sg_ack_ratio (snd (sg_run g src es)) = sg_ack_ratio g"
  by (induction es arbitrary: g) (auto simp: split_beta Let_def)

lemma sg_run_last:
  "es \<noteq> [] \<Longrightarrow> last (fst (sg_run g src es)) =
     flood_test g (w_syn (window_of (snd (sg_run g src es)) src)) (w_ack (window_of (snd (sg_run g src es)) src))"
proof (induction es arbitrary: g)
  case (Cons e es)
  obtain syn ack t where e: "e = (syn, ack, t)" by (cases e)
  let ?g = "snd (sg_observe g src syn ack t)"
  have "fst (sg_run ?g src es) = [] \<longleftrightarrow> es = []"
    by (cases es) (auto simp: split_beta Let_def)
  then show ?case
    using Cons.IH [of ?g] sg_observe_verdict [of g src syn ack t]
    by (cases "es = []") (auto simp: e split_beta Let_def flood_test_cong [of ?g g])
qed simp

lemma sg_run_append:
  "sg_run g src (es @ fs) =
     (let (vs, g1) = sg_run g src es; (ws, g2) = sg_run g1 src fs in (vs @ ws, g2))"
  by (induction es arbitrary: g) (auto simp: split_beta Let_def)

text \<open>
  The first packet of a source opens its window, whatever the packet is; the packets of the run
  are then all inside that window.
\<close>

definition one_window :: "nat \<Rightarrow> tcp_event list \<Rightarrow> bool" where
  "one_window w es = (case es of [] \<Rightarrow> False
     | (_, _, t0) # _ \<Rightarrow> (\<forall>(syn, ack, t) \<in> set es. t - t0 < w))"

lemma sg_run_fresh:
  assumes "one_window (sg_window_ns g) es" and "hm_get (sg_windows g) src = None"
  shows "w_syn (window_of (snd (sg_run g src es)) src) = syns es \<and>
    w_ack (window_of (snd (sg_run g src es)) src) = acks es"
proof -
  from assms(1) obtain syn ack t0 fs where es: "es = (syn, ack, t0) # fs"
    by (auto simp: one_window_def split: list.splits)
  let ?g = "snd (sg_observe g src syn ack t0)"
  have w: "window_of ?g src = \<lparr>w_syn = of_bool syn, w_ack = of_bool (\<not> syn \<and> ack), w_start_ns = t0, w_init = True\<rparr>"
    using assms(2) by (simp add: window_of_observe window_default_def Let_def) (simp add: window_of_def window_default_def)
  have "\<forall>(syn, ack, t) \<in> set fs. t - w_start_ns (window_of ?g src) < sg_window_ns ?g"
    using assms(1) by (auto simp: one_window_def es w)
  with sg_run_window [of ?g src fs] show ?thesis
    by (auto simp: es w syns_def acks_def split_beta Let_def)
qed

section \<open>The flagged-source counter\<close>

lemma sg_observe_flagged:
  "sg_flagged_sources (snd (sg_observe g src syn ack now)) = sg_flagged_sources g +
     of_bool (fst (sg_observe g src syn ack now) \<and>
       w_syn (window_of (snd (sg_observe g src syn ack now)) src) = sg_syn_threshold g)"
  by (simp add: window_of_observe) (simp add: sg_observe_def Let_def)

lemma syn_run_flagged:
  assumes "hm_get (sg_windows g) src = None" and "0 < sg_window_ns g" and "0 < sg_syn_threshold g"
  shows "sg_flagged_sources (snd (sg_run g src (replicate n (True, False, t)))) =
    sg_flagged_sources g + of_bool (n \<ge> sg_syn_threshold g)"
proof (induction n)
  case 0
  with assms(3) show ?case by simp
next
  case (Suc n)
  let ?g = "snd (sg_run g src (replicate n (True, False, t)))"
  let ?g' = "snd (sg_run g src (replicate (Suc n) (True, False, t)))"
  have g': "?g' = snd (sg_observe ?g src True False t)"
    using sg_run_append [of g src "replicate n (True, False, t)" "[(True, False, t)]"]
    by (simp add: replicate_append_same split_beta Let_def del: sg_run.simps) (simp add: split_beta)
  have "one_window (sg_window_ns g) (replicate (Suc n) (True, False, t))"
    using assms(2) by (simp add: one_window_def)
  from sg_run_fresh [OF this assms(1), unfolded g']
  have w: "w_syn (window_of (snd (sg_observe ?g src True False t)) src) = Suc n"
    "w_ack (window_of (snd (sg_observe ?g src True False t)) src) = 0"
    by (simp_all add: syns_def acks_def)
  have "fst (sg_observe ?g src True False t) \<longleftrightarrow> Suc n \<ge> sg_syn_threshold g"
    using sg_observe_verdict [of ?g src True False t] by (simp add: w flood_test_def sat_mul_u32_def)
  then show ?case
    unfolding g' using Suc.IH sg_observe_flagged [of ?g src True False t] w by auto
qed

section \<open>Properties\<close>



text \<open>
  C30. The counter of flagged sources counts one source twice: after exactly the threshold of
  SYNs, one ACK of the same source (with a ratio below the threshold) finds the SYN count still
  equal to the threshold and increments the counter again.
\<close>

theorem flagged_sources_counts_twice:
  assumes "0 < window_ns" and "ratio < thr" and "thr \<le> u32_max"
  shows "sg_flagged_sources (snd (sg_run (sg_new window_ns thr ratio) src
    (replicate thr (True, False, t) @ [(False, True, t)]))) = 2"
proof -
  let ?init = "sg_new window_ns thr ratio"
  let ?g = "snd (sg_run ?init src (replicate thr (True, False, t)))"
  let ?es = "replicate thr (True, False, t) @ [(False, True, t)]"
  have none: "hm_get (sg_windows ?init) src = None" by (simp add: sg_new_def)
  have par: "sg_syn_threshold ?init = thr" "sg_window_ns ?init = window_ns" "sg_ack_ratio ?init = ratio"
    by (simp_all add: sg_new_def)
  have one: "sg_flagged_sources ?g = 1"
    using syn_run_flagged [OF none, of thr t] assms par by (simp add: sg_new_def)
  have run: "snd (sg_run ?init src ?es) = snd (sg_observe ?g src False True t)"
    by (simp add: sg_run_append split_beta Let_def)
  have "one_window (sg_window_ns ?init) ?es"
    using assms par by (cases thr) (auto simp: one_window_def)
  from sg_run_fresh [OF this none]
  have w: "w_syn (window_of (snd (sg_observe ?g src False True t)) src) = thr"
    "w_ack (window_of (snd (sg_observe ?g src False True t)) src) = 1"
    unfolding run by (simp_all add: syns_def acks_def)
  have "fst (sg_observe ?g src False True t)"
    using sg_observe_verdict [of ?g src False True t] assms par w
    by (simp add: flood_test_def sat_mul_u32_def)
  then show ?thesis
    unfolding run using sg_observe_flagged [of ?g src False True t] one w par by simp
qed

theorem flagged_sources_counts_twice_witness:
  "sg_flagged_sources (snd (sg_run (sg_new 10 3 2) 9 (replicate 3 (True, False, 5) @ [(False, True, 5)]))) = 2"
  by (rule flagged_sources_counts_twice) simp_all

end
