(* ===== verification/Maglev.thy ===== *)
theory Maglev
  imports Xdp_Packet
begin

unbundle bit_operations_syntax

text \<open>
  Maglev consistent hashing (\<^verbatim>\<open>crates/xdp-edge/src/maglev.rs\<close>): the primality test of
  the table size, the hash mixing on 64-bit words, the round-robin filling of the look-up table,
  and the table as the data plane uses it.
\<close>

section \<open>Primality of the table size\<close>

function prime_loop :: "nat \<Rightarrow> nat \<Rightarrow> bool" where
  "prime_loop n i = (if i * i \<le> n then (if n mod i = 0 then False else prime_loop n (i + 1)) else True)"
  by pat_completeness auto
termination
proof (relation "measure (\<lambda>(n, i). n + 1 - i)")
  fix n i :: nat assume "i * i \<le> n"
  then have "i \<le> n" using le_square [of i] by linarith
  then show "((n, i + 1), (n, i)) \<in> measure (\<lambda>(n, i). n + 1 - i)" by simp
qed simp

declare prime_loop.simps [simp del]

definition is_prime :: "nat \<Rightarrow> bool" where
  "is_prime n = (if n < 2 then False else prime_loop n 2)"

section \<open>Hashes\<close>

definition mix64 :: "u64 \<Rightarrow> u64" where
  "mix64 x0 =
     (let x1 = x0 XOR drop_bit 30 x0;
          x2 = x1 * 0xbf58476d1ce4e5b9;
          x3 = x2 XOR drop_bit 27 x2;
          x4 = x3 * 0x94d049bb133111eb
      in x4 XOR drop_bit 31 x4)"

definition hash_offset :: "u32 \<Rightarrow> u64 \<Rightarrow> u64" where
  "hash_offset backend m = mix64 (ucast backend XOR 0x9e3779b97f4a7c15) mod m"

definition hash_skip :: "u32 \<Rightarrow> u64 \<Rightarrow> u64" where
  "hash_skip backend m = mix64 (ucast backend XOR 0xc2b2ae3d27d4eb4f) mod (m - 1) + 1"

definition flow_hash :: "five_tuple \<Rightarrow> u64" where
  "flow_hash t =
     (let x0 = push_bit 32 (ucast (src_ip t)) OR ucast (dst_ip t);
          x1 = x0 * 0x100000001b3;
          x2 = x1 XOR (push_bit 16 (ucast (src_port t)) OR ucast (dst_port t));
          x3 = x2 XOR push_bit 48 (ucast (protocol t))
      in mix64 x3)"

section \<open>Filling the table\<close>

definition EMPTY :: u32 where
  "EMPTY = 0xffffffff"

text \<open>
  The inner \<open>loop\<close>: walk backend \<open>i\<close>'s permutation from its cursor to the next empty slot.
  The arithmetic wraps, as in the source; \<^term>\<open>None\<close> is an index panic or a loop that
  never ends.
\<close>

definition probe_slot :: "u64 \<Rightarrow> u64 \<Rightarrow> u64 \<Rightarrow> u64 \<Rightarrow> nat" where
  "probe_slot offset skip m nxt = unat ((offset + nxt * skip) mod m)"

partial_function (option) probe :: "u64 \<Rightarrow> u64 \<Rightarrow> u64 \<Rightarrow> u32 list \<Rightarrow> u64 \<Rightarrow> (nat \<times> u64) option" where
  "probe offset skip m table nxt =
     do { v \<leftarrow> vec_get table (probe_slot offset skip m nxt);
          if v = EMPTY then Some (probe_slot offset skip m nxt, nxt + 1)
          else probe offset skip m table (nxt + 1) }"

record fill_state =
  fs_table :: "u32 list"
  fs_next :: "u64 list"
  fs_filled :: nat

text \<open>One pass of the \<open>for i in 0..n\<close> loop, from index \<open>i\<close> on, with its early exit.\<close>

fun fill_round :: "nat \<Rightarrow> u64 list \<Rightarrow> u64 list \<Rightarrow> nat list \<Rightarrow> fill_state \<Rightarrow> fill_state option" where
  "fill_round m offsets skips [] st = Some st"
| "fill_round m offsets skips (i # is) st =
     do { offset \<leftarrow> vec_get offsets i;
          skip \<leftarrow> vec_get skips i;
          nxt \<leftarrow> vec_get (fs_next st) i;
          (c, nxt') \<leftarrow> probe offset skip (of_nat m) (fs_table st) nxt;
          let st' = \<lparr>fs_table = (fs_table st)[c := of_nat i], fs_next = (fs_next st)[i := nxt'],
                     fs_filled = fs_filled st + 1\<rparr> in
          if fs_filled st' = m then Some st' else fill_round m offsets skips is st' }"

partial_function (option) fill_loop :: "nat \<Rightarrow> u64 list \<Rightarrow> u64 list \<Rightarrow> nat \<Rightarrow> fill_state \<Rightarrow> fill_state option" where
  "fill_loop m offsets skips n st =
     (if fs_filled st < m
      then do { st' \<leftarrow> fill_round m offsets skips [0..<n] st; fill_loop m offsets skips n st' }
      else Some st)"

declare probe.simps [code] fill_loop.simps [code]

definition build_lut :: "nat \<Rightarrow> u32 list \<Rightarrow> u32 list option" where
  "build_lut m backends =
     do { rust_assert (is_prime m);
          rust_assert (backends \<noteq> []);
          let n = length backends;
              offsets = map (\<lambda>b. hash_offset b (of_nat m)) backends;
              skips = map (\<lambda>b. hash_skip b (of_nat m)) backends in
          do { st \<leftarrow> fill_loop m offsets skips n
                 \<lparr>fs_table = replicate m EMPTY, fs_next = replicate n 0, fs_filled = 0\<rparr>;
               Some (fs_table st) } }"

section \<open>The table of the data plane\<close>

record maglev =
  mg_m :: nat
  mg_table :: "u32 list"
  mg_backends :: "u32 list"

definition mg_new :: "nat \<Rightarrow> maglev option" where
  "mg_new m = do { rust_assert (is_prime m);
                   Some \<lparr>mg_m = m, mg_table = replicate m EMPTY, mg_backends = []\<rparr> }"

definition mg_rebuild :: "maglev \<Rightarrow> u32 list \<Rightarrow> maglev option" where
  "mg_rebuild mg backends =
     do { t \<leftarrow> build_lut (mg_m mg) backends; Some (mg\<lparr>mg_table := t, mg_backends := backends\<rparr>) }"

definition mg_load_table :: "maglev \<Rightarrow> u32 list \<Rightarrow> u32 list \<Rightarrow> maglev option" where
  "mg_load_table mg backends table =
     do { rust_assert (length table = mg_m mg);
          rust_assert (list_all (\<lambda>v. unat v < length backends) table);
          Some (mg\<lparr>mg_backends := backends, mg_table := table\<rparr>) }"

definition mg_lookup :: "maglev \<Rightarrow> u64 \<Rightarrow> u32 option" where
  "mg_lookup mg flow_key =
     do { rust_assert (of_nat (mg_m mg) \<noteq> (0 :: u64));
          v \<leftarrow> vec_get (mg_table mg) (unat (flow_key mod of_nat (mg_m mg)));
          vec_get (mg_backends mg) (unat v) }"

fun bump_all :: "nat list \<Rightarrow> u32 list \<Rightarrow> nat list option" where
  "bump_all counts [] = Some counts"
| "bump_all counts (v # vs) =
     do { c \<leftarrow> vec_get counts (unat v); bump_all (counts[unat v := c + 1]) vs }"

definition mg_slot_counts :: "maglev \<Rightarrow> nat list option" where
  "mg_slot_counts mg = bump_all (replicate (length (mg_backends mg)) 0) (mg_table mg)"

section \<open>The primality test is correct\<close>

definition prime_size :: "nat \<Rightarrow> bool" where
  "prime_size n \<longleftrightarrow> 2 \<le> n \<and> (\<forall>d. d dvd n \<longrightarrow> d = 1 \<or> d = n)"

lemma prime_loop_iff: "prime_loop n i \<longleftrightarrow> (\<forall>d. i \<le> d \<and> d * d \<le> n \<longrightarrow> \<not> d dvd n)"
proof (induction n i rule: prime_loop.induct)
  case (1 n i)
  show ?case
  proof (cases "i * i \<le> n")
    case False
    then have "d * d > n" if "i \<le> d" for d
      using mult_le_mono [OF that that] by linarith
    then have "\<forall>d. \<not> (i \<le> d \<and> d * d \<le> n)" by (meson not_le)
    then have "\<forall>d. i \<le> d \<and> d * d \<le> n \<longrightarrow> \<not> d dvd n" by blast
    then show ?thesis using False by (simp only: prime_loop.simps [of n i] if_False simp_thms)
  next
    case True
    show ?thesis
    proof (cases "i dvd n")
      case True
      with \<open>i * i \<le> n\<close> show ?thesis
        by (auto simp: prime_loop.simps [of n i] mod_eq_0_iff_dvd)
    next
      case False
      then have "prime_loop n i = prime_loop n (i + 1)"
        using \<open>i * i \<le> n\<close> by (simp add: prime_loop.simps [of n i] mod_eq_0_iff_dvd)
      also have "\<dots> \<longleftrightarrow> (\<forall>d. i + 1 \<le> d \<and> d * d \<le> n \<longrightarrow> \<not> d dvd n)"
        using "1.IH" [OF \<open>i * i \<le> n\<close>] False by (simp add: mod_eq_0_iff_dvd)
      also have "\<dots> \<longleftrightarrow> (\<forall>d. i \<le> d \<and> d * d \<le> n \<longrightarrow> \<not> d dvd n)"
        using False by (metis Suc_eq_plus1 Suc_leI le_neq_implies_less Suc_leD)
      finally show ?thesis .
    qed
  qed
qed

lemma is_prime_iff: "is_prime n \<longleftrightarrow> prime_size n"
proof (cases "n < 2")
  case True
  then show ?thesis by (simp add: is_prime_def prime_size_def)
next
  case False
  have "(\<forall>d. 2 \<le> d \<and> d * d \<le> n \<longrightarrow> \<not> d dvd n) \<longleftrightarrow> (\<forall>d. d dvd n \<longrightarrow> d = 1 \<or> d = n)" (is "?L \<longleftrightarrow> ?R")
  proof
    assume L: ?L
    show ?R
    proof (intro allI impI)
      fix d assume "d dvd n"
      then obtain e where e: "n = d * e" by (auto simp: dvd_def)
      have *: "\<not> (2 \<le> a \<and> a \<le> b)" if "n = a * b" for a b
        using L that mult_le_mono2 [of a b a] by auto
      from e False have pos: "0 < d" "0 < e" by (cases d; cases e; simp)+
      have "d \<le> e \<or> e \<le> d" by linarith
      then have "d = 1 \<or> e = 1"
        using * [OF e] * [of e d] e pos by (auto simp: mult.commute)
      then show "d = 1 \<or> d = n" using e by auto
    qed
  next
    assume R: ?R
    show ?L
    proof (intro allI impI notI)
      fix d assume d: "2 \<le> d \<and> d * d \<le> n" "d dvd n"
      with R have "d = n" by auto
      with d have "n * n \<le> n * 1" "2 \<le> n" by auto
      then show False using False by (simp only: mult_le_cancel1) auto
    qed
  qed
  with False show ?thesis
    by (simp add: is_prime_def prime_size_def prime_loop_iff)
qed

section \<open>A backend's probe sequence visits every slot\<close>

definition slot_of :: "nat \<Rightarrow> nat \<Rightarrow> nat \<Rightarrow> nat \<Rightarrow> nat" where
  "slot_of off s m j = (off + j * s) mod m"

lemma prime_size_coprime:
  assumes "prime_size m" and "1 \<le> s" and "s < m"
  shows "coprime m s"
proof -
  have "gcd m s dvd m" by simp
  with assms(1) have "gcd m s = 1 \<or> gcd m s = m" by (auto simp: prime_size_def)
  moreover have "gcd m s \<le> s" using assms(2) by (simp add: gcd_le2_nat)
  ultimately show ?thesis using assms(3) by (auto simp: coprime_iff_gcd_eq_1)
qed

lemma slot_of_inj:
  assumes "coprime m s"
  shows "inj_on (slot_of off s m) {..<m}"
proof (rule linorder_inj_onI)
  fix j k assume jk: "j < k" "j \<in> {..<m}" "k \<in> {..<m}"
  show "slot_of off s m j \<noteq> slot_of off s m k"
  proof
    assume "slot_of off s m j = slot_of off s m k"
    then have "(off + k * s) mod m = (off + j * s) mod m" by (simp add: slot_of_def)
    then have "m dvd (off + k * s) - (off + j * s)"
      using jk by (intro mod_eq_dvd_iff_nat [THEN iffD1]) auto
    then have "m dvd (k - j) * s" by (simp add: diff_mult_distrib)
    with assms have "m dvd k - j" by (simp add: coprime_dvd_mult_left_iff)
    with jk show False by (auto dest: dvd_imp_le)
  qed
qed auto

lemma slot_of_surj:
  assumes "coprime m s" and "c < m"
  shows "\<exists>j < m. slot_of off s m j = c"
proof -
  have "slot_of off s m ` {..<m} = {..<m}"
  proof (rule card_subset_eq)
    show "slot_of off s m ` {..<m} \<subseteq> {..<m}" using assms(2) by (auto simp: slot_of_def)
    show "card (slot_of off s m ` {..<m}) = card {..<m}"
      by (rule card_image [OF slot_of_inj [OF assms(1)]])
  qed simp
  with assms(2) have "c \<in> slot_of off s m ` {..<m}" by simp
  then show ?thesis by auto
qed

section \<open>The word arithmetic does not wrap\<close>

lemma hash_offset_less:
  assumes "0 < m" and "m \<le> u64_max"
  shows "unat (hash_offset b (of_nat m)) < m"
  using assms by (simp add: hash_offset_def unat_mod unat_of_nat_u64)

lemma hash_skip_range:
  assumes "2 \<le> m" and "m \<le> u64_max"
  shows "1 \<le> unat (hash_skip b (of_nat m)) \<and> unat (hash_skip b (of_nat m)) < m"
proof -
  define x where "x = mix64 (ucast b XOR 0xc2b2ae3d27d4eb4f) mod (of_nat m - 1)"
  have "(of_nat m - 1 :: u64) = of_nat (m - 1)" using assms by (simp add: of_nat_diff)
  then have "unat (of_nat m - 1 :: u64) = m - 1"
    using assms by (simp only: unat_of_nat_u64)
  then have x: "unat x < m - 1" using assms by (simp add: x_def unat_mod)
  then have "unat (x + 1) = unat x + 1"
    using assms by (simp add: unat_word_ariths)
  with x show ?thesis by (simp add: hash_skip_def x_def)
qed

lemma probe_slot_eq:
  assumes "m \<le> u32_max" and "unat off < m" and "unat s < m" and "j \<le> m"
  shows "probe_slot off s (of_nat m) (of_nat j) = slot_of (unat off) (unat s) m j"
proof -
  have "j * unat s \<le> u32_max * u32_max"
    using assms by (intro mult_le_mono) auto
  moreover have "unat (of_nat j :: u64) = j" using assms by (intro unat_of_nat_u64) auto
  ultimately have "unat (off + of_nat j * s) = unat off + j * unat s"
    using assms by (simp add: unat_word_ariths)
  moreover have "unat (of_nat m :: u64) = m" using assms by (intro unat_of_nat_u64) auto
  ultimately show ?thesis by (simp add: probe_slot_def slot_of_def unat_mod)
qed

section \<open>Probing ends on an empty slot\<close>

text \<open>\<open>skipped\<close>: every slot the cursor has passed is taken.\<close>

definition skipped :: "nat \<Rightarrow> u64 \<Rightarrow> u64 \<Rightarrow> u32 list \<Rightarrow> nat \<Rightarrow> bool" where
  "skipped m off s table j \<longleftrightarrow> (\<forall>k < j. table ! slot_of (unat off) (unat s) m k \<noteq> EMPTY)"

definition probe_ok :: "nat \<Rightarrow> u64 \<Rightarrow> u64 \<Rightarrow> bool" where
  "probe_ok m off s \<longleftrightarrow> prime_size m \<and> m \<le> u32_max \<and> unat off < m \<and> 1 \<le> unat s \<and> unat s < m"

lemma probe_ok_hash:
  "prime_size m \<Longrightarrow> m \<le> u32_max \<Longrightarrow> probe_ok m (hash_offset b (of_nat m)) (hash_skip b (of_nat m))"
  using hash_offset_less [of m b] hash_skip_range [of m b] by (auto simp: probe_ok_def prime_size_def)

lemma probe_returns:
  assumes ok: "probe_ok m off s" and "length table = m"
    and "skipped m off s table j" and "c < m" and "table ! c = EMPTY"
  shows "\<exists>j'. j \<le> j' \<and> j' < m \<and>
           probe off s (of_nat m) table (of_nat j) = Some (slot_of (unat off) (unat s) m j', of_nat (Suc j')) \<and>
           table ! slot_of (unat off) (unat s) m j' = EMPTY \<and> skipped m off s table j'"
proof -
  let ?at = "slot_of (unat off) (unat s) m"
  have "coprime m (unat s)" using ok by (auto simp: probe_ok_def intro: prime_size_coprime)
  then obtain J where J: "J < m" "?at J = c" using slot_of_surj assms(4) by blast
  have "j \<le> J" using assms(3,5) J by (auto simp: skipped_def not_less [symmetric])
  then show ?thesis using assms(3)
  proof (induction "J - j" arbitrary: j)
    case 0
    then have j: "j = J" by simp
    have "probe_slot off s (of_nat m) (of_nat J) = c"
      using ok J by (subst probe_slot_eq) (auto simp: probe_ok_def)
    then have "probe off s (of_nat m) table (of_nat J) = Some (c, of_nat (Suc J))"
      using assms by (simp add: probe.simps vec_get_def add.commute)
    with j J assms(5) "0.prems"(2) show ?case by (intro exI [of _ J]) simp
  next
    case (Suc d)
    have at: "probe_slot off s (of_nat m) (of_nat j) = ?at j"
      using ok J Suc.prems by (subst probe_slot_eq) (auto simp: probe_ok_def)
    have lt: "?at j < length table" using assms(2,4) by (simp add: slot_of_def)
    show ?case
    proof (cases "table ! ?at j = EMPTY")
      case True
      then have "probe off s (of_nat m) table (of_nat j) = Some (?at j, of_nat (Suc j))"
        using lt at by (simp add: probe.simps vec_get_def add.commute)
      with True Suc J show ?thesis by (intro exI [of _ j]) simp
    next
      case False
      then have eq: "probe off s (of_nat m) table (of_nat j) = probe off s (of_nat m) table (of_nat (Suc j))"
        using lt at by (subst probe.simps) (simp add: vec_get_def add.commute)
      have "skipped m off s table (Suc j)"
        using False Suc.prems(2) by (auto simp: skipped_def less_Suc_eq)
      moreover have "d = J - Suc j" "Suc j \<le> J" using Suc.hyps(2) by arith+
      ultimately obtain j' where
        "Suc j \<le> j' \<and> j' < m \<and>
           probe off s (of_nat m) table (of_nat (Suc j)) = Some (?at j', of_nat (Suc j')) \<and>
           table ! ?at j' = EMPTY \<and> skipped m off s table j'"
        using Suc.hyps(1) [of "Suc j"] by blast
      then show ?thesis unfolding eq by (intro exI [of _ j']) auto
    qed
  qed
qed

section \<open>Filling is total, fair and complete\<close>

text \<open>How many slots backend \<open>i\<close> of \<open>n\<close> owns once \<open>f\<close> slots are filled in turn.\<close>

definition turns :: "nat \<Rightarrow> nat \<Rightarrow> nat \<Rightarrow> nat" where
  "turns n f i = f div n + (if i < f mod n then 1 else 0)"

lemma turns_Suc:
  assumes "0 < n" and "i < n"
  shows "turns n (Suc f) i = turns n f i + (if f mod n = i then 1 else 0)"
proof (cases "Suc (f mod n) = n")
  case True
  with assms show ?thesis by (auto simp: turns_def mod_Suc div_Suc)
next
  case False
  with assms show ?thesis by (auto simp: turns_def mod_Suc div_Suc)
qed

record fill_job =
  job_m :: nat
  job_n :: nat
  job_off :: "u64 list"
  job_skip :: "u64 list"

definition job_ok :: "fill_job \<Rightarrow> bool" where
  "job_ok J \<longleftrightarrow> prime_size (job_m J) \<and> job_m J \<le> u32_max \<and> 0 < job_n J \<and> job_n J \<le> u32_max \<and>
     length (job_off J) = job_n J \<and> length (job_skip J) = job_n J \<and>
     (\<forall>i < job_n J. probe_ok (job_m J) (job_off J ! i) (job_skip J ! i))"

definition cursor_ok :: "fill_job \<Rightarrow> fill_state \<Rightarrow> nat \<Rightarrow> bool" where
  "cursor_ok J st i \<longleftrightarrow> (\<exists>j \<le> job_m J. fs_next st ! i = of_nat j \<and>
     skipped (job_m J) (job_off J ! i) (job_skip J ! i) (fs_table st) j)"

definition fill_inv :: "fill_job \<Rightarrow> fill_state \<Rightarrow> bool" where
  "fill_inv J st \<longleftrightarrow>
     length (fs_table st) = job_m J \<and> length (fs_next st) = job_n J \<and>
     count (mset (fs_table st)) EMPTY + fs_filled st = job_m J \<and>
     (\<forall>i < job_n J. cursor_ok J st i) \<and>
     (\<forall>i < job_n J. count (mset (fs_table st)) (of_nat i) = turns (job_n J) (fs_filled st) i) \<and>
     (\<forall>v \<in> set (fs_table st). v = EMPTY \<or> unat v < job_n J)"

lemma of_nat_not_EMPTY: "i < n \<Longrightarrow> n \<le> u32_max \<Longrightarrow> (of_nat i :: u32) \<noteq> EMPTY"
  using unat_of_nat_u32 [of i] by (auto simp: EMPTY_def)

lemma of_nat_u32_inj:
  assumes "i < n" "k < n" "n \<le> u32_max"
  shows "(of_nat i :: u32) = of_nat k \<longleftrightarrow> i = k"
proof
  assume "(of_nat i :: u32) = of_nat k"
  then have "unat (of_nat i :: u32) = unat (of_nat k :: u32)" by simp
  moreover have "unat (of_nat i :: u32) = i" "unat (of_nat k :: u32) = k"
    using assms by (intro unat_of_nat_u32; linarith)+
  ultimately show "i = k" by (simp only:)
qed simp

text \<open>Taking an empty slot moves one occurrence from \<^const>\<open>EMPTY\<close> to the backend.\<close>

lemma count_take_slot:
  assumes "c < length t" and "t ! c = EMPTY" and "v \<noteq> EMPTY"
  shows "count (mset (t[c := v])) w =
    (if w = v then Suc (count (mset t) w) else if w = EMPTY then count (mset t) w - 1 else count (mset t) w)"
  using assms by (auto simp: mset_update)

lemma skipped_mono:
  assumes "v \<noteq> EMPTY" and "skipped m off s t j"
  shows "skipped m off s (t[c := v]) j"
  using assms by (cases "c < length t") (auto simp: skipped_def nth_list_update list_update_beyond)

lemma count_EMPTY_pos:
  assumes "0 < count (mset t) EMPTY"
  obtains c where "c < length t" and "t ! c = EMPTY"
  using assms by (auto simp: in_set_conv_nth)

definition fill_take :: "fill_state \<Rightarrow> nat \<Rightarrow> nat \<Rightarrow> u64 \<Rightarrow> fill_state" where
  "fill_take st i c nxt =
     \<lparr>fs_table = (fs_table st)[c := of_nat i], fs_next = (fs_next st)[i := nxt], fs_filled = fs_filled st + 1\<rparr>"

lemma fill_take_sel [simp]:
  "fs_table (fill_take st i c nxt) = (fs_table st)[c := of_nat i]"
  "fs_next (fill_take st i c nxt) = (fs_next st)[i := nxt]"
  "fs_filled (fill_take st i c nxt) = Suc (fs_filled st)"
  by (simp_all add: fill_take_def)

lemma fill_take_inv:
  assumes J: "job_ok J" and inv: "fill_inv J st" and i: "i = fs_filled st mod job_n J"
    and c: "c < job_m J" "fs_table st ! c = EMPTY"
    and j: "j < job_m J" "slot_of (unat (job_off J ! i)) (unat (job_skip J ! i)) (job_m J) j = c"
      "skipped (job_m J) (job_off J ! i) (job_skip J ! i) (fs_table st) j"
  shows "fill_inv J (fill_take st i c (of_nat (Suc j)))"
proof -
  let ?t = "fs_table st" let ?st = "fill_take st i c (of_nat (Suc j))"
  have n: "0 < job_n J" "job_n J \<le> u32_max" and len: "c < length ?t" "length ?t = job_m J"
    and lenn: "length (fs_next st) = job_n J"
    using J inv c by (auto simp: job_ok_def fill_inv_def)
  then have i_n: "i < job_n J" using i by simp
  then have ne: "(of_nat i :: u32) \<noteq> EMPTY" using n of_nat_not_EMPTY by blast
  note cnt = count_take_slot [OF len(1) c(2) ne]
  have pos: "0 < count (mset ?t) EMPTY" using c len by (auto simp: in_set_conv_nth)
  have 1: "count (mset (fs_table ?st)) EMPTY + fs_filled ?st = job_m J"
  proof -
    have "count (mset (fs_table ?st)) EMPTY = count (mset ?t) EMPTY - 1" using ne by (simp add: cnt)
    moreover have "count (mset ?t) EMPTY + fs_filled st = job_m J" using inv by (simp add: fill_inv_def)
    ultimately show ?thesis using pos unfolding fill_take_sel by linarith
  qed
  have 2: "cursor_ok J ?st k" if "k < job_n J" for k
  proof (cases "k = i")
    case True
    have "skipped (job_m J) (job_off J ! i) (job_skip J ! i) (?t[c := of_nat i]) (Suc j)"
      using skipped_mono [OF ne j(3)] j(2) len ne by (auto simp: skipped_def less_Suc_eq)
    with True i_n lenn j(1) show ?thesis by (auto simp: cursor_ok_def intro!: exI [of _ "Suc j"])
  next
    case False
    from inv that obtain j' where "j' \<le> job_m J" "fs_next st ! k = of_nat j'"
      "skipped (job_m J) (job_off J ! k) (job_skip J ! k) ?t j'"
      by (auto simp: fill_inv_def cursor_ok_def)
    with False show ?thesis
      using skipped_mono [OF ne] by (auto simp: cursor_ok_def)
  qed
  have 3: "count (mset (fs_table ?st)) (of_nat k) = turns (job_n J) (fs_filled ?st) k" if "k < job_n J" for k
  proof -
    have "turns (job_n J) (Suc (fs_filled st)) k = turns (job_n J) (fs_filled st) k + (if i = k then 1 else 0)"
      using turns_Suc [OF n(1) that] i by simp
    moreover have "count (mset ?t) (of_nat k) = turns (job_n J) (fs_filled st) k"
      using inv that by (simp add: fill_inv_def)
    ultimately show ?thesis
      using of_nat_not_EMPTY [OF that n(2)] of_nat_u32_inj [OF that i_n n(2)]
      by (cases "k = i") (simp_all add: cnt)
  qed
  have 4: "v = EMPTY \<or> unat v < job_n J" if "v \<in> set (fs_table ?st)" for v
  proof -
    have "v = of_nat i \<or> v \<in> set ?t" using that set_update_subset_insert [of ?t c "of_nat i"] by (simp only: fill_take_sel) blast
    moreover have "unat (of_nat i :: u32) = i" using i_n n by (intro unat_of_nat_u32) linarith
    moreover have "\<forall>v \<in> set ?t. v = EMPTY \<or> unat v < job_n J" using inv by (simp add: fill_inv_def)
    ultimately show ?thesis using i_n by (elim disjE) simp_all
  qed
  have "length (fs_table ?st) = job_m J" "length (fs_next ?st) = job_n J" using len lenn by simp_all
  with 1 2 3 4 show ?thesis unfolding fill_inv_def by (intro conjI allI impI ballI)
qed

text \<open>One turn of the loop: backend \<open>i = filled mod n\<close> finds its slot.\<close>

lemma fill_turn:
  assumes J: "job_ok J" and inv: "fill_inv J st" and less: "fs_filled st < job_m J"
    and i: "i = fs_filled st mod job_n J"
  shows "\<exists>c nxt. probe (job_off J ! i) (job_skip J ! i) (of_nat (job_m J)) (fs_table st) (fs_next st ! i)
            = Some (c, nxt) \<and> fill_inv J (fill_take st i c nxt)"
proof -
  have i_n: "i < job_n J" using J i by (simp add: job_ok_def)
  then have ok: "probe_ok (job_m J) (job_off J ! i) (job_skip J ! i)" using J by (simp add: job_ok_def)
  from inv i_n obtain j where j: "fs_next st ! i = of_nat j"
    "skipped (job_m J) (job_off J ! i) (job_skip J ! i) (fs_table st) j"
    by (auto simp: fill_inv_def cursor_ok_def)
  have len: "length (fs_table st) = job_m J" using inv by (simp add: fill_inv_def)
  have "count (mset (fs_table st)) EMPTY + fs_filled st = job_m J" using inv by (simp add: fill_inv_def)
  then have "0 < count (mset (fs_table st)) EMPTY" using less by linarith
  then obtain c where "c < job_m J" "fs_table st ! c = EMPTY"
    using len by (metis count_EMPTY_pos)
  from probe_returns [OF ok len j(2) this] obtain j' where j': "j' < job_m J"
    "probe (job_off J ! i) (job_skip J ! i) (of_nat (job_m J)) (fs_table st) (of_nat j) =
       Some (slot_of (unat (job_off J ! i)) (unat (job_skip J ! i)) (job_m J) j', of_nat (Suc j'))"
    "fs_table st ! slot_of (unat (job_off J ! i)) (unat (job_skip J ! i)) (job_m J) j' = EMPTY"
    "skipped (job_m J) (job_off J ! i) (job_skip J ! i) (fs_table st) j'" by blast
  have "slot_of (unat (job_off J ! i)) (unat (job_skip J ! i)) (job_m J) j' < job_m J"
    using less by (simp add: slot_of_def)
  from fill_take_inv [OF J inv i this j'(3) j'(1) refl j'(4)] j'(2) show ?thesis
    unfolding j(1) by blast
qed

lemma fill_round_Cons:
  assumes J: "job_ok J" and inv: "fill_inv J st" and less: "fs_filled st < job_m J"
    and i: "i = fs_filled st mod job_n J"
  shows "\<exists>st'. fill_inv J st' \<and> fs_filled st' = Suc (fs_filled st) \<and>
    fill_round (job_m J) (job_off J) (job_skip J) (i # is) st =
      (if fs_filled st' = job_m J then Some st' else fill_round (job_m J) (job_off J) (job_skip J) is st')"
proof -
  have "i < job_n J" using J i by (simp add: job_ok_def)
  then have "i < length (job_off J)" "i < length (job_skip J)" "i < length (fs_next st)"
    using J inv by (simp_all add: job_ok_def fill_inv_def)
  moreover from fill_turn [OF assms] obtain c nxt where
    "probe (job_off J ! i) (job_skip J ! i) (of_nat (job_m J)) (fs_table st) (fs_next st ! i) = Some (c, nxt)"
    "fill_inv J (fill_take st i c nxt)" by blast
  ultimately show ?thesis
    by (intro exI [of _ "fill_take st i c nxt"]) (simp add: fill_take_def Let_def)
qed

lemma fill_round_total:
  assumes J: "job_ok J"
  shows "\<lbrakk>fill_inv J st; fs_filled st < job_m J; k < job_n J; fs_filled st mod job_n J = k\<rbrakk> \<Longrightarrow>
    \<exists>st'. fill_round (job_m J) (job_off J) (job_skip J) [k..<job_n J] st = Some st' \<and> fill_inv J st' \<and>
      fs_filled st < fs_filled st' \<and> (fs_filled st' < job_m J \<longrightarrow> fs_filled st' mod job_n J = 0)"
proof (induction "job_n J - k" arbitrary: k st)
  case 0
  then show ?case by simp
next
  case (Suc d)
  have upt: "[k..<job_n J] = k # [Suc k..<job_n J]" using Suc.prems by (simp add: upt_conv_Cons)
  from fill_round_Cons [OF J Suc.prems(1,2) Suc.prems(4) [symmetric], of "[Suc k..<job_n J]"]
  obtain s1 where s1: "fill_inv J s1" "fs_filled s1 = Suc (fs_filled st)"
    "fill_round (job_m J) (job_off J) (job_skip J) [k..<job_n J] st =
      (if fs_filled s1 = job_m J then Some s1
       else fill_round (job_m J) (job_off J) (job_skip J) [Suc k..<job_n J] s1)"
    unfolding upt by blast
  show ?case
  proof (cases "fs_filled s1 = job_m J")
    case True
    with s1 show ?thesis by (intro exI [of _ s1]) simp
  next
    case False
    then have less: "fs_filled s1 < job_m J" using s1(2) Suc.prems(2) by simp
    have md: "fs_filled s1 mod job_n J = (if Suc k = job_n J then 0 else Suc k)"
      using s1(2) Suc.prems(4) by (simp add: mod_Suc)
    show ?thesis
    proof (cases "Suc k = job_n J")
      case True
      then have "fill_round (job_m J) (job_off J) (job_skip J) [k..<job_n J] st = Some s1"
        using False s1(3) by simp
      with True s1(1,2) md show ?thesis by (intro exI [of _ s1]) simp
    next
      case neq: False
      have "d = job_n J - Suc k" "Suc k < job_n J" "fs_filled s1 mod job_n J = Suc k"
        using neq md Suc.hyps(2) Suc.prems(3) by simp_all
      note IH = Suc.hyps(1) [OF this(1) s1(1) less this(2,3)]
      have "fill_round (job_m J) (job_off J) (job_skip J) [k..<job_n J] st =
        fill_round (job_m J) (job_off J) (job_skip J) [Suc k..<job_n J] s1" using s1(3) False by simp
      moreover have "fs_filled st < fs_filled s1" using s1(2) by simp
      ultimately show ?thesis using IH by (metis less_trans)
    qed
  qed
qed

lemma fill_loop_total:
  assumes J: "job_ok J"
  shows "\<lbrakk>fill_inv J st; fs_filled st \<le> job_m J; fs_filled st < job_m J \<longrightarrow> fs_filled st mod job_n J = 0\<rbrakk> \<Longrightarrow>
    \<exists>st'. fill_loop (job_m J) (job_off J) (job_skip J) (job_n J) st = Some st' \<and> fill_inv J st' \<and>
      fs_filled st' = job_m J"
proof (induction "job_m J - fs_filled st" arbitrary: st rule: less_induct)
  case less
  show ?case
  proof (cases "fs_filled st < job_m J")
    case False
    then have "fill_loop (job_m J) (job_off J) (job_skip J) (job_n J) st = Some st"
      by (simp add: fill_loop.simps)
    with False less.prems show ?thesis by (intro exI [of _ st]) simp
  next
    case True
    have n: "0 < job_n J" using J by (simp add: job_ok_def)
    from fill_round_total [OF J less.prems(1) True n] True less.prems(3)
    obtain s1 where s1: "fill_round (job_m J) (job_off J) (job_skip J) [0..<job_n J] st = Some s1"
      "fill_inv J s1" "fs_filled st < fs_filled s1" "fs_filled s1 < job_m J \<longrightarrow> fs_filled s1 mod job_n J = 0"
      by auto
    have le: "fs_filled s1 \<le> job_m J" using s1(2) by (simp add: fill_inv_def)
    have "job_m J - fs_filled s1 < job_m J - fs_filled st" using s1(3) True by linarith
    from less.hyps [OF this s1(2) le s1(4)] obtain st' where
      "fill_loop (job_m J) (job_off J) (job_skip J) (job_n J) s1 = Some st'" "fill_inv J st'"
      "fs_filled st' = job_m J" by auto
    moreover have "fill_loop (job_m J) (job_off J) (job_skip J) (job_n J) st =
      fill_loop (job_m J) (job_off J) (job_skip J) (job_n J) s1"
      using True s1(1) by (subst fill_loop.simps) simp
    ultimately show ?thesis by auto
  qed
qed

section \<open>The table that \<open>build_lut\<close> returns\<close>

definition lut_ok :: "nat \<Rightarrow> u32 list \<Rightarrow> u32 list \<Rightarrow> bool" where
  "lut_ok m backends t \<longleftrightarrow> length t = m \<and> (\<forall>v \<in> set t. unat v < length backends)"

lemma fill_inv_init:
  assumes "job_ok J"
  shows "fill_inv J \<lparr>fs_table = replicate (job_m J) EMPTY, fs_next = replicate (job_n J) 0, fs_filled = 0\<rparr>"
proof -
  have "count (mset (replicate (job_m J) EMPTY)) (of_nat i) = 0" if "i < job_n J" for i
    using of_nat_not_EMPTY [OF that] assms by (simp add: job_ok_def)
  then show ?thesis
    by (auto simp: fill_inv_def cursor_ok_def skipped_def turns_def simp del: mset_replicate
        intro!: exI [of _ 0]) simp
qed

lemma build_lut_total:
  assumes "is_prime m" and "m \<le> u32_max" and "backends \<noteq> []" and "length backends \<le> u32_max"
  shows "\<exists>t. build_lut m backends = Some t \<and> lut_ok m backends t \<and>
    (\<forall>i < length backends. count (mset t) (of_nat i) = turns (length backends) m i)"
proof -
  define J where "J = \<lparr>job_m = m, job_n = length backends,
    job_off = map (\<lambda>b. hash_offset b (of_nat m)) backends, job_skip = map (\<lambda>b. hash_skip b (of_nat m)) backends\<rparr>"
  have prime: "prime_size m" using assms(1) by (simp add: is_prime_iff)
  then have J: "job_ok J" using assms by (simp add: job_ok_def J_def probe_ok_hash)
  from fill_loop_total [OF J fill_inv_init [OF J]] obtain st where
    st: "fill_loop (job_m J) (job_off J) (job_skip J) (job_n J)
       \<lparr>fs_table = replicate (job_m J) EMPTY, fs_next = replicate (job_n J) 0, fs_filled = 0\<rparr> = Some st"
    "fill_inv J st" "fs_filled st = job_m J" by auto
  have "EMPTY \<notin> set (fs_table st)" using st(2,3) by (simp add: fill_inv_def)
  then have "lut_ok m backends (fs_table st)"
    using st(2) by (auto simp: lut_ok_def fill_inv_def J_def)
  moreover have "\<forall>i < length backends. count (mset (fs_table st)) (of_nat i) = turns (length backends) m i"
    using st(2,3) by (simp add: fill_inv_def J_def)
  moreover have "build_lut m backends = Some (fs_table st)"
    using assms st(1) by (simp add: build_lut_def J_def Let_def rust_assert_def)
  ultimately show ?thesis by blast
qed

lemma build_lut_SomeD:
  assumes "build_lut m backends = Some t" and "m \<le> u32_max" and "length backends \<le> u32_max"
  shows "is_prime m \<and> backends \<noteq> [] \<and> lut_ok m backends t"
proof -
  have "is_prime m \<and> backends \<noteq> []"
    using assms(1) by (auto simp: build_lut_def)
  with build_lut_total [of m backends] assms show ?thesis by auto
qed

section \<open>Selecting a backend\<close>

text \<open>
  The contract the data plane relies on: a well-formed table answers every flow key, with one
  of its backends. It is met by the table of this theory and by the snapshots of the publisher.
\<close>

locale backend_table =
  fixes ok :: "'t \<Rightarrow> bool" and members :: "'t \<Rightarrow> u32 list" and pick :: "'t \<Rightarrow> u64 \<Rightarrow> u32 option"
  assumes pick_member: "ok t \<Longrightarrow> \<exists>b \<in> set (members t). pick t k = Some b"
begin

lemma pick_total: "ok t \<Longrightarrow> pick t k \<noteq> None"
  using pick_member [of t k] by auto

lemma pick_mem: "ok t \<Longrightarrow> pick t k = Some b \<Longrightarrow> b \<in> set (members t)"
  using pick_member [of t k] by auto

lemma pick_sole: "ok t \<Longrightarrow> set (members t) = {b} \<Longrightarrow> pick t k = Some b"
  using pick_member [of t k] by auto

end

definition mg_ok :: "maglev \<Rightarrow> bool" where
  "mg_ok mg \<longleftrightarrow> 0 < mg_m mg \<and> mg_m mg \<le> u32_max \<and> lut_ok (mg_m mg) (mg_backends mg) (mg_table mg)"

lemma lut_pick:
  assumes "lut_ok m backends t" and "0 < m" and "m \<le> u64_max"
  shows "\<exists>b \<in> set backends. do { v \<leftarrow> vec_get t (unat (k mod (of_nat m :: u64))); vec_get backends (unat v) } = Some b"
proof -
  have i: "unat (k mod (of_nat m :: u64)) < m" using assms by (simp add: unat_mod unat_of_nat_u64)
  then have "unat (t ! unat (k mod of_nat m)) < length backends"
    using assms(1) by (auto simp: lut_ok_def)
  with i assms(1) show ?thesis by (auto simp: lut_ok_def)
qed

interpretation mg: backend_table mg_ok mg_backends mg_lookup
proof
  fix mg k assume ok: "mg_ok mg"
  then have "(of_nat (mg_m mg) :: u64) \<noteq> 0"
    using unat_of_nat_u64 [of "mg_m mg"] by (auto simp: mg_ok_def)
  with ok show "\<exists>b \<in> set (mg_backends mg). mg_lookup mg k = Some b"
    using lut_pick [of "mg_m mg" "mg_backends mg" "mg_table mg" k]
    by (auto simp: mg_lookup_def mg_ok_def rust_assert_def)
qed

lemma mg_rebuild_ok:
  assumes "is_prime (mg_m mg)" and "mg_m mg \<le> u32_max" and "backends \<noteq> []" and "length backends \<le> u32_max"
  obtains mg' where "mg_rebuild mg backends = Some mg'" and "mg_ok mg'" and "mg_backends mg' = backends"
    and "mg_m mg' = mg_m mg"
proof -
  from build_lut_total [OF assms] obtain t where "build_lut (mg_m mg) backends = Some t"
    "lut_ok (mg_m mg) backends t" by blast
  moreover have "0 < mg_m mg" using assms(1) by (auto simp: is_prime_iff prime_size_def)
  ultimately show thesis using that assms(2) by (simp add: mg_rebuild_def mg_ok_def)
qed

lemma mg_load_table_ok:
  assumes "mg_ok mg" and "mg_load_table mg backends table = Some mg'"
  shows "mg_ok mg' \<and> mg_backends mg' = backends \<and> mg_table mg' = table \<and> mg_m mg' = mg_m mg"
  using assms by (auto simp: mg_load_table_def mg_ok_def lut_ok_def list_all_iff)

lemma mg_load_table_total:
  "lut_ok (mg_m mg) backends table \<Longrightarrow> \<exists>mg'. mg_load_table mg backends table = Some mg'"
  by (auto simp: mg_load_table_def lut_ok_def list_all_iff rust_assert_def)

lemma bump_all_counts:
  "\<forall>v \<in> set vs. unat v < length counts \<Longrightarrow>
    \<exists>cs. bump_all counts vs = Some cs \<and> length cs = length counts \<and>
      (\<forall>i < length counts. cs ! i = counts ! i + length (filter (\<lambda>v. unat v = i) vs))"
proof (induction vs arbitrary: counts)
  case (Cons v vs)
  from Cons.IH [of "counts[unat v := counts ! unat v + 1]"] Cons.prems
  obtain cs where "bump_all (counts[unat v := counts ! unat v + 1]) vs = Some cs" "length cs = length counts"
    "\<forall>i < length counts. cs ! i = counts[unat v := counts ! unat v + 1] ! i + length (filter (\<lambda>v. unat v = i) vs)"
    by auto
  with Cons.prems show ?case by (auto simp: nth_list_update)
qed simp

lemma count_unat:
  assumes "i \<le> u32_max"
  shows "length (filter (\<lambda>v :: u32. unat v = i) t) = count (mset t) (of_nat i)"
proof -
  have "(unat v = i) = (of_nat i = v)" for v :: u32
    using unat_of_nat_u32 [OF assms] by auto
  then show ?thesis by (simp add: count_mset count_list_eq_length_filter)
qed

lemma mg_slot_counts_eq:
  assumes "lut_ok m backends t" and "length backends \<le> u32_max"
    and "\<forall>i < length backends. count (mset t) (of_nat i) = turns (length backends) m i"
  shows "mg_slot_counts \<lparr>mg_m = m, mg_table = t, mg_backends = backends\<rparr> =
    Some (map (turns (length backends) m) [0..<length backends])"
proof -
  from bump_all_counts [of t "replicate (length backends) 0"] assms(1)
  obtain cs where cs: "bump_all (replicate (length backends) 0) t = Some cs" "length cs = length backends"
    "\<forall>i < length backends. cs ! i = length (filter (\<lambda>v. unat v = i) t)"
    by (auto simp: lut_ok_def)
  have "cs ! i = turns (length backends) m i" if "i < length backends" for i
    using cs(3) assms(2,3) that count_unat [of i t] by simp
  then have "cs = map (turns (length backends) m) [0..<length backends]"
    using cs(2) by (intro nth_equalityI) simp_all
  with cs(1) show ?thesis by (simp add: mg_slot_counts_def)
qed

section \<open>Properties\<close>

text \<open>
  C9. Building the look-up table for a prime size and a non-empty backend list always returns
  (the probing loops end although the source has no bound on them): every slot holds a valid
  backend index, and the \<open>m\<close> slots are shared as evenly as possible, each backend owning
  \<open>m div n\<close> slots and the first \<open>m mod n\<close> backends one more. Every look-up then returns one
  of the backends, without an index panic.
\<close>

theorem maglev_rebuild_fair:
  assumes "is_prime m" and "m \<le> u32_max" and "backends \<noteq> []" and "length backends \<le> u32_max"
  shows "\<exists>mg mg'. mg_new m = Some mg \<and> mg_rebuild mg backends = Some mg' \<and>
    mg_slot_counts mg' = Some (map (\<lambda>i. m div length backends + (if i < m mod length backends then 1 else 0))
      [0..<length backends]) \<and>
    (\<forall>key. \<exists>b. b \<in> set backends \<and> mg_lookup mg' key = Some b)"
proof -
  from build_lut_total [OF assms] obtain t where t: "build_lut m backends = Some t" "lut_ok m backends t"
    "\<forall>i < length backends. count (mset t) (of_nat i) = turns (length backends) m i" by blast
  let ?mg = "\<lparr>mg_m = m, mg_table = t, mg_backends = backends\<rparr>"
  have "0 < m" using assms(1) by (auto simp: is_prime_iff prime_size_def)
  then have "mg_ok ?mg" using t(2) assms(2) by (simp add: mg_ok_def)
  from mg.pick_member [OF this] have "\<exists>b. b \<in> set backends \<and> mg_lookup ?mg key = Some b" for key
    by auto
  moreover have "mg_slot_counts ?mg = Some (map (turns (length backends) m) [0..<length backends])"
    by (rule mg_slot_counts_eq [OF t(2) assms(4) t(3)])
  moreover have "map (turns (length backends) m) [0..<length backends] =
    map (\<lambda>i. m div length backends + (if i < m mod length backends then 1 else 0)) [0..<length backends]"
    by (simp add: turns_def)
  ultimately show ?thesis using assms(1) t(1)
    by (simp add: mg_new_def mg_rebuild_def rust_assert_def)
qed

theorem maglev_rebuild_fair_witness:
  "is_prime 7 \<and> (\<exists>mg mg'. mg_new 7 = Some mg \<and> mg_rebuild mg [10, 20, 30] = Some mg' \<and>
     mg_slot_counts mg' = Some [3, 2, 2] \<and>
     (\<forall>key. \<exists>b. b \<in> set [10, 20, 30] \<and> mg_lookup mg' key = Some b))"
proof -
  have p: "is_prime 7" by (simp add: is_prime_def prime_loop.simps)
  then have "\<exists>mg mg'. mg_new 7 = Some mg \<and> mg_rebuild mg [10, 20, 30] = Some mg' \<and>
     mg_slot_counts mg' = Some (map (\<lambda>i. 7 div length [10 :: u32, 20, 30] +
       (if i < 7 mod length [10 :: u32, 20, 30] then 1 else 0)) [0..<length [10 :: u32, 20, 30]]) \<and>
     (\<forall>key. \<exists>b. b \<in> set [10, 20, 30] \<and> mg_lookup mg' key = Some b)"
    by (intro maglev_rebuild_fair) simp_all
  moreover have "map (\<lambda>i. 7 div length [10 :: u32, 20, 30] +
       (if i < 7 mod length [10 :: u32, 20, 30] then 1 else 0)) [0..<length [10 :: u32, 20, 30]] = [3, 2, 2 :: nat]"
    by (simp add: upt_rec)
  ultimately show ?thesis using p by (simp only: simp_thms)
qed

end
