(* ===== verification/Xdp_Simulator.thy ===== *)
theory Xdp_Simulator
  imports Conntrack Token_Bucket Syn_Flood Maglev
begin

text \<open>
  The data-plane simulator (\<^verbatim>\<open>crates/xdp-edge/src/simulator.rs\<close>): the pipeline rate limit,
  SYN-flood test, connection tracking, backend selection, with its statistics. The packet
  path uses connection tracking through the contract \<^verbatim>\<open>roomy_cache\<close> and the look-up
  table through \<^verbatim>\<open>backend_table\<close>.
\<close>

section \<open>State and operations\<close>

record sim_config =
  cfg_rate_per_sec :: real
  cfg_rate_burst :: real
  cfg_rate_max_entries :: nat
  cfg_conntrack_capacity :: nat
  cfg_conntrack_timeout_ns :: nat
  cfg_syn_window_ns :: nat
  cfg_syn_threshold :: nat
  cfg_syn_ack_ratio :: nat

definition sim_config_default :: sim_config where
  "sim_config_default =
     \<lparr>cfg_rate_per_sec = 100000, cfg_rate_burst = 1000, cfg_rate_max_entries = 2 ^ 20,
      cfg_conntrack_capacity = 2 ^ 16, cfg_conntrack_timeout_ns = 120 * 1000000000,
      cfg_syn_window_ns = 1000000000, cfg_syn_threshold = 1000, cfg_syn_ack_ratio = 4\<rparr>"

record sim_stats =
  st_passed :: nat
  st_dropped_rate :: nat
  st_dropped_synflood :: nat
  st_forwarded :: nat
  st_conn_hits :: nat
  st_conn_misses :: nat

definition sim_stats_default :: sim_stats where
  "sim_stats_default =
     \<lparr>st_passed = 0, st_dropped_rate = 0, st_dropped_synflood = 0, st_forwarded = 0,
      st_conn_hits = 0, st_conn_misses = 0\<rparr>"

definition st_total :: "sim_stats \<Rightarrow> nat" where
  "st_total st = st_passed st + st_dropped_rate st + st_dropped_synflood st + st_forwarded st"

record xdp_simulator =
  sim_limiter :: rate_limiter
  sim_syn_guard :: syn_guard
  sim_conntrack :: conn_track
  sim_maglev :: maglev
  sim_stats :: sim_stats

definition sim_new :: "sim_config \<Rightarrow> u32 list \<Rightarrow> nat \<Rightarrow> xdp_simulator option" where
  "sim_new cfg backends maglev_size =
     do { mg0 \<leftarrow> mg_new maglev_size;
          mg \<leftarrow> mg_rebuild mg0 backends;
          ct \<leftarrow> ct_new (cfg_conntrack_capacity cfg) (cfg_conntrack_timeout_ns cfg);
          Some \<lparr>sim_limiter = rl_new (cfg_rate_per_sec cfg) (cfg_rate_burst cfg) (cfg_rate_max_entries cfg),
                sim_syn_guard = sg_new (cfg_syn_window_ns cfg) (cfg_syn_threshold cfg) (cfg_syn_ack_ratio cfg),
                sim_conntrack = ct, sim_maglev = mg, sim_stats = sim_stats_default\<rparr> }"

definition set_backends :: "xdp_simulator \<Rightarrow> u32 list \<Rightarrow> xdp_simulator option" where
  "set_backends s backends =
     do { mg \<leftarrow> mg_rebuild (sim_maglev s) backends; Some (s\<lparr>sim_maglev := mg\<rparr>) }"

definition apply_lut :: "xdp_simulator \<Rightarrow> u32 list \<Rightarrow> u32 list \<Rightarrow> xdp_simulator option" where
  "apply_lut s backends table =
     do { mg \<leftarrow> mg_load_table (sim_maglev s) backends table; Some (s\<lparr>sim_maglev := mg\<rparr>) }"

definition bump_rate :: "sim_stats \<Rightarrow> sim_stats" where
  "bump_rate st = st\<lparr>st_dropped_rate := st_dropped_rate st + 1\<rparr>"

definition bump_synflood :: "sim_stats \<Rightarrow> sim_stats" where
  "bump_synflood st = st\<lparr>st_dropped_synflood := st_dropped_synflood st + 1\<rparr>"

definition bump_hit :: "sim_stats \<Rightarrow> sim_stats" where
  "bump_hit st = st\<lparr>st_conn_hits := st_conn_hits st + 1, st_forwarded := st_forwarded st + 1\<rparr>"

definition bump_miss :: "sim_stats \<Rightarrow> sim_stats" where
  "bump_miss st = st\<lparr>st_conn_misses := st_conn_misses st + 1, st_forwarded := st_forwarded st + 1\<rparr>"

text \<open>Steps 3 to 5 of the pipeline, on the state that steps 1 and 2 leave.\<close>

definition forward_path :: "xdp_simulator \<Rightarrow> xdp_packet \<Rightarrow> nat \<Rightarrow> (action \<times> xdp_simulator) option" where
  "forward_path s pkt now =
     do { (r, ct1) \<leftarrow> ct_lookup (sim_conntrack s) (pk_tuple pkt) now;
          case r of
            Some entry \<Rightarrow>
              Some (Forward (backend_ip entry), s\<lparr>sim_conntrack := ct1, sim_stats := bump_hit (sim_stats s)\<rparr>)
          | None \<Rightarrow>
              do { backend \<leftarrow> mg_lookup (sim_maglev s) (flow_hash (pk_tuple pkt));
                   ct2 \<leftarrow> ct_insert ct1 (pk_tuple pkt) \<lparr>backend_ip = backend, last_seen_ns = now\<rparr>;
                   Some (Forward backend, s\<lparr>sim_conntrack := ct2, sim_stats := bump_miss (sim_stats s)\<rparr>) } }"

definition process :: "(real \<Rightarrow> real) \<Rightarrow> xdp_simulator \<Rightarrow> xdp_packet \<Rightarrow> nat \<Rightarrow> (action \<times> xdp_simulator) option" where
  "process rnd s pkt now =
     do { (ok, lim) \<leftarrow> rl_allow rnd (sim_limiter s) (src_ip (pk_tuple pkt)) now;
          if \<not> ok
          then Some (Drop, s\<lparr>sim_limiter := lim, sim_stats := bump_rate (sim_stats s)\<rparr>)
          else
            let (flagged, guard) =
                  (if protocol (pk_tuple pkt) = PROTO_TCP
                   then sg_observe (sim_syn_guard s) (src_ip (pk_tuple pkt)) (is_syn pkt) (is_ack pkt) now
                   else (False, sim_syn_guard s));
                s2 = s\<lparr>sim_limiter := lim, sim_syn_guard := guard\<rparr> in
            if flagged then Some (Drop, s2\<lparr>sim_stats := bump_synflood (sim_stats s)\<rparr>)
            else forward_path s2 pkt now }"

definition conntrack_len :: "xdp_simulator \<Rightarrow> nat" where
  "conntrack_len s = ct_len (sim_conntrack s)"

definition conntrack_evictions :: "xdp_simulator \<Rightarrow> nat" where
  "conntrack_evictions s = ct_evictions (sim_conntrack s)"

text \<open>
  What drives the simulator: packets, changes of the backend set, tables published by the control
  plane, and sweeps of the connection table by the control plane (\<open>conntrack_mut\<close>).
\<close>

datatype sim_event =
    EvPacket xdp_packet nat
  | EvSetBackends "u32 list"
  | EvApplyLut "u32 list" "u32 list"
  | EvSweep nat

fun sim_step :: "(real \<Rightarrow> real) \<Rightarrow> ((five_tuple, nat) hmap \<Rightarrow> nat list) \<Rightarrow> xdp_simulator \<Rightarrow> sim_event \<Rightarrow>
    (action list \<times> xdp_simulator) option" where
  "sim_step rnd iter s (EvPacket pkt now) = do { (a, s') \<leftarrow> process rnd s pkt now; Some ([a], s') }"
| "sim_step rnd iter s (EvSetBackends bs) = do { s' \<leftarrow> set_backends s bs; Some ([], s') }"
| "sim_step rnd iter s (EvApplyLut bs t) = do { s' \<leftarrow> apply_lut s bs t; Some ([], s') }"
| "sim_step rnd iter s (EvSweep now) =
     do { (n, ct) \<leftarrow> sweep_expired (iter (ct_map (sim_conntrack s))) (sim_conntrack s) now;
          Some ([], s\<lparr>sim_conntrack := ct\<rparr>) }"

fun sim_run :: "(real \<Rightarrow> real) \<Rightarrow> ((five_tuple, nat) hmap \<Rightarrow> nat list) \<Rightarrow> xdp_simulator \<Rightarrow> sim_event list \<Rightarrow>
    (action list \<times> xdp_simulator) option" where
  "sim_run rnd iter s [] = Some ([], s)"
| "sim_run rnd iter s (e # es) =
     do { (as, s1) \<leftarrow> sim_step rnd iter s e; (bs, s2) \<leftarrow> sim_run rnd iter s1 es; Some (as @ bs, s2) }"

section \<open>The invariant\<close>

definition stats_ok :: "sim_stats \<Rightarrow> bool" where
  "stats_ok st \<longleftrightarrow> st_passed st = 0 \<and> st_forwarded st = st_conn_hits st + st_conn_misses st"

definition sim_ok :: "xdp_simulator \<Rightarrow> bool" where
  "sim_ok s \<longleftrightarrow> rl_inv (sim_limiter s) \<and> ct_ok (sim_conntrack s) \<and> mg_ok (sim_maglev s) \<and>
     is_prime (mg_m (sim_maglev s)) \<and> stats_ok (sim_stats s)"

definition event_ok :: "nat \<Rightarrow> sim_event \<Rightarrow> bool" where
  "event_ok m e = (case e of
       EvSetBackends bs \<Rightarrow> bs \<noteq> [] \<and> length bs \<le> u32_max
     | EvApplyLut bs t \<Rightarrow> lut_ok m bs t
     | _ \<Rightarrow> True)"

definition is_packet :: "sim_event \<Rightarrow> bool" where
  "is_packet e = (case e of EvPacket _ _ \<Rightarrow> True | _ \<Rightarrow> False)"

definition drops :: "sim_stats \<Rightarrow> nat" where
  "drops st = st_dropped_rate st + st_dropped_synflood st"

lemmas bump_defs = bump_rate_def bump_synflood_def bump_hit_def bump_miss_def

lemma stats_bump [simp]:
  "stats_ok (bump_rate st) = stats_ok st" "stats_ok (bump_synflood st) = stats_ok st"
  "stats_ok (bump_hit st) = stats_ok st" "stats_ok (bump_miss st) = stats_ok st"
  by (simp_all add: stats_ok_def bump_defs)

lemma total_bump [simp]:
  "st_total (bump_rate st) = Suc (st_total st)" "st_total (bump_synflood st) = Suc (st_total st)"
  "st_total (bump_hit st) = Suc (st_total st)" "st_total (bump_miss st) = Suc (st_total st)"
  by (simp_all add: st_total_def bump_defs)

lemma drops_bump [simp]:
  "drops (bump_rate st) = Suc (drops st)" "drops (bump_synflood st) = Suc (drops st)"
  "drops (bump_hit st) = drops st" "drops (bump_miss st) = drops st"
  by (simp_all add: drops_def bump_defs)

lemma rl_allow_total:
  assumes "rl_inv r"
  shows "\<exists>ok r'. rl_allow rnd r src now = Some (ok, r') \<and> rl_inv r'"
proof (cases "hm_get (rl_buckets r) src")
  case None
  show ?thesis
  proof (cases "length (rl_buckets r) \<ge> rl_max_entries r")
    case True
    with None assms show ?thesis by (auto simp: rl_allow_def rl_inv_def)
  next
    case False
    with None assms show ?thesis
      by (simp add: rl_allow_def rl_inv_def tb_new_def rust_assert_def split_beta Let_def
          hm_wf_insert length_hm_insert_new)
  qed
next
  case (Some b)
  with assms show ?thesis
    by (simp add: rl_allow_def rl_inv_def split_beta Let_def hm_wf_insert length_hm_insert_old)
qed

definition chosen_backend :: "xdp_simulator \<Rightarrow> five_tuple \<Rightarrow> nat \<Rightarrow> u32" where
  "chosen_backend s k now =
     (case live_entry (ct_timeout_ns (sim_conntrack s)) now (ct_peek (sim_conntrack s) k) of
        Some e \<Rightarrow> backend_ip e
      | None \<Rightarrow> the (mg_lookup (sim_maglev s) (flow_hash k)))"

lemma forward_path_total:
  assumes ok: "sim_ok s"
  shows "\<exists>s'. forward_path s pkt now = Some (Forward (chosen_backend s (pk_tuple pkt) now), s') \<and> sim_ok s' \<and>
    sim_maglev s' = sim_maglev s \<and> st_total (sim_stats s') = Suc (st_total (sim_stats s)) \<and>
    drops (sim_stats s') = drops (sim_stats s) \<and>
    ct.settled (sim_conntrack s) (pk_tuple pkt) (chosen_backend s (pk_tuple pkt) now) now (sim_conntrack s')"
proof (cases "live_entry (ct_timeout_ns (sim_conntrack s)) now (ct_peek (sim_conntrack s) (pk_tuple pkt))")
  case (Some e)
  have "ct_ok (sim_conntrack s)" using ok by (simp add: sim_ok_def)
  from ct.resolve_hit [OF this Some] obtain ct1 where
    "ct_lookup (sim_conntrack s) (pk_tuple pkt) now = Some (Some e, ct1)"
    "ct.settled (sim_conntrack s) (pk_tuple pkt) (backend_ip e) now ct1" by blast
  with ok Some show ?thesis
    by (simp add: forward_path_def chosen_backend_def sim_ok_def ct.settled_def)
next
  case None
  have "ct_ok (sim_conntrack s)" and "mg_ok (sim_maglev s)" using ok by (simp_all add: sim_ok_def)
  from mg.pick_member [OF this(2)] obtain b where
    b: "mg_lookup (sim_maglev s) (flow_hash (pk_tuple pkt)) = Some b" by blast
  from ct.resolve_miss [OF \<open>ct_ok (sim_conntrack s)\<close> None, of b] obtain ct1 ct2 where
    "ct_lookup (sim_conntrack s) (pk_tuple pkt) now = Some (None, ct1)"
    "ct_insert ct1 (pk_tuple pkt) \<lparr>backend_ip = b, last_seen_ns = now\<rparr> = Some ct2"
    "ct.settled (sim_conntrack s) (pk_tuple pkt) b now ct2" by blast
  with ok None b show ?thesis
    by (simp add: forward_path_def chosen_backend_def sim_ok_def ct.settled_def)
qed

lemma process_cases:
  assumes ok: "sim_ok s"
  obtains (dropped) s' where "process rnd s pkt now = Some (Drop, s')" and "sim_ok s'"
      and "sim_maglev s' = sim_maglev s" and "sim_conntrack s' = sim_conntrack s"
      and "st_total (sim_stats s') = Suc (st_total (sim_stats s))" and "drops (sim_stats s') = Suc (drops (sim_stats s))"
  | (forwarded) lim guard s' where
      "process rnd s pkt now = Some (Forward (chosen_backend s (pk_tuple pkt) now), s')" and "sim_ok s'"
      and "sim_maglev s' = sim_maglev s"
      and "forward_path (s\<lparr>sim_limiter := lim, sim_syn_guard := guard\<rparr>) pkt now =
        Some (Forward (chosen_backend s (pk_tuple pkt) now), s')"
      and "ct.settled (sim_conntrack s) (pk_tuple pkt) (chosen_backend s (pk_tuple pkt) now) now (sim_conntrack s')"
      and "st_total (sim_stats s') = Suc (st_total (sim_stats s))" and "drops (sim_stats s') = drops (sim_stats s)"
proof -
  from rl_allow_total [of "sim_limiter s" rnd "src_ip (pk_tuple pkt)" now] ok obtain admit lim where
    lim: "rl_allow rnd (sim_limiter s) (src_ip (pk_tuple pkt)) now = Some (admit, lim)" "rl_inv lim"
    by (auto simp: sim_ok_def)
  obtain flagged guard where
    guard: "(if protocol (pk_tuple pkt) = PROTO_TCP
       then sg_observe (sim_syn_guard s) (src_ip (pk_tuple pkt)) (is_syn pkt) (is_ack pkt) now
       else (False, sim_syn_guard s)) = (flagged, guard)" by fastforce
  let ?s2 = "s\<lparr>sim_limiter := lim, sim_syn_guard := guard\<rparr>"
  have ok2: "sim_ok ?s2" using ok lim(2) by (simp add: sim_ok_def)
  have eq: "process rnd s pkt now =
     (if \<not> admit then Some (Drop, s\<lparr>sim_limiter := lim, sim_stats := bump_rate (sim_stats s)\<rparr>)
      else if flagged then Some (Drop, ?s2\<lparr>sim_stats := bump_synflood (sim_stats s)\<rparr>)
      else forward_path ?s2 pkt now)"
    using lim(1) by (simp add: process_def guard)
  show thesis
  proof (cases "admit \<and> \<not> flagged")
    case True
    with eq have fw: "process rnd s pkt now = forward_path ?s2 pkt now" by simp
    have "chosen_backend ?s2 (pk_tuple pkt) now = chosen_backend s (pk_tuple pkt) now"
      by (simp add: chosen_backend_def split: option.split)
    with forward_path_total [OF ok2, of pkt now] obtain s' where
      "forward_path ?s2 pkt now = Some (Forward (chosen_backend s (pk_tuple pkt) now), s')" "sim_ok s'"
      "sim_maglev s' = sim_maglev s" "st_total (sim_stats s') = Suc (st_total (sim_stats s))"
      "drops (sim_stats s') = drops (sim_stats s)"
      "ct.settled (sim_conntrack s) (pk_tuple pkt) (chosen_backend s (pk_tuple pkt) now) now (sim_conntrack s')"
      by auto
    with fw show thesis using forwarded [where s' = s' and lim = lim and guard = guard] by simp
  next
    case False
    then obtain s' where "process rnd s pkt now = Some (Drop, s')" "sim_conntrack s' = sim_conntrack s"
      "sim_maglev s' = sim_maglev s" "sim_limiter s' = lim"
      "sim_stats s' = bump_rate (sim_stats s) \<or> sim_stats s' = bump_synflood (sim_stats s)"
      unfolding eq by (cases admit) auto
    with ok lim(2) dropped [of s'] show thesis by (auto simp: sim_ok_def)
  qed
qed

lemma set_backends_ok:
  assumes "sim_ok s" and "bs \<noteq> []" and "length bs \<le> u32_max"
  shows "\<exists>s'. set_backends s bs = Some s' \<and> sim_ok s' \<and> sim_stats s' = sim_stats s \<and> sim_conntrack s' = sim_conntrack s \<and>
    mg_m (sim_maglev s') = mg_m (sim_maglev s) \<and> mg_backends (sim_maglev s') = bs"
proof -
  have "is_prime (mg_m (sim_maglev s))" "mg_m (sim_maglev s) \<le> u32_max"
    using assms(1) by (auto simp: sim_ok_def mg_ok_def)
  from mg_rebuild_ok [OF this assms(2,3)] obtain mg' where
    "mg_rebuild (sim_maglev s) bs = Some mg'" "mg_ok mg'" "mg_backends mg' = bs"
    "mg_m mg' = mg_m (sim_maglev s)" by blast
  with assms(1) show ?thesis by (simp add: set_backends_def sim_ok_def)
qed

lemma apply_lut_ok:
  assumes "sim_ok s" and "lut_ok (mg_m (sim_maglev s)) bs t"
  shows "\<exists>s'. apply_lut s bs t = Some s' \<and> sim_ok s' \<and> sim_stats s' = sim_stats s \<and> sim_conntrack s' = sim_conntrack s \<and>
    mg_m (sim_maglev s') = mg_m (sim_maglev s) \<and> mg_backends (sim_maglev s') = bs"
proof -
  have mg: "mg_ok (sim_maglev s)" using assms(1) by (simp add: sim_ok_def)
  from mg_load_table_total [OF assms(2)] obtain mg' where mg': "mg_load_table (sim_maglev s) bs t = Some mg'" by blast
  from mg_load_table_ok [OF mg mg'] mg' assms(1) show ?thesis by (simp add: apply_lut_def sim_ok_def)
qed

lemma sweep_event_ok:
  assumes "sim_ok s" and "iter_ok iter"
  shows "\<exists>s'. sim_step rnd iter s (EvSweep now) = Some ([], s') \<and> sim_ok s' \<and>
    sim_stats s' = sim_stats s \<and> sim_maglev s' = sim_maglev s \<and> ct_params (sim_conntrack s') = ct_params (sim_conntrack s) \<and>
    (\<forall>k. ct_peek (sim_conntrack s') k =
       live_entry (ct_timeout_ns (sim_conntrack s)) now (ct_peek (sim_conntrack s) k))"
proof -
  have "ct_ok (sim_conntrack s)" using assms(1) by (simp add: sim_ok_def)
  from sweep_peek [OF this assms(2), of now] assms(1) show ?thesis by (auto simp: sim_ok_def)
qed

lemma sim_step_total:
  assumes ok: "sim_ok s" and iter: "iter_ok iter" and e: "event_ok (mg_m (sim_maglev s)) e"
  shows "\<exists>as s'. sim_step rnd iter s e = Some (as, s') \<and> sim_ok s' \<and> mg_m (sim_maglev s') = mg_m (sim_maglev s) \<and>
    length as = of_bool (is_packet e) \<and>
    st_total (sim_stats s') = st_total (sim_stats s) + length as \<and>
    drops (sim_stats s') = drops (sim_stats s) + length (filter is_drop as)"
proof (cases e)
  case (EvPacket pkt now)
  from ok show ?thesis
    by (rule process_cases [where rnd = rnd and pkt = pkt and now = now])
      (simp_all add: EvPacket is_packet_def is_drop_def)
next
  case (EvSetBackends bs)
  with set_backends_ok [OF ok, of bs] e show ?thesis
    by (auto simp: event_ok_def is_packet_def)
next
  case (EvApplyLut bs t)
  with apply_lut_ok [OF ok, of bs t] e show ?thesis
    by (auto simp: event_ok_def is_packet_def)
next
  case (EvSweep now)
  with sweep_event_ok [OF ok iter, of rnd now] show ?thesis
    by (auto simp: is_packet_def)
qed

lemma sim_run_total:
  assumes "sim_ok s" and iter: "iter_ok iter" and "\<forall>e \<in> set es. event_ok (mg_m (sim_maglev s)) e"
  shows "\<exists>as s'. sim_run rnd iter s es = Some (as, s') \<and> sim_ok s' \<and>
    length as = length (filter is_packet es) \<and>
    st_total (sim_stats s') = st_total (sim_stats s) + length as \<and>
    drops (sim_stats s') = drops (sim_stats s) + length (filter is_drop as)"
  using assms(1,3)
proof (induction es arbitrary: s)
  case (Cons e es)
  then have "event_ok (mg_m (sim_maglev s)) e" by simp
  from sim_step_total [OF Cons.prems(1) iter this, of rnd] obtain as s1 where
    s1: "sim_step rnd iter s e = Some (as, s1)" "sim_ok s1" "mg_m (sim_maglev s1) = mg_m (sim_maglev s)"
    "length as = of_bool (is_packet e)" "st_total (sim_stats s1) = st_total (sim_stats s) + length as"
    "drops (sim_stats s1) = drops (sim_stats s) + length (filter is_drop as)" by blast
  from Cons.IH [OF s1(2)] Cons.prems(2) s1(3) obtain bs s2 where
    "sim_run rnd iter s1 es = Some (bs, s2)" "sim_ok s2" "length bs = length (filter is_packet es)"
    "st_total (sim_stats s2) = st_total (sim_stats s1) + length bs"
    "drops (sim_stats s2) = drops (sim_stats s1) + length (filter is_drop bs)" by auto
  with s1 show ?case by (auto simp: of_bool_def)
qed simp

definition config_ok :: "sim_config \<Rightarrow> bool" where
  "config_ok cfg \<longleftrightarrow> 0 < cfg_rate_per_sec cfg \<and> 1 \<le> cfg_rate_burst cfg \<and>
     0 < cfg_conntrack_capacity cfg \<and> cfg_conntrack_capacity cfg \<le> u32_max"

lemma sim_new_ok:
  assumes "config_ok cfg" and "is_prime m" and "m \<le> u32_max" and "backends \<noteq> []"
    and "length backends \<le> u32_max"
  shows "\<exists>s. sim_new cfg backends m = Some s \<and> sim_ok s \<and> mg_m (sim_maglev s) = m \<and>
    sim_stats s = sim_stats_default"
proof -
  let ?mg = "\<lparr>mg_m = m, mg_table = replicate m EMPTY, mg_backends = []\<rparr>"
  from mg_rebuild_ok [of ?mg backends] assms obtain mg where
    "mg_rebuild ?mg backends = Some mg" "mg_ok mg" "mg_m mg = m" by auto
  moreover from ct_new_refines [of "cfg_conntrack_capacity cfg" "cfg_conntrack_timeout_ns cfg"] assms(1)
  obtain ct where "ct_new (cfg_conntrack_capacity cfg) (cfg_conntrack_timeout_ns cfg) = Some ct" "ct_ok ct"
    by (auto simp: config_ok_def intro: ct_okI)
  ultimately show ?thesis using assms(1,2)
    by (auto simp: sim_new_def mg_new_def rust_assert_def sim_ok_def config_ok_def rl_new_inv
        stats_ok_def sim_stats_default_def)
qed

section \<open>Connection affinity\<close>

definition bound_to :: "xdp_simulator \<Rightarrow> five_tuple \<Rightarrow> u32 \<Rightarrow> nat \<Rightarrow> bool" where
  "bound_to s k b t0 \<longleftrightarrow>
     (\<exists>e. ct_peek (sim_conntrack s) k = Some e \<and> backend_ip e = b \<and> t0 \<le> last_seen_ns e)"

lemma forward_path_keeps:
  assumes "ct_ok (sim_conntrack s)" and "ctr.has_room (sim_conntrack s) K" and "pk_tuple pkt \<in> K"
    and "forward_path s pkt now = Some (a, s')"
  shows "(\<forall>k. k \<noteq> pk_tuple pkt \<longrightarrow> ct_peek (sim_conntrack s') k = ct_peek (sim_conntrack s) k) \<and>
    ctr.has_room (sim_conntrack s') K"
proof -
  from assms(4) obtain r ct1 v where
    "ct_lookup (sim_conntrack s) (pk_tuple pkt) now = Some (r, ct1)"
    "case r of Some e \<Rightarrow> sim_conntrack s' = ct1 | None \<Rightarrow> ct_insert ct1 (pk_tuple pkt) v = Some (sim_conntrack s')"
    by (auto simp: forward_path_def split: option.splits bind_splits)
  from ctr.resolve_keeps [OF assms(1-3) this] show ?thesis by blast
qed

lemma live_bound:
  assumes "bound_to s k b t0" and "now \<le> t0 + ct_timeout_ns (sim_conntrack s)"
  shows "\<exists>e. live_entry (ct_timeout_ns (sim_conntrack s)) now (ct_peek (sim_conntrack s) k) = Some e \<and>
    ct_peek (sim_conntrack s) k = Some e \<and> backend_ip e = b \<and> t0 \<le> last_seen_ns e"
  using assms by (auto simp: bound_to_def live_entry_def)

text \<open>The events between two packets of a flow: in the time window, on the flows of \<open>K\<close>.\<close>

definition event_in :: "five_tuple set \<Rightarrow> nat \<Rightarrow> nat \<Rightarrow> sim_event \<Rightarrow> bool" where
  "event_in K t0 t1 e = (case e of
       EvPacket pkt now \<Rightarrow> pk_tuple pkt \<in> K \<and> t0 \<le> now \<and> now \<le> t1
     | EvSweep now \<Rightarrow> now \<le> t1
     | _ \<Rightarrow> True)"

definition holds_flow :: "xdp_simulator \<Rightarrow> five_tuple set \<Rightarrow> five_tuple \<Rightarrow> u32 \<Rightarrow> nat \<Rightarrow> nat \<Rightarrow> bool" where
  "holds_flow s K k b t0 timeout \<longleftrightarrow> sim_ok s \<and> ctr.has_room (sim_conntrack s) K \<and>
     ct_timeout_ns (sim_conntrack s) = timeout \<and> bound_to s k b t0"

lemma process_keeps:
  assumes h: "holds_flow s K k b t0 timeout" and in_K: "pk_tuple pkt \<in> K"
    and now: "t0 \<le> now" "now \<le> t0 + timeout"
    and run: "process rnd s pkt now = Some (a, s')"
  shows "holds_flow s' K k b t0 timeout" and "pk_tuple pkt = k \<Longrightarrow> a = Drop \<or> a = Forward b"
proof -
  have ok: "sim_ok s" and room: "ctr.has_room (sim_conntrack s) K" and bd: "bound_to s k b t0"
    and tm: "ct_timeout_ns (sim_conntrack s) = timeout" using h by (simp_all add: holds_flow_def)
  have live: "chosen_backend s k now = b"
    using live_bound [OF bd, of now] now tm by (auto simp: chosen_backend_def)
  have "holds_flow s' K k b t0 timeout \<and> (pk_tuple pkt = k \<longrightarrow> a = Drop \<or> a = Forward b)"
    using ok
  proof (cases rule: process_cases [where rnd = rnd and pkt = pkt and now = now])
    case (dropped s'')
    with run h show ?thesis by (simp add: holds_flow_def bound_to_def)
  next
    case (forwarded lim guard s'')
    let ?s2 = "s\<lparr>sim_limiter := lim, sim_syn_guard := guard\<rparr>"
    have s'': "s'' = s'" "a = Forward (chosen_backend s (pk_tuple pkt) now)" using run forwarded(1) by simp_all
    have keeps: "\<forall>k. k \<noteq> pk_tuple pkt \<longrightarrow> ct_peek (sim_conntrack s') k = ct_peek (sim_conntrack s) k"
      "ctr.has_room (sim_conntrack s') K"
      using forward_path_keeps [of ?s2 K pkt now] ok room in_K forwarded(4) s'' by (auto simp: sim_ok_def)
    moreover have "bound_to s' k b t0"
    proof (cases "pk_tuple pkt = k")
      case True
      with forwarded(5) live now s'' show ?thesis by (auto simp: ct.settled_def bound_to_def)
    next
      case False
      with keeps(1) bd show ?thesis by (simp add: bound_to_def)
    qed
    ultimately show ?thesis
      using forwarded(2,5) s'' tm live by (auto simp: holds_flow_def ct.settled_def)
  qed
  then show "holds_flow s' K k b t0 timeout" "pk_tuple pkt = k \<Longrightarrow> a = Drop \<or> a = Forward b" by auto
qed

lemma sweep_keeps:
  assumes h: "holds_flow s K k b t0 timeout" and iter: "iter_ok iter" and now: "now \<le> t0 + timeout"
    and run: "sim_step rnd iter s (EvSweep now) = Some (as, s')"
  shows "holds_flow s' K k b t0 timeout"
proof -
  have ok: "sim_ok s" and room: "ctr.has_room (sim_conntrack s) K" and bd: "bound_to s k b t0"
    and tm: "ct_timeout_ns (sim_conntrack s) = timeout" using h by (simp_all add: holds_flow_def)
  from sweep_event_ok [OF ok iter, of rnd now] run have s': "sim_ok s'"
    "ct_params (sim_conntrack s') = ct_params (sim_conntrack s)"
    "\<forall>k. ct_peek (sim_conntrack s') k = live_entry timeout now (ct_peek (sim_conntrack s) k)"
    by (auto simp: tm)
  have "bound_to s' k b t0"
    using live_bound [OF bd, of now] now tm s'(3) by (auto simp: bound_to_def)
  moreover have "dom (ct_peek (sim_conntrack s')) \<subseteq> dom (ct_peek (sim_conntrack s))"
    using s'(3) by (auto simp: live_entry_def split: option.splits if_splits)
  then have "ctr.has_room (sim_conntrack s') K"
    using room s'(2) by (auto simp: ctr.has_room_def ct_params_def)
  ultimately show ?thesis using s'(1,2) tm by (simp add: holds_flow_def ct_params_def)
qed

lemma sim_step_keeps:
  assumes h: "holds_flow s K k b t0 timeout" and iter: "iter_ok iter"
    and e: "event_in K t0 t1 e" "event_ok (mg_m (sim_maglev s)) e" and t1: "t1 \<le> t0 + timeout"
    and run: "sim_step rnd iter s e = Some (as, s')"
  shows "holds_flow s' K k b t0 timeout"
proof (cases e)
  case (EvPacket pkt now)
  with e t1 run show ?thesis
    using process_keeps(1) [OF h, of pkt now rnd] by (auto simp: event_in_def split: bind_splits)
next
  case (EvSetBackends bs)
  with set_backends_ok [of s bs] h e run show ?thesis
    by (auto simp: event_ok_def holds_flow_def bound_to_def)
next
  case (EvApplyLut bs t)
  with apply_lut_ok [of s bs t] h e run show ?thesis
    by (auto simp: event_ok_def holds_flow_def bound_to_def)
next
  case (EvSweep now)
  with e(1) t1 sweep_keeps [OF h iter, of now rnd as s'] run show ?thesis by (simp add: event_in_def)
qed

lemma sim_run_keeps:
  assumes iter: "iter_ok iter" and t1: "t1 \<le> t0 + timeout"
  shows "\<lbrakk>holds_flow s K k b t0 timeout; \<forall>e \<in> set es. event_in K t0 t1 e \<and> event_ok (mg_m (sim_maglev s)) e;
    sim_run rnd iter s es = Some (as, s')\<rbrakk> \<Longrightarrow> holds_flow s' K k b t0 timeout"
proof (induction es arbitrary: s as)
  case (Cons e es)
  from Cons.prems(3) obtain bs s1 cs where
    s1: "sim_step rnd iter s e = Some (bs, s1)" "sim_run rnd iter s1 es = Some (cs, s')"
    by (auto split: bind_splits)
  have h1: "holds_flow s1 K k b t0 timeout"
    using sim_step_keeps [OF Cons.prems(1) iter _ _ t1 s1(1)] Cons.prems(2) by auto
  have "mg_m (sim_maglev s1) = mg_m (sim_maglev s)"
    using sim_step_total [of s iter e rnd] Cons.prems(1,2) s1(1) iter by (auto simp: holds_flow_def)
  with Cons.IH [OF h1 _ s1(2)] Cons.prems(2) show ?case by simp
qed simp

lemma process_forward_holds:
  assumes ok: "sim_ok s" and room: "ctr.has_room (sim_conntrack s) K" and in_K: "pk_tuple pkt \<in> K"
    and run: "process rnd s pkt now = Some (Forward b, s')"
  shows "holds_flow s' K (pk_tuple pkt) b now (ct_timeout_ns (sim_conntrack s)) \<and>
    mg_m (sim_maglev s') = mg_m (sim_maglev s)"
  using ok
proof (cases rule: process_cases [where rnd = rnd and pkt = pkt and now = now])
  case (dropped s'')
  with run show ?thesis by simp
next
  case (forwarded lim guard s'')
  let ?s2 = "s\<lparr>sim_limiter := lim, sim_syn_guard := guard\<rparr>"
  have s'': "s'' = s'" "b = chosen_backend s (pk_tuple pkt) now" using run forwarded(1) by simp_all
  have "ctr.has_room (sim_conntrack s') K"
    using forward_path_keeps [of ?s2 K pkt now] ok room in_K forwarded(4) s'' by (auto simp: sim_ok_def)
  with forwarded(2,3,5) s'' show ?thesis by (auto simp: holds_flow_def ct.settled_def bound_to_def)
qed

definition sample_config :: sim_config where
  "sample_config = \<lparr>cfg_rate_per_sec = 1000000000, cfg_rate_burst = 4, cfg_rate_max_entries = 8,
     cfg_conntrack_capacity = 4, cfg_conntrack_timeout_ns = 100, cfg_syn_window_ns = 50,
     cfg_syn_threshold = 3, cfg_syn_ack_ratio = 2\<rparr>"

definition sample_packet :: "u16 \<Rightarrow> xdp_packet" where
  "sample_packet port = \<lparr>pk_tuple = sample_tuple port, tcp_flags = TCP_ACK, pk_len = 64\<rparr>"

definition sample_sim :: xdp_simulator where
  "sample_sim = \<lparr>sim_limiter = rl_new 1000000000 4 8, sim_syn_guard = sg_new 50 3 2,
     sim_conntrack = the (ct_new 4 100), sim_maglev = \<lparr>mg_m = 2, mg_table = [0, 0], mg_backends = [7]\<rparr>,
     sim_stats = sim_stats_default\<rparr>"

lemma sample_sim_ok: "sim_ok sample_sim"
proof -
  from ct_new_refines [of 4 100] have "ct_ok (the (ct_new 4 100))" by (auto intro: ct_okI)
  then show ?thesis
    by (simp add: sample_sim_def sim_ok_def rl_new_inv mg_ok_def lut_ok_def stats_ok_def
        sim_stats_default_def is_prime_def prime_loop.simps)
qed

lemma sample_sim_forwards: "\<exists>s1. process id sample_sim (sample_packet 1) 1 = Some (Forward 7, s1)"
proof -
  have mg: "mg_ok (sim_maglev sample_sim)" "set (mg_backends (sim_maglev sample_sim)) = {7}"
    using sample_sim_ok by (simp_all add: sim_ok_def) (simp add: sample_sim_def)
  have "chosen_backend sample_sim (pk_tuple (sample_packet 1)) 1 = 7"
    using mg.pick_sole [OF mg]
    by (simp add: chosen_backend_def live_entry_def) (simp add: sample_sim_def ct_new_def rust_assert_def ct_peek_def)
  moreover have "\<nexists>s'. process id sample_sim (sample_packet 1) 1 = Some (Drop, s')"
  proof -
    have "fst (the (rl_allow id (sim_limiter sample_sim) (src_ip (pk_tuple (sample_packet 1))) 1))"
      by (simp add: sample_sim_def rl_allow_def rl_new_def tb_new_def rust_assert_def tb_allow_def refill_def)
    moreover have "\<not> fst (sg_observe (sim_syn_guard sample_sim) (src_ip (pk_tuple (sample_packet 1)))
        (is_syn (sample_packet 1)) (is_ack (sample_packet 1)) 1)"
      by (simp add: sample_sim_def sg_new_def sg_observe_def sat_mul_u32_def sample_packet_def is_syn_def
          window_of_def window_default_def TCP_ACK_def TCP_SYN_def Let_def)
    moreover have "\<nexists>s'. forward_path s2 pkt now = Some (Drop, s')" for s2 pkt now
      by (auto simp: forward_path_def split: bind_splits option.splits)
    ultimately show ?thesis by (auto simp: process_def split_beta Let_def split: bind_splits if_splits)
  qed
  ultimately show ?thesis
    using sample_sim_ok by (metis process_cases)
qed

section \<open>Properties\<close>





end
