(* ===== verification/Health.thy ===== *)
theory Health
  imports Prelude
begin

text \<open>
  Backend health checking (\<^verbatim>\<open>crates/xdp-edge/src/control/health.rs\<close>): the debouncing state
  machine of one backend, the registry, the probe schedule, and the alive set.
\<close>

section \<open>The checker\<close>

datatype health = Unknown | Up | Down

record backend_health =
  bh_state :: health
  bh_last_ok :: "bool option"
  bh_streak :: nat
  bh_last_probe_ns :: nat

record health_checker =
  hc_backends :: "(u32, backend_health) hmap"
  hc_interval_ns :: nat
  hc_fall :: nat
  hc_rise :: nat

definition hc_new :: "nat \<Rightarrow> nat \<Rightarrow> nat \<Rightarrow> health_checker option" where
  "hc_new interval_ns fall rise =
     do { rust_assert (fall \<ge> 1 \<and> rise \<ge> 1);
          Some \<lparr>hc_backends = [], hc_interval_ns = interval_ns, hc_fall = fall, hc_rise = rise\<rparr> }"

definition fresh_health :: backend_health where
  "fresh_health = \<lparr>bh_state = Unknown, bh_last_ok = None, bh_streak = 0, bh_last_probe_ns = u64_max\<rparr>"

definition hc_register :: "health_checker \<Rightarrow> u32 \<Rightarrow> health_checker" where
  "hc_register hc backend = hc\<lparr>hc_backends := hm_insert backend fresh_health (hc_backends hc)\<rparr>"

definition hc_unregister :: "health_checker \<Rightarrow> u32 \<Rightarrow> health_checker" where
  "hc_unregister hc backend = hc\<lparr>hc_backends := hm_remove backend (hc_backends hc)\<rparr>"

definition probe_due :: "health_checker \<Rightarrow> nat \<Rightarrow> backend_health \<Rightarrow> bool" where
  "probe_due hc now h \<longleftrightarrow> bh_last_probe_ns h = u64_max \<or> now - bh_last_probe_ns h \<ge> hc_interval_ns hc"

text \<open>The results are sorted, so the iteration order of the map does not matter.\<close>

definition probes_due :: "health_checker \<Rightarrow> nat \<Rightarrow> u32 list" where
  "probes_due hc now = sort (map fst (filter (\<lambda>(ip, h). probe_due hc now h) (hc_backends hc)))"

definition update_health :: "nat \<Rightarrow> nat \<Rightarrow> backend_health \<Rightarrow> bool \<Rightarrow> nat \<Rightarrow> bool \<times> backend_health" where
  "update_health fall rise h ok now =
     (let streak = (if bh_last_ok h = Some ok then bh_streak h + 1 else 1);
          new = (if ok \<and> streak \<ge> rise then Up else if \<not> ok \<and> streak \<ge> fall then Down else bh_state h);
          h1 = h\<lparr>bh_last_probe_ns := now, bh_streak := streak, bh_last_ok := Some ok\<rparr>
      in if new \<noteq> bh_state h then (True, h1\<lparr>bh_state := new, bh_streak := 0\<rparr>) else (False, h1))"

definition hc_report :: "health_checker \<Rightarrow> u32 \<Rightarrow> bool \<Rightarrow> nat \<Rightarrow> bool \<times> health_checker" where
  "hc_report hc backend ok now =
     (case hm_get (hc_backends hc) backend of
        None \<Rightarrow> (False, hc)
      | Some h \<Rightarrow>
          let (flipped, h') = update_health (hc_fall hc) (hc_rise hc) h ok now in
          (flipped, hc\<lparr>hc_backends := hm_insert backend h' (hc_backends hc)\<rparr>))"

definition alive_backends :: "health_checker \<Rightarrow> u32 list" where
  "alive_backends hc = sort (map fst (filter (\<lambda>(ip, h). bh_state h = Up) (hc_backends hc)))"

definition hc_state :: "health_checker \<Rightarrow> u32 \<Rightarrow> health option" where
  "hc_state hc backend = map_option bh_state (hm_get (hc_backends hc) backend)"

section \<open>The debounced state of a history of results\<close>

text \<open>
  A history lists results newest first. \<open>run_len\<close> is the length of the current run of equal
  results; the debounced state changes when that run is long enough.
\<close>

fun run_len :: "bool list \<Rightarrow> nat" where
  "run_len [] = 0"
| "run_len (ok # h) = (if h \<noteq> [] \<and> hd h = ok then Suc (run_len h) else 1)"

fun debounced :: "nat \<Rightarrow> nat \<Rightarrow> bool list \<Rightarrow> health" where
  "debounced fall rise [] = Unknown"
| "debounced fall rise (ok # h) =
     (if ok \<and> run_len (ok # h) \<ge> rise then Up
      else if \<not> ok \<and> run_len (ok # h) \<ge> fall then Down
      else debounced fall rise h)"

text \<open>
  The stored streak is the length of the current run, unless the state already agrees with the
  run: a flip restarts the count.
\<close>

definition health_tracks :: "nat \<Rightarrow> nat \<Rightarrow> bool list \<Rightarrow> backend_health \<Rightarrow> bool" where
  "health_tracks fall rise hist h \<longleftrightarrow>
     bh_state h = debounced fall rise hist \<and>
     bh_last_ok h = (case hist of [] \<Rightarrow> None | ok # _ \<Rightarrow> Some ok) \<and>
     (bh_streak h = run_len hist \<or>
      (case hist of [] \<Rightarrow> False | ok # _ \<Rightarrow>
         bh_streak h < run_len hist \<and> run_len hist \<ge> (if ok then rise else fall) \<and>
         bh_state h = (if ok then Up else Down)))"

lemma run_len_Suc: "run_len (ok # ok # h) = Suc (run_len (ok # h))"
  by simp

lemma update_health_tracks:
  assumes tr: "health_tracks fall rise hist h" and "1 \<le> fall" and "1 \<le> rise"
  shows "health_tracks fall rise (ok # hist) (snd (update_health fall rise h ok now)) \<and>
    fst (update_health fall rise h ok now) = (debounced fall rise (ok # hist) \<noteq> debounced fall rise hist)"
proof (cases hist)
  case Nil
  with assms show ?thesis
    by (auto simp: health_tracks_def update_health_def Let_def)
next
  case (Cons prev hs)
  show ?thesis
  proof (cases "prev = ok")
    case True
    with tr Cons assms(2,3) show ?thesis
      by (cases ok) (auto simp: health_tracks_def update_health_def Let_def simp del: run_len.simps
          simp: run_len_Suc)
  next
    case False
    with tr Cons assms(2,3) show ?thesis
      by (cases ok) (auto simp: health_tracks_def update_health_def Let_def)
  qed
qed

section \<open>Histories of the checker\<close>

type_synonym probe_result = "u32 \<times> bool \<times> nat"

fun hc_reports :: "health_checker \<Rightarrow> probe_result list \<Rightarrow> health_checker" where
  "hc_reports hc [] = hc"
| "hc_reports hc ((b, ok, now) # evs) = hc_reports (snd (hc_report hc b ok now)) evs"

definition register_all :: "health_checker \<Rightarrow> u32 list \<Rightarrow> health_checker" where
  "register_all hc bs = fold (\<lambda>b hc. hc_register hc b) bs hc"

definition results_of :: "u32 \<Rightarrow> probe_result list \<Rightarrow> bool list" where
  "results_of b evs = rev (map (\<lambda>(_, ok, _). ok) (filter (\<lambda>(b', _). b' = b) evs))"

definition hc_tracks :: "nat \<Rightarrow> nat \<Rightarrow> u32 set \<Rightarrow> (u32 \<Rightarrow> bool list) \<Rightarrow> health_checker \<Rightarrow> bool" where
  "hc_tracks fall rise B hist hc \<longleftrightarrow> hm_wf (hc_backends hc) \<and> hc_fall hc = fall \<and> hc_rise hc = rise \<and>
     dom (hm_get (hc_backends hc)) = B \<and>
     (\<forall>b h. hm_get (hc_backends hc) b = Some h \<longrightarrow> health_tracks fall rise (hist b) h)"

lemma results_of_Cons:
  "results_of b ((b', ok, now) # evs) = results_of b evs @ (if b' = b then [ok] else [])"
  by (simp add: results_of_def)

lemma hc_report_tracks:
  assumes "hc_tracks fall rise B hist hc" and "1 \<le> fall" and "1 \<le> rise"
  shows "hc_tracks fall rise B (hist(b := (if b \<in> B then ok # hist b else hist b))) (snd (hc_report hc b ok now)) \<and>
    fst (hc_report hc b ok now) = (b \<in> B \<and> debounced fall rise (ok # hist b) \<noteq> debounced fall rise (hist b))"
proof (cases "hm_get (hc_backends hc) b")
  case None
  then have "b \<notin> B" using assms(1) by (auto simp: hc_tracks_def)
  with None assms(1) show ?thesis by (simp add: hc_report_def)
next
  case (Some h)
  then have "b \<in> B" "health_tracks fall rise (hist b) h" "hc_fall hc = fall" "hc_rise hc = rise"
    using assms(1) by (auto simp: hc_tracks_def)
  with update_health_tracks [OF this(2) assms(2,3), of ok now] Some assms(1) show ?thesis
    by (auto simp: hc_report_def hc_tracks_def split_beta Let_def dom_def)
qed

lemma register_all_tracks:
  assumes "hc_tracks fall rise B (\<lambda>_. []) hc"
  shows "hc_tracks fall rise (B \<union> set bs) (\<lambda>_. []) (register_all hc bs)"
  using assms
proof (induction bs arbitrary: hc B)
  case Nil
  then show ?case by (simp add: register_all_def)
next
  case (Cons b bs)
  have "hc_tracks fall rise (insert b B) (\<lambda>_. []) (hc_register hc b)"
    using Cons.prems
    by (auto simp: hc_tracks_def hc_register_def health_tracks_def fresh_health_def dom_def)
  from Cons.IH [OF this] show ?case by (simp add: register_all_def)
qed

lemma hc_reports_tracks:
  assumes "hc_tracks fall rise B hist hc" and "1 \<le> fall" and "1 \<le> rise"
  shows "hc_tracks fall rise B (\<lambda>b. if b \<in> B then results_of b evs @ hist b else hist b) (hc_reports hc evs)"
  using assms(1)
proof (induction evs arbitrary: hc hist)
  case Nil
  then show ?case by (simp add: results_of_def cong: if_cong)
next
  case (Cons e evs)
  obtain b ok now where e: "e = (b, ok, now)" by (cases e)
  let ?hist = "hist(b := (if b \<in> B then ok # hist b else hist b))"
  have "hc_tracks fall rise B ?hist (snd (hc_report hc b ok now))"
    using hc_report_tracks [OF Cons.prems assms(2,3)] by blast
  from Cons.IH [OF this] have
    "hc_tracks fall rise B (\<lambda>b'. if b' \<in> B then results_of b' evs @ ?hist b' else ?hist b') (hc_reports hc (e # evs))"
    by (simp add: e)
  moreover have "(\<lambda>b'. if b' \<in> B then results_of b' evs @ ?hist b' else ?hist b') =
    (\<lambda>b'. if b' \<in> B then results_of b' (e # evs) @ hist b' else hist b')"
    by (auto simp: e results_of_Cons)
  ultimately show ?case by (simp only:)
qed

lemma hc_started:
  assumes "1 \<le> fall" and "1 \<le> rise"
  obtains hc where "hc_new interval fall rise = Some hc"
    and "hc_tracks fall rise (set bs) (\<lambda>b. if b \<in> set bs then results_of b evs else [])
      (hc_reports (register_all hc bs) evs)"
proof -
  let ?hc = "\<lparr>hc_backends = [], hc_interval_ns = interval, hc_fall = fall, hc_rise = rise\<rparr>"
  have "hc_tracks fall rise {} (\<lambda>_. []) ?hc" by (simp add: hc_tracks_def)
  from hc_reports_tracks [OF register_all_tracks [OF this, of bs] assms, of evs] assms that [of ?hc]
  show thesis by (simp add: hc_new_def rust_assert_def cong: if_cong)
qed

lemma hc_tracks_state:
  assumes "hc_tracks fall rise B hist hc"
  shows "hc_state hc b = (if b \<in> B then Some (debounced fall rise (hist b)) else None)"
proof (cases "hm_get (hc_backends hc) b")
  case None
  then have "b \<notin> B" using assms by (auto simp: hc_tracks_def)
  with None show ?thesis by (simp add: hc_state_def)
next
  case (Some h)
  then have "b \<in> B" "health_tracks fall rise (hist b) h" using assms by (auto simp: hc_tracks_def)
  with Some show ?thesis by (simp add: hc_state_def health_tracks_def)
qed

lemma alive_backends_set:
  assumes "hc_tracks fall rise B hist hc"
  shows "set (alive_backends hc) = {b \<in> B. debounced fall rise (hist b) = Up}"
    and "sorted (alive_backends hc)" and "distinct (alive_backends hc)"
proof -
  have wf: "hm_wf (hc_backends hc)" using assms by (simp add: hc_tracks_def)
  have "b \<in> set (alive_backends hc) \<longleftrightarrow> (\<exists>h. hm_get (hc_backends hc) b = Some h \<and> bh_state h = Up)" for b
    using hm_get_mem [OF wf, of b] by (force simp: alive_backends_def image_iff)
  with assms show "set (alive_backends hc) = {b \<in> B. debounced fall rise (hist b) = Up}"
    by (force simp: hc_tracks_def health_tracks_def)
  show "sorted (alive_backends hc)" by (simp add: alive_backends_def)
  have "distinct (map fst (filter (\<lambda>(ip, h). bh_state h = Up) (hc_backends hc)))"
    using wf by (simp add: hm_wf_def distinct_map_filter)
  then show "distinct (alive_backends hc)" by (simp add: alive_backends_def)
qed

text \<open>A run of at least \<open>n\<close> equal results, in terms of the newest \<open>n\<close> results.\<close>

lemma run_len_iff:
  "0 < n \<Longrightarrow> n \<le> run_len (ok # h) \<longleftrightarrow> take n (ok # h) = replicate n ok"
proof (induction h arbitrary: n ok)
  case Nil
  then show ?case by (cases n) (auto simp: replicate_eq_replicate split: nat.splits)
next
  case (Cons x h)
  then obtain m where n: "n = Suc m" by (cases n) auto
  show ?case
  proof (cases "m = 0")
    case True
    then show ?thesis by (simp add: n)
  next
    case False
    with Cons.IH [of m x] show ?thesis by (cases m) (auto simp: n)
  qed
qed

lemma debounced_flip:
  assumes "debounced fall rise (ok # h) \<noteq> debounced fall rise h" and "1 \<le> fall" and "1 \<le> rise"
  shows "let n = (if ok then rise else fall) in
    debounced fall rise (ok # h) = (if ok then Up else Down) \<and> take n (ok # h) = replicate n ok"
proof -
  have "(if ok then rise else fall) \<le> run_len (ok # h) \<and>
      debounced fall rise (ok # h) = (if ok then Up else Down)"
    using assms(1) by (auto split: if_splits)
  with assms(2,3) run_len_iff [of "if ok then rise else fall" ok h] show ?thesis
    by (auto simp: Let_def)
qed

lemma debounced_run:
  assumes "1 \<le> fall" and "1 \<le> rise" and "take (if ok then rise else fall) (ok # h) = replicate (if ok then rise else fall) ok"
  shows "debounced fall rise (ok # h) = (if ok then Up else Down)"
  using assms run_len_iff [of "if ok then rise else fall" ok h] by (auto split: if_splits)

text \<open>
  A report flips the state of a backend only when the newest results, this one included,
  are \<open>rise\<close> successes (then to up) or \<open>fall\<close> failures (then to down): shorter bursts of either
  kind never change the alive set.
\<close>

lemma health_flips_on_full_runs:
  assumes "1 \<le> fall" and "1 \<le> rise"
  shows "\<exists>hc. hc_new interval fall rise = Some hc \<and>
    (let hc' = hc_reports (register_all hc bs) evs; n = (if ok then rise else fall) in
      fst (hc_report hc' b ok now) \<longrightarrow>
        take n (ok # results_of b evs) = replicate n ok \<and>
        hc_state (snd (hc_report hc' b ok now)) b = Some (if ok then Up else Down))"
proof -
  from hc_started [OF assms, of interval bs evs] obtain hc where hc: "hc_new interval fall rise = Some hc"
    "hc_tracks fall rise (set bs) (\<lambda>b. if b \<in> set bs then results_of b evs else [])
      (hc_reports (register_all hc bs) evs)" by blast
  let ?hc = "hc_reports (register_all hc bs) evs"
  have "take (if ok then rise else fall) (ok # results_of b evs) = replicate (if ok then rise else fall) ok \<and>
      hc_state (snd (hc_report ?hc b ok now)) b = Some (if ok then Up else Down)"
    if "fst (hc_report ?hc b ok now)"
  proof -
    note tr = hc_report_tracks [OF hc(2) assms, of b ok now]
    have b: "b \<in> set bs" using tr that by blast
    then have flip: "debounced fall rise (ok # results_of b evs) \<noteq> debounced fall rise (results_of b evs)"
      using tr that by (simp del: debounced.simps)
    have "hc_state (snd (hc_report ?hc b ok now)) b = Some (debounced fall rise (ok # results_of b evs))"
      using hc_tracks_state [OF conjunct1 [OF tr], of b] b by (simp del: debounced.simps)
    with debounced_flip [OF flip assms] show ?thesis by (simp add: Let_def)
  qed
  with hc(1) show ?thesis by (auto simp: Let_def)
qed

section \<open>Properties\<close>

text \<open>
  C18. After any interleaving of probe results, the state of every registered backend is the
  debounced state of its own results alone, and the alive set handed to the look-up table is
  exactly the sorted list, without duplicates, of the registered backends whose debounced state is
  up. In particular a backend is down as soon as its last \<open>fall\<close> results are failures.
\<close>

theorem health_is_debounced:
  assumes "1 \<le> fall" and "1 \<le> rise"
  shows "\<exists>hc. hc_new interval fall rise = Some hc \<and>
    (let hc' = hc_reports (register_all hc bs) evs in
      (\<forall>b. hc_state hc' b = (if b \<in> set bs then Some (debounced fall rise (results_of b evs)) else None)) \<and>
      set (alive_backends hc') = {b. b \<in> set bs \<and> debounced fall rise (results_of b evs) = Up} \<and>
      sorted (alive_backends hc') \<and> distinct (alive_backends hc') \<and>
      (\<forall>b. b \<in> set bs \<and> take fall (results_of b evs) = replicate fall False \<longrightarrow> hc_state hc' b = Some Down))"
proof -
  from hc_started [OF assms, of interval bs evs] obtain hc where hc: "hc_new interval fall rise = Some hc"
    "hc_tracks fall rise (set bs) (\<lambda>b. if b \<in> set bs then results_of b evs else [])
      (hc_reports (register_all hc bs) evs)" by blast
  let ?hc = "hc_reports (register_all hc bs) evs"
  have st: "hc_state ?hc b = (if b \<in> set bs then Some (debounced fall rise (results_of b evs)) else None)" for b
    using hc_tracks_state [OF hc(2), of b] by simp
  moreover have "debounced fall rise (results_of b evs) = Down"
    if "take fall (results_of b evs) = replicate fall False" for b
  proof (cases "results_of b evs")
    case Nil
    with that assms(1) show ?thesis by simp
  next
    case (Cons ok h)
    moreover have "\<not> ok" using that assms(1) Cons by (cases fall) auto
    ultimately show ?thesis using that debounced_run [OF assms, of False h] by simp
  qed
  ultimately show ?thesis
    using hc(1) alive_backends_set [OF hc(2)] by (auto simp: Let_def)
qed

theorem health_is_debounced_witness:
  "\<exists>hc. hc_new 10 2 1 = Some hc \<and>
     set (alive_backends (hc_reports (register_all hc [5, 6]) [(5, True, 0), (6, True, 1), (5, False, 2), (5, False, 3)])) = {6}"
proof -
  from health_is_debounced [of 2 1 10 "[5, 6]" "[(5, True, 0), (6, True, 1), (5, False, 2), (5, False, 3)]"]
  obtain hc where "hc_new 10 2 1 = Some hc"
    "set (alive_backends (hc_reports (register_all hc [5, 6]) [(5, True, 0), (6, True, 1), (5, False, 2), (5, False, 3)])) =
      {b. b \<in> set [5, 6] \<and> debounced 2 1 (results_of b [(5, True, 0), (6, True, 1), (5, False, 2), (5, False, 3)]) = Up}"
    by (auto simp: Let_def)
  then show ?thesis by (auto simp: results_of_def)
qed

end
