(* ===== verification/Lut_Publish.thy ===== *)
theory Lut_Publish
  imports Maglev
begin

text \<open>
  Hot publication of the look-up table (\<^verbatim>\<open>crates/xdp-edge/src/control/lut_publish.rs\<close>): two
  buffers, an active index, reader counts, one writer and any number of readers. The methods
  are modelled twice: as the sequential functions the control agent calls, and as a step
  machine in which every atomic operation (and every write of a buffer) of the writer and of
  each reader is one step. Steps interleave arbitrarily; memory is sequentially consistent,
  which the acquire/release orderings of the source provide for this protocol.
\<close>

section \<open>Snapshots\<close>

record lut_snapshot =
  sn_version :: nat
  sn_backends :: "u32 list"
  sn_table :: "u32 list"

definition sn_lookup :: "lut_snapshot \<Rightarrow> u64 \<Rightarrow> u32 option" where
  "sn_lookup sn flow_key =
     do { rust_assert (of_nat (length (sn_table sn)) \<noteq> (0 :: u64));
          v \<leftarrow> vec_get (sn_table sn) (unat (flow_key mod of_nat (length (sn_table sn))));
          vec_get (sn_backends sn) (unat v) }"

definition sn_ok :: "lut_snapshot \<Rightarrow> bool" where
  "sn_ok sn \<longleftrightarrow> sn_table sn \<noteq> [] \<and> length (sn_table sn) \<le> u32_max \<and>
     lut_ok (length (sn_table sn)) (sn_backends sn) (sn_table sn)"

interpretation sn: backend_table sn_ok sn_backends sn_lookup
proof
  fix sn k assume ok: "sn_ok sn"
  then have "(of_nat (length (sn_table sn)) :: u64) \<noteq> 0"
    using unat_of_nat_u64 [of "length (sn_table sn)"] by (auto simp: sn_ok_def)
  with ok show "\<exists>b \<in> set (sn_backends sn). sn_lookup sn k = Some b"
    using lut_pick [of "length (sn_table sn)" "sn_backends sn" "sn_table sn" k]
    by (auto simp: sn_lookup_def sn_ok_def rust_assert_def)
qed

section \<open>The publisher, sequentially\<close>

record lut_publisher =
  lp_m :: nat
  lp_backends :: "u32 list list"
  lp_tables :: "u32 list list"
  lp_readers :: "nat list"
  lp_active :: nat
  lp_version :: nat

definition lp_new :: "nat \<Rightarrow> u32 list \<Rightarrow> lut_publisher option" where
  "lp_new m initial_backends =
     do { table \<leftarrow> build_lut m initial_backends;
          Some \<lparr>lp_m = m, lp_backends = [initial_backends, []], lp_tables = [table, replicate m EMPTY],
                lp_readers = [0, 0], lp_active = 0, lp_version = 1\<rparr> }"

text \<open>
  \<open>publish\<close> spins while the shadow buffer has readers. Run alone it either passes the spin at once
  or never returns, which is \<^term>\<open>None\<close>.
\<close>

definition lp_publish :: "lut_publisher \<Rightarrow> u32 list \<Rightarrow> (nat \<times> lut_publisher) option" where
  "lp_publish lp backends =
     (let shadow = 1 - lp_active lp in
      if lp_readers lp ! shadow \<noteq> 0 then None
      else do { table \<leftarrow> build_lut (lp_m lp) backends;
                let lp1 = lp\<lparr>lp_tables := (lp_tables lp)[shadow := table],
                             lp_backends := (lp_backends lp)[shadow := backends],
                             lp_version := lp_version lp + 1,
                             lp_active := shadow\<rparr> in
                Some (lp_version lp + 1, lp1) })"

definition lp_snapshot :: "lut_publisher \<Rightarrow> lut_snapshot \<times> lut_publisher" where
  "lp_snapshot lp =
     (let idx = lp_active lp in
      (\<lparr>sn_version = lp_version lp, sn_backends = lp_backends lp ! idx, sn_table = lp_tables lp ! idx\<rparr>,
       lp\<lparr>lp_readers := (lp_readers lp)[idx := lp_readers lp ! idx + 1]\<rparr>))"

section \<open>The publisher, step by step\<close>

text \<open>
  Where the writer and a reader are in \<open>publish\<close> and \<open>snapshot\<close>, with their local variables.
  \<open>Holding\<close> is a reader that owns a snapshot; its lists are what the references showed when they
  were taken.
\<close>

datatype writer_pc =
    WIdle
  | WSpin "u32 list" nat
  | WBuilt "u32 list" "u32 list" nat
  | WTable "u32 list" nat
  | WBuffers nat
  | WVersioned nat nat

datatype reader_pc =
    RIdle
  | RStart
  | RLoaded nat
  | RCounted nat
  | RRetry nat
  | RChecked nat
  | Holding nat lut_snapshot

record lp_state =
  ls_pub :: lut_publisher
  ls_writer :: writer_pc
  ls_reader :: "reader_pc list"

datatype lp_action = APublish "u32 list" | AWriter | ASnapshot nat | AReader nat | ADrop nat

fun writer_step :: "lut_publisher \<Rightarrow> writer_pc \<Rightarrow> (lut_publisher \<times> writer_pc) option" where
  "writer_step lp WIdle = None"
| "writer_step lp (WSpin bs shadow) =
     (if lp_readers lp ! shadow \<noteq> 0 then Some (lp, WSpin bs shadow)
      else map_option (\<lambda>table. (lp, WBuilt bs table shadow)) (build_lut (lp_m lp) bs))"
| "writer_step lp (WBuilt bs table shadow) =
     Some (lp\<lparr>lp_tables := (lp_tables lp)[shadow := table]\<rparr>, WTable bs shadow)"
| "writer_step lp (WTable bs shadow) =
     Some (lp\<lparr>lp_backends := (lp_backends lp)[shadow := bs]\<rparr>, WBuffers shadow)"
| "writer_step lp (WBuffers shadow) =
     Some (lp\<lparr>lp_version := lp_version lp + 1\<rparr>, WVersioned (lp_version lp + 1) shadow)"
| "writer_step lp (WVersioned ver shadow) = Some (lp\<lparr>lp_active := shadow\<rparr>, WIdle)"

definition bump_readers :: "lut_publisher \<Rightarrow> nat \<Rightarrow> (nat \<Rightarrow> nat) \<Rightarrow> lut_publisher" where
  "bump_readers lp idx f = lp\<lparr>lp_readers := (lp_readers lp)[idx := f (lp_readers lp ! idx)]\<rparr>"

fun reader_step :: "lut_publisher \<Rightarrow> reader_pc \<Rightarrow> (lut_publisher \<times> reader_pc) option" where
  "reader_step lp RIdle = None"
| "reader_step lp RStart = Some (lp, RLoaded (lp_active lp))"
| "reader_step lp (RLoaded idx) = Some (bump_readers lp idx (\<lambda>n. n + 1), RCounted idx)"
| "reader_step lp (RCounted idx) = Some (lp, if lp_active lp = idx then RChecked idx else RRetry idx)"
| "reader_step lp (RRetry idx) = Some (bump_readers lp idx (\<lambda>n. n - 1), RStart)"
| "reader_step lp (RChecked idx) =
     Some (lp, Holding idx \<lparr>sn_version = lp_version lp, sn_backends = lp_backends lp ! idx,
                            sn_table = lp_tables lp ! idx\<rparr>)"
| "reader_step lp (Holding idx sn) = None"

fun lp_step :: "lp_state \<Rightarrow> lp_action \<Rightarrow> lp_state option" where
  "lp_step s (APublish bs) =
     (case ls_writer s of
        WIdle \<Rightarrow> Some (s\<lparr>ls_writer := WSpin bs (1 - lp_active (ls_pub s))\<rparr>)
      | _ \<Rightarrow> None)"
| "lp_step s AWriter =
     (case writer_step (ls_pub s) (ls_writer s) of
        None \<Rightarrow> None
      | Some (lp, w) \<Rightarrow> Some (s\<lparr>ls_pub := lp, ls_writer := w\<rparr>))"
| "lp_step s (ASnapshot i) =
     (if i < length (ls_reader s) \<and> ls_reader s ! i = RIdle
      then Some (s\<lparr>ls_reader := (ls_reader s)[i := RStart]\<rparr>)
      else None)"
| "lp_step s (AReader i) =
     (if i < length (ls_reader s)
      then case reader_step (ls_pub s) (ls_reader s ! i) of
             None \<Rightarrow> None
           | Some (lp, r) \<Rightarrow> Some (s\<lparr>ls_pub := lp, ls_reader := (ls_reader s)[i := r]\<rparr>)
      else None)"
| "lp_step s (ADrop i) =
     (if i < length (ls_reader s)
      then case ls_reader s ! i of
             Holding idx sn \<Rightarrow>
               Some (s\<lparr>ls_pub := bump_readers (ls_pub s) idx (\<lambda>n. n - 1), ls_reader := (ls_reader s)[i := RIdle]\<rparr>)
           | _ \<Rightarrow> None
      else None)"

definition lp_start :: "nat \<Rightarrow> u32 list \<Rightarrow> lp_state \<Rightarrow> bool" where
  "lp_start m bs s \<longleftrightarrow> lp_new m bs = Some (ls_pub s) \<and> ls_writer s = WIdle \<and> set (ls_reader s) \<subseteq> {RIdle}"

section \<open>The invariant of the protocol\<close>

text \<open>A buffer is complete when its table is the table of its backends.\<close>

definition complete :: "lut_publisher \<Rightarrow> nat \<Rightarrow> bool" where
  "complete lp i \<longleftrightarrow> build_lut (lp_m lp) (lp_backends lp ! i) = Some (lp_tables lp ! i)"

fun writes :: "writer_pc \<Rightarrow> nat option" where
  "writes WIdle = None"
| "writes (WSpin bs sh) = None"
| "writes (WBuilt bs tb sh) = Some sh"
| "writes (WTable bs sh) = Some sh"
| "writes (WBuffers sh) = Some sh"
| "writes (WVersioned v sh) = Some sh"

fun writer_ok :: "lut_publisher \<Rightarrow> writer_pc \<Rightarrow> bool" where
  "writer_ok lp WIdle = True"
| "writer_ok lp (WSpin bs sh) = (sh = 1 - lp_active lp)"
| "writer_ok lp (WBuilt bs tb sh) = (sh = 1 - lp_active lp \<and> build_lut (lp_m lp) bs = Some tb)"
| "writer_ok lp (WTable bs sh) = (sh = 1 - lp_active lp \<and> build_lut (lp_m lp) bs = Some (lp_tables lp ! sh))"
| "writer_ok lp (WBuffers sh) = (sh = 1 - lp_active lp \<and> complete lp sh)"
| "writer_ok lp (WVersioned v sh) = (sh = 1 - lp_active lp \<and> complete lp sh)"

fun counted :: "nat \<Rightarrow> reader_pc \<Rightarrow> bool" where
  "counted i (RCounted j) = (i = j)"
| "counted i (RRetry j) = (i = j)"
| "counted i (RChecked j) = (i = j)"
| "counted i (Holding j sn) = (i = j)"
| "counted i _ = False"

fun reader_ok :: "lut_publisher \<Rightarrow> writer_pc \<Rightarrow> reader_pc \<Rightarrow> bool" where
  "reader_ok lp w RIdle = True"
| "reader_ok lp w RStart = True"
| "reader_ok lp w (RLoaded i) = (i < 2)"
| "reader_ok lp w (RCounted i) = (i < 2)"
| "reader_ok lp w (RRetry i) = (i < 2)"
| "reader_ok lp w (RChecked i) = (i < 2 \<and> complete lp i \<and> writes w \<noteq> Some i)"
| "reader_ok lp w (Holding i sn) =
     (i < 2 \<and> complete lp i \<and> writes w \<noteq> Some i \<and> sn_backends sn = lp_backends lp ! i \<and> sn_table sn = lp_tables lp ! i)"

definition buffers_ok :: "lut_publisher \<Rightarrow> bool" where
  "buffers_ok lp \<longleftrightarrow> length (lp_backends lp) = 2 \<and> length (lp_tables lp) = 2 \<and> length (lp_readers lp) = 2 \<and>
     lp_active lp < 2 \<and> complete lp (lp_active lp)"

definition counts_ok :: "lut_publisher \<Rightarrow> reader_pc list \<Rightarrow> bool" where
  "counts_ok lp rs \<longleftrightarrow> (\<forall>i < 2. lp_readers lp ! i = length (filter (counted i) rs))"

definition lp_inv :: "lp_state \<Rightarrow> bool" where
  "lp_inv s \<longleftrightarrow> buffers_ok (ls_pub s) \<and> writer_ok (ls_pub s) (ls_writer s) \<and>
     (\<forall>r \<in> set (ls_reader s). reader_ok (ls_pub s) (ls_writer s) r) \<and> counts_ok (ls_pub s) (ls_reader s)"

lemma shadow_not_active [simp]: "Suc 0 - a \<noteq> a" "a \<noteq> Suc 0 - a"
  by arith+

text \<open>The writer passes its spin only when no reader is counted on the shadow buffer.\<close>

lemma writer_step_inv:
  assumes buf: "buffers_ok lp" and w: "writer_ok lp w" and rs: "\<forall>r \<in> set rs. reader_ok lp w r"
    and cnt: "counts_ok lp rs" and step: "writer_step lp w = Some (lp', w')"
  shows "buffers_ok lp' \<and> writer_ok lp' w' \<and> (\<forall>r \<in> set rs. reader_ok lp' w' r) \<and> counts_ok lp' rs"
proof (cases w)
  case WIdle
  with step show ?thesis by simp
next
  case (WSpin bs sh)
  have sh: "sh = 1 - lp_active lp" "sh < 2" using WSpin w by simp_all
  show ?thesis
  proof (cases "lp_readers lp ! sh = 0")
    case False
    with WSpin step assms show ?thesis by simp
  next
    case True
    with cnt sh(2) have none: "\<forall>r \<in> set rs. \<not> counted sh r"
      by (auto simp: counts_ok_def filter_empty_conv)
    from True WSpin step obtain tb where tb: "build_lut (lp_m lp) bs = Some tb" "lp' = lp" "w' = WBuilt bs tb sh"
      by auto
    have "reader_ok lp (WBuilt bs tb sh) r" if "r \<in> set rs" for r
      using none [rule_format, OF that] rs [rule_format, OF that] by (cases r) auto
    with tb sh buf cnt show ?thesis by auto
  qed
next
  case (WBuilt bs tb sh)
  have "sh < 2" "sh \<noteq> lp_active lp" using WBuilt w buf by (auto simp: buffers_ok_def)
  moreover have "reader_ok lp' w' r" if "r \<in> set rs" for r
    using rs [rule_format, OF that] WBuilt step by (cases r) (auto simp: complete_def)
  ultimately show ?thesis using WBuilt step buf w cnt
    by (auto simp: buffers_ok_def complete_def counts_ok_def)
next
  case (WTable bs sh)
  have "sh < 2" "sh \<noteq> lp_active lp" using WTable w buf by (auto simp: buffers_ok_def)
  moreover have "reader_ok lp' w' r" if "r \<in> set rs" for r
    using rs [rule_format, OF that] WTable step by (cases r) (auto simp: complete_def)
  ultimately show ?thesis using WTable step buf w cnt
    by (auto simp: buffers_ok_def complete_def counts_ok_def)
next
  case (WBuffers sh)
  have "reader_ok lp' w' r" if "r \<in> set rs" for r
    using rs [rule_format, OF that] WBuffers step by (cases r) (auto simp: complete_def)
  then show ?thesis using WBuffers step buf w cnt
    by (auto simp: buffers_ok_def complete_def counts_ok_def)
next
  case (WVersioned v sh)
  have "reader_ok lp' w' r" if "r \<in> set rs" for r
    using rs [rule_format, OF that] WVersioned step by (cases r) (auto simp: complete_def)
  then show ?thesis using WVersioned step buf w cnt
    by (auto simp: buffers_ok_def complete_def counts_ok_def)
qed

lemma counted_update:
  assumes "i < length rs"
  shows "length (filter P (rs[i := r])) + of_bool (P (rs ! i)) = length (filter P rs) + of_bool (P r)"
  using assms
proof (induction rs arbitrary: i)
  case (Cons x rs)
  then show ?case by (cases i) auto
qed simp

lemma reader_ok_readers [simp]:
  "reader_ok (lp\<lparr>lp_readers := rc\<rparr>) w r = reader_ok lp w r"
  "writer_ok (lp\<lparr>lp_readers := rc\<rparr>) w = writer_ok lp w"
  by (cases r; simp add: complete_def) (cases w; simp add: complete_def)

lemma counts_ok_update:
  assumes "counts_ok lp rs" and "length (lp_readers lp) = 2" and "i < length rs" and "j < 2"
    and "\<forall>k. k \<noteq> j \<longrightarrow> counted k r = counted k (rs ! i)"
    and "f (lp_readers lp ! j) + of_bool (counted j (rs ! i)) = lp_readers lp ! j + of_bool (counted j r)"
  shows "counts_ok (bump_readers lp j f) (rs[i := r])"
proof -
  have "(lp_readers lp)[j := f (lp_readers lp ! j)] ! k = length (filter (counted k) (rs[i := r]))"
    if "k < 2" for k
    using counted_update [OF assms(3), of "counted k" r] assms that
    by (cases "k = j") (auto simp: counts_ok_def nth_list_update)
  then show ?thesis by (simp add: counts_ok_def bump_readers_def)
qed

lemma counts_ok_same:
  assumes "counts_ok lp rs" and "i < length rs" and "\<forall>k. counted k r = counted k (rs ! i)"
  shows "counts_ok lp (rs[i := r])"
  using assms counted_update [OF assms(2), of "counted _" r] by (auto simp: counts_ok_def)

lemma reader_counted_pos:
  assumes "counts_ok lp rs" and "i < length rs" and "counted j (rs ! i)" and "j < 2"
  shows "0 < lp_readers lp ! j"
proof -
  have "rs ! i \<in> set (filter (counted j) rs)" using assms(2,3) by simp
  then have "0 < length (filter (counted j) rs)" by (simp only: length_pos_if_in_set)
  with assms(1,4) show ?thesis by (simp add: counts_ok_def)
qed

lemma reader_step_inv:
  assumes buf: "buffers_ok lp" and w: "writer_ok lp w" and rs: "\<forall>r \<in> set rs. reader_ok lp w r"
    and cnt: "counts_ok lp rs" and i: "i < length rs" and step: "reader_step lp (rs ! i) = Some (lp', r')"
  shows "buffers_ok lp' \<and> writer_ok lp' w \<and> (\<forall>r \<in> set (rs[i := r']). reader_ok lp' w r) \<and> counts_ok lp' (rs[i := r'])"
proof -
  have len: "length (lp_readers lp) = 2" using buf by (simp add: buffers_ok_def)
  have ri: "reader_ok lp w (rs ! i)" using rs i by auto
  have upd: "\<forall>r \<in> set (rs[i := r']). reader_ok lp w r" if "reader_ok lp w r'"
    using that rs set_update_subset_insert [of rs i r'] by auto
  have act: "writes w \<noteq> Some (lp_active lp)"
    using w buf by (cases w) (auto simp: buffers_ok_def)
  note same = counts_ok_same [OF cnt i] and update = counts_ok_update [OF cnt len i]
  show ?thesis
  proof (cases "rs ! i")
    case RIdle
    with step show ?thesis by simp
  next
    case RStart
    with step buf w upd same show ?thesis by (auto simp: buffers_ok_def)
  next
    case (RLoaded j)
    with step buf w upd ri update [of j r' "\<lambda>n. n + 1"] show ?thesis
      by (auto simp: buffers_ok_def bump_readers_def complete_def)
  next
    case (RCounted j)
    with step buf ri act have "reader_ok lp w r'" by (auto simp: buffers_ok_def)
    with RCounted step buf w upd same show ?thesis by (auto simp: buffers_ok_def)
  next
    case (RRetry j)
    with reader_counted_pos [OF cnt i, of j] ri have "0 < lp_readers lp ! j" by simp
    with RRetry step buf w upd ri update [of j r' "\<lambda>n. n - 1"] show ?thesis
      by (auto simp: buffers_ok_def bump_readers_def complete_def)
  next
    case (RChecked j)
    with step buf w upd ri same show ?thesis
      by (auto simp: buffers_ok_def)
  next
    case (Holding j sn)
    with step show ?thesis by simp
  qed
qed

lemma drop_step_inv:
  assumes buf: "buffers_ok lp" and w: "writer_ok lp w" and rs: "\<forall>r \<in> set rs. reader_ok lp w r"
    and cnt: "counts_ok lp rs" and i: "i < length rs" and hold: "rs ! i = Holding j sn"
  shows "buffers_ok (bump_readers lp j (\<lambda>n. n - 1)) \<and> writer_ok (bump_readers lp j (\<lambda>n. n - 1)) w \<and>
    (\<forall>r \<in> set (rs[i := RIdle]). reader_ok (bump_readers lp j (\<lambda>n. n - 1)) w r) \<and>
    counts_ok (bump_readers lp j (\<lambda>n. n - 1)) (rs[i := RIdle])"
proof -
  have len: "length (lp_readers lp) = 2" using buf by (simp add: buffers_ok_def)
  have j: "j < 2" using rs i hold by (metis nth_mem reader_ok.simps(7))
  have "0 < lp_readers lp ! j" using reader_counted_pos [OF cnt i, of j] hold j by simp
  then have "counts_ok (bump_readers lp j (\<lambda>n. n - 1)) (rs[i := RIdle])"
    using counts_ok_update [OF cnt len i j, of RIdle "\<lambda>n. n - 1"] hold by simp
  moreover have "\<forall>r \<in> set (rs[i := RIdle]). reader_ok lp w r"
    using rs set_update_subset_insert [of rs i RIdle] by auto
  ultimately show ?thesis
    using buf w by (auto simp: buffers_ok_def bump_readers_def complete_def)
qed

interpretation lp: safe_machine "\<lambda>s. \<exists>m bs. lp_start m bs s" lp_step lp_inv
proof
  fix s assume "\<exists>m bs. lp_start m bs s"
  then obtain m bs tb where "ls_pub s = \<lparr>lp_m = m, lp_backends = [bs, []], lp_tables = [tb, replicate m EMPTY],
      lp_readers = [0, 0], lp_active = 0, lp_version = 1\<rparr>" and "build_lut m bs = Some tb"
    and "ls_writer s = WIdle" and idle: "set (ls_reader s) \<subseteq> {RIdle}"
    by (auto simp: lp_start_def lp_new_def eq_commute [of _ "ls_pub s"] split: bind_splits)
  moreover have "filter (counted i) (ls_reader s) = []" for i
    using idle by (auto simp: filter_empty_conv)
  moreover have "reader_ok lp w r" if "r \<in> set (ls_reader s)" for lp w r
    using idle that by auto
  ultimately show "lp_inv s"
    by (simp add: lp_inv_def buffers_ok_def complete_def counts_ok_def nth_Cons')
next
  fix s a s' assume inv: "lp_inv s" and step: "lp_step s a = Some s'"
  show "lp_inv s'"
  proof (cases a)
    case (APublish bs)
    have "reader_ok (ls_pub s) (WSpin bs sh) r" if "reader_ok (ls_pub s) WIdle r" for r sh
      using that by (cases r) auto
    with APublish inv step show ?thesis
      by (auto simp: lp_inv_def split: writer_pc.splits)
  next
    case AWriter
    with inv step writer_step_inv [of "ls_pub s" "ls_writer s" "ls_reader s"] show ?thesis
      by (auto simp: lp_inv_def split: option.splits)
  next
    case (ASnapshot i)
    with inv step counts_ok_same [of "ls_pub s" "ls_reader s" i RStart] show ?thesis
      using set_update_subset_insert [of "ls_reader s" i RStart]
      by (auto simp: lp_inv_def split: if_splits)
  next
    case (AReader i)
    with inv step reader_step_inv [of "ls_pub s" "ls_writer s" "ls_reader s" i] show ?thesis
      by (auto simp: lp_inv_def split: option.splits if_splits)
  next
    case (ADrop i)
    with inv step drop_step_inv [of "ls_pub s" "ls_writer s" "ls_reader s" i] show ?thesis
      by (auto simp: lp_inv_def split: reader_pc.splits if_splits)
  qed
qed

section \<open>Properties\<close>


lemma sample_lut: "\<exists>tb. build_lut 2 [b] = Some tb"
proof -
  have "is_prime 2" by (simp add: is_prime_def prime_loop.simps)
  with build_lut_total [of 2 "[b]"] show ?thesis by auto
qed


text \<open>
  C33. The version of a snapshot need not be the version of its table: a reader that runs between
  the writer's increment of the version and its flip of the active index gets the new
  version number together with the old backends and the old table.
\<close>

theorem snapshot_version_runs_ahead:
  assumes "lp_new m bs1 = Some lp" and "build_lut m bs2 = Some tb"
  shows "\<exists>s sn. run_steps lp_step \<lparr>ls_pub = lp, ls_writer = WIdle, ls_reader = [RIdle]\<rparr>
      [APublish bs2, AWriter, AWriter, AWriter, AWriter, ASnapshot 0, AReader 0, AReader 0, AReader 0, AReader 0] = Some s \<and>
    ls_reader s = [Holding 0 sn] \<and> sn_version sn = lp_version lp + 1 \<and>
    sn_backends sn = bs1 \<and> build_lut m bs1 = Some (sn_table sn) \<and>
    ls_writer s = WVersioned (sn_version sn) 1"
  using assms by (auto simp: lp_new_def bump_readers_def split: bind_splits)

theorem snapshot_version_runs_ahead_witness:
  "\<exists>lp tb s sn. lp_new 2 [7] = Some lp \<and> build_lut 2 [8] = Some tb \<and>
     run_steps lp_step \<lparr>ls_pub = lp, ls_writer = WIdle, ls_reader = [RIdle]\<rparr>
      [APublish [8], AWriter, AWriter, AWriter, AWriter, ASnapshot 0, AReader 0, AReader 0, AReader 0, AReader 0] = Some s \<and>
     ls_reader s = [Holding 0 sn] \<and> sn_backends sn = [7] \<and> ls_writer s = WVersioned (sn_version sn) 1"
proof -
  obtain t7 t8 where t: "build_lut 2 [7] = Some t7" "build_lut 2 [8] = Some t8" using sample_lut by metis
  then obtain lp where lp: "lp_new 2 [7] = Some lp" by (simp add: lp_new_def)
  from snapshot_version_runs_ahead [OF lp t(2)] lp t(2) show ?thesis by blast
qed



end
