(* ===== verification/Control_Agent.thy ===== *)
theory Control_Agent
  imports Conntrack Health Lut_Publish
begin

text \<open>
  The control plane (\<^verbatim>\<open>crates/xdp-edge/src/control/sweeper.rs\<close>, \<^verbatim>\<open>control/agent.rs\<close>): the
  periodic sweep of the connection table, and the agent that turns probe results into published
  look-up tables. It composes \<^verbatim>\<open>Conntrack\<close>, \<^verbatim>\<open>Health\<close> and \<^verbatim>\<open>Lut_Publish\<close>.
\<close>

section \<open>The sweeper\<close>

record sweeper =
  sw_interval_ns :: nat
  sw_next_run_ns :: nat
  sw_total_swept :: nat
  sw_rounds :: nat

definition sw_new :: "nat \<Rightarrow> sweeper" where
  "sw_new interval_ns = \<lparr>sw_interval_ns = interval_ns, sw_next_run_ns = interval_ns, sw_total_swept = 0, sw_rounds = 0\<rparr>"

definition sw_tick :: "((five_tuple, nat) hmap \<Rightarrow> nat list) \<Rightarrow> sweeper \<Rightarrow> conn_track \<Rightarrow> nat \<Rightarrow>
    (nat option \<times> sweeper \<times> conn_track) option" where
  "sw_tick iter sw ct now =
     (if now < sw_next_run_ns sw then Some (None, sw, ct)
      else do { (n, ct') \<leftarrow> sweep_expired (iter (ct_map ct)) ct now;
                Some (Some n,
                      sw\<lparr>sw_next_run_ns := now + sw_interval_ns sw, sw_total_swept := sw_total_swept sw + n,
                         sw_rounds := sw_rounds sw + 1\<rparr>, ct') })"

section \<open>The agent\<close>

record agent_config =
  ac_probe_interval_ns :: nat
  ac_fall :: nat
  ac_rise :: nat
  ac_sweep_interval_ns :: nat
  ac_lut_size :: nat

definition agent_config_default :: agent_config where
  "agent_config_default =
     \<lparr>ac_probe_interval_ns = 1000000000, ac_fall = 3, ac_rise = 2,
      ac_sweep_interval_ns = 30000000000, ac_lut_size = 65537\<rparr>"

record control_agent =
  ag_health :: health_checker
  ag_lut :: lut_publisher
  ag_sweeper :: sweeper
  ag_last_published :: "u32 list"
  ag_publish_count :: nat

definition ag_new :: "agent_config \<Rightarrow> u32 list \<Rightarrow> control_agent option" where
  "ag_new cfg backends =
     do { hc \<leftarrow> hc_new (ac_probe_interval_ns cfg) (ac_fall cfg) (ac_rise cfg);
          lut \<leftarrow> lp_new (ac_lut_size cfg) backends;
          Some \<lparr>ag_health = register_all hc backends, ag_lut = lut,
                ag_sweeper = sw_new (ac_sweep_interval_ns cfg),
                ag_last_published = backends, ag_publish_count = 1\<rparr> }"

definition ag_tick :: "((five_tuple, nat) hmap \<Rightarrow> nat list) \<Rightarrow> control_agent \<Rightarrow> conn_track \<Rightarrow> nat \<Rightarrow>
    (u32 list \<times> control_agent \<times> conn_track) option" where
  "ag_tick iter ag ct now =
     do { (r, sw, ct') \<leftarrow> sw_tick iter (ag_sweeper ag) ct now;
          Some (probes_due (ag_health ag) now, ag\<lparr>ag_sweeper := sw\<rparr>, ct') }"

definition report_probe :: "control_agent \<Rightarrow> u32 \<Rightarrow> bool \<Rightarrow> nat \<Rightarrow> (nat option \<times> control_agent) option" where
  "report_probe ag backend ok now =
     (let (flipped, hc) = hc_report (ag_health ag) backend ok now;
          ag1 = ag\<lparr>ag_health := hc\<rparr> in
      if \<not> flipped then Some (None, ag1)
      else let alive = alive_backends hc in
           if alive = [] \<or> alive = ag_last_published ag1 then Some (None, ag1)
           else do { (ver, lut) \<leftarrow> lp_publish (ag_lut ag1) alive;
                     Some (Some ver, ag1\<lparr>ag_lut := lut, ag_last_published := alive,
                                         ag_publish_count := ag_publish_count ag1 + 1\<rparr>) })"

definition ag_alive_backends :: "control_agent \<Rightarrow> u32 list" where
  "ag_alive_backends ag = alive_backends (ag_health ag)"

section \<open>The main loop\<close>

text \<open>
  The resident process alternates ticks and reported probe results, in any order; the data plane
  takes a snapshot of the published table only between calls here, so no reader blocks the
  publisher (\<^verbatim>\<open>Lut_Publish\<close> covers the concurrent readers).
\<close>

datatype agent_event = AgTick nat | AgReport u32 bool nat

fun ag_step :: "((five_tuple, nat) hmap \<Rightarrow> nat list) \<Rightarrow> control_agent \<times> conn_track \<Rightarrow> agent_event \<Rightarrow>
    (control_agent \<times> conn_track) option" where
  "ag_step iter (ag, ct) (AgTick now) =
     do { (due, ag', ct') \<leftarrow> ag_tick iter ag ct now; Some (ag', ct') }"
| "ag_step iter (ag, ct) (AgReport b ok now) =
     do { (ver, ag') \<leftarrow> report_probe ag b ok now; Some (ag', ct) }"

definition reports_in :: "agent_event list \<Rightarrow> probe_result list" where
  "reports_in evs = List.map_filter (\<lambda>e. case e of AgReport b ok now \<Rightarrow> Some (b, ok, now) | AgTick _ \<Rightarrow> None) evs"

section \<open>Invariant\<close>

definition lut_quiet :: "lut_publisher \<Rightarrow> bool" where
  "lut_quiet lp \<longleftrightarrow> buffers_ok lp \<and> lp_readers lp ! 0 = 0 \<and> lp_readers lp ! 1 = 0"

lemma lut_quiet_publish:
  assumes "lut_quiet lp" and "build_lut (lp_m lp) bs = Some tb"
  shows "\<exists>lp'. lp_publish lp bs = Some (lp_version lp + 1, lp') \<and> lut_quiet lp' \<and> lp_m lp' = lp_m lp \<and>
    lp_version lp' = lp_version lp + 1 \<and> lp_backends lp' ! lp_active lp' = bs"
proof -
  have "lp_active lp = 0 \<or> lp_active lp = 1" using assms(1) by (auto simp: lut_quiet_def buffers_ok_def)
  with assms show ?thesis
    by (auto simp: lp_publish_def lut_quiet_def buffers_ok_def complete_def Let_def)
qed

definition agent_inv :: "agent_config \<Rightarrow> u32 list \<Rightarrow> (u32 \<Rightarrow> bool list) \<Rightarrow> control_agent \<Rightarrow> bool" where
  "agent_inv cfg bs hist ag \<longleftrightarrow>
     hc_tracks (ac_fall cfg) (ac_rise cfg) (set bs) hist (ag_health ag) \<and>
     lut_quiet (ag_lut ag) \<and> lp_m (ag_lut ag) = ac_lut_size cfg \<and>
     lp_backends (ag_lut ag) ! lp_active (ag_lut ag) = ag_last_published ag \<and>
     lp_version (ag_lut ag) = ag_publish_count ag \<and>
     (alive_backends (ag_health ag) \<noteq> [] \<longrightarrow> ag_last_published ag = alive_backends (ag_health ag))"

definition agent_config_ok :: "agent_config \<Rightarrow> u32 list \<Rightarrow> bool" where
  "agent_config_ok cfg bs \<longleftrightarrow> 1 \<le> ac_fall cfg \<and> 1 \<le> ac_rise cfg \<and> is_prime (ac_lut_size cfg) \<and>
     ac_lut_size cfg \<le> u32_max \<and> bs \<noteq> [] \<and> length bs \<le> u32_max"

lemma alive_length:
  assumes "hc_tracks fall rise (set bs) hist hc"
  shows "length (alive_backends hc) \<le> length bs"
proof -
  have "length (alive_backends hc) = card (set (alive_backends hc))"
    using alive_backends_set(3) [OF assms] by (simp add: distinct_card)
  also have "\<dots> \<le> card (set bs)" by (rule card_mono) (auto simp: alive_backends_set(1) [OF assms])
  also have "\<dots> \<le> length bs" by (rule card_length)
  finally show ?thesis .
qed

lemma alive_same:
  assumes "hc_tracks fall rise B hist hc" and "hc_tracks fall rise B hist' hc'"
    and "\<forall>b \<in> B. debounced fall rise (hist' b) = debounced fall rise (hist b)"
  shows "alive_backends hc' = alive_backends hc"
proof (rule sorted_distinct_set_unique)
  show "set (alive_backends hc') = set (alive_backends hc)"
    using assms(3) by (auto simp: alive_backends_set(1) [OF assms(1)] alive_backends_set(1) [OF assms(2)])
qed (simp_all add: alive_backends_set(2,3) [OF assms(1)] alive_backends_set(2,3) [OF assms(2)])

lemma report_probe_inv:
  assumes cfg: "agent_config_ok cfg bs" and inv: "agent_inv cfg bs hist ag"
  shows "\<exists>ver ag'. report_probe ag b ok now = Some (ver, ag') \<and>
    agent_inv cfg bs (hist(b := (if b \<in> set bs then ok # hist b else hist b))) ag'"
proof -
  let ?fall = "ac_fall cfg" and ?rise = "ac_rise cfg"
  let ?hist = "hist(b := (if b \<in> set bs then ok # hist b else hist b))"
  obtain flipped hc where rep: "hc_report (ag_health ag) b ok now = (flipped, hc)" by fastforce
  have tr: "hc_tracks ?fall ?rise (set bs) hist (ag_health ag)" using inv by (simp add: agent_inv_def)
  from hc_report_tracks [OF tr, of b ok now] cfg rep have
    tr': "hc_tracks ?fall ?rise (set bs) ?hist hc" and
    fl: "flipped = (b \<in> set bs \<and> debounced ?fall ?rise (ok # hist b) \<noteq> debounced ?fall ?rise (hist b))"
    by (auto simp: agent_config_ok_def)
  show ?thesis
  proof (cases "flipped \<and> alive_backends hc \<noteq> [] \<and> alive_backends hc \<noteq> ag_last_published ag")
    case True
    have m: "lp_m (ag_lut ag) = ac_lut_size cfg" and q: "lut_quiet (ag_lut ag)" using inv by (auto simp: agent_inv_def)
    have "length (alive_backends hc) \<le> u32_max" using alive_length [OF tr'] cfg by (simp add: agent_config_ok_def)
    with build_lut_total [of "lp_m (ag_lut ag)" "alive_backends hc"] cfg True m obtain tb where
      "build_lut (lp_m (ag_lut ag)) (alive_backends hc) = Some tb" by (auto simp: agent_config_ok_def)
    from lut_quiet_publish [OF q this] True inv tr' show ?thesis
      by (auto simp: report_probe_def rep agent_inv_def Let_def)
  next
    case False
    have "alive_backends hc = alive_backends (ag_health ag)" if "\<not> flipped"
      using that fl by (intro alive_same [OF tr tr']) (auto simp del: debounced.simps)
    with False inv tr' show ?thesis
      by (auto simp: report_probe_def rep agent_inv_def Let_def)
  qed
qed

lemma ag_new_inv:
  assumes "agent_config_ok cfg bs"
  shows "\<exists>ag. ag_new cfg bs = Some ag \<and> agent_inv cfg bs (\<lambda>_. []) ag"
proof -
  let ?hc = "\<lparr>hc_backends = [], hc_interval_ns = ac_probe_interval_ns cfg, hc_fall = ac_fall cfg, hc_rise = ac_rise cfg\<rparr>"
  have "hc_tracks (ac_fall cfg) (ac_rise cfg) {} (\<lambda>_. []) ?hc" by (simp add: hc_tracks_def)
  from register_all_tracks [OF this, of bs] have
    tr: "hc_tracks (ac_fall cfg) (ac_rise cfg) (set bs) (\<lambda>_. []) (register_all ?hc bs)" by simp
  from build_lut_total [of "ac_lut_size cfg" bs] assms obtain tb where
    "build_lut (ac_lut_size cfg) bs = Some tb" by (auto simp: agent_config_ok_def)
  moreover have "alive_backends (register_all ?hc bs) = []"
    using alive_backends_set(1) [OF tr] by simp
  ultimately show ?thesis using assms tr
    by (simp add: ag_new_def hc_new_def lp_new_def rust_assert_def agent_config_ok_def agent_inv_def
        lut_quiet_def buffers_ok_def complete_def)
qed

lemma sw_tick_total:
  assumes "ct_ok ct" and "iter_ok iter"
  shows "\<exists>r sw' ct'. sw_tick iter sw ct now = Some (r, sw', ct') \<and> ct_ok ct' \<and>
    (if now < sw_next_run_ns sw then r = None \<and> sw' = sw \<and> ct' = ct
     else (\<exists>n. r = Some n \<and> sw' = sw\<lparr>sw_next_run_ns := now + sw_interval_ns sw,
          sw_total_swept := sw_total_swept sw + n, sw_rounds := sw_rounds sw + 1\<rparr>) \<and>
       (\<forall>k. ct_peek ct' k = live_entry (ct_timeout_ns ct) now (ct_peek ct k)))"
  using sweep_peek [OF assms, of now] assms(1) by (auto simp: sw_tick_def)

lemma results_of_snoc:
  "results_of b (evs @ [(b', ok, now)]) = (if b' = b then [ok] else []) @ results_of b evs"
  by (simp add: results_of_def)

lemma reports_in_snoc [simp]:
  "reports_in (evs @ [AgReport b ok now]) = reports_in evs @ [(b, ok, now)]"
  "reports_in (evs @ [AgTick now]) = reports_in evs"
  by (simp_all add: reports_in_def List.map_filter_def)

lemma ag_run_inv:
  assumes cfg: "agent_config_ok cfg bs" and new: "ag_new cfg bs = Some ag0" and ct: "ct_ok ct0" and iter: "iter_ok iter"
  shows "\<exists>ag ct. run_steps (ag_step iter) (ag0, ct0) evs = Some (ag, ct) \<and> ct_ok ct \<and>
    agent_inv cfg bs (\<lambda>b. if b \<in> set bs then results_of b (reports_in evs) else []) ag"
proof (induction evs rule: rev_induct)
  case Nil
  from ag_new_inv [OF cfg] new ct show ?case
    by (simp add: reports_in_def results_of_def List.map_filter_def cong: if_cong)
next
  case (snoc e evs)
  then obtain ag ct where run: "run_steps (ag_step iter) (ag0, ct0) evs = Some (ag, ct)" "ct_ok ct"
    "agent_inv cfg bs (\<lambda>b. if b \<in> set bs then results_of b (reports_in evs) else []) ag" by blast
  show ?case
  proof (cases e)
    case (AgTick now)
    from sw_tick_total [OF run(2) iter, of "ag_sweeper ag" now] obtain r sw' ct' where
      "sw_tick iter (ag_sweeper ag) ct now = Some (r, sw', ct')" "ct_ok ct'" by blast
    with AgTick run show ?thesis
      by (simp add: run_steps_append ag_tick_def agent_inv_def cong: if_cong)
  next
    case (AgReport b ok now)
    let ?h = "\<lambda>b. if b \<in> set bs then results_of b (reports_in evs) else []"
    from report_probe_inv [OF cfg run(3), of b ok now] obtain ver ag' where
      ag': "report_probe ag b ok now = Some (ver, ag')"
      "agent_inv cfg bs (?h(b := (if b \<in> set bs then ok # ?h b else ?h b))) ag'" by blast
    have "?h(b := (if b \<in> set bs then ok # ?h b else ?h b)) =
      (\<lambda>c. if c \<in> set bs then results_of c (reports_in (evs @ [e])) else [])"
      by (auto simp: AgReport results_of_snoc)
    with ag' AgReport run show ?thesis by (simp add: run_steps_append)
  qed
qed

section \<open>Properties\<close>



text \<open>
  C34. The sweeper is lazy until its time has come and then removes exactly the expired
  connections: before the next run a tick changes nothing; from then on it keeps every
  entry that a look-up would still accept, unchanged, drops every other, reports how many it
  dropped, and schedules the next run one interval later.
\<close>

theorem sweeper_removes_exactly_expired:
  assumes "ct_ok ct" and "iter_ok iter"
  shows "\<exists>r sw' ct'. sw_tick iter sw ct now = Some (r, sw', ct') \<and>
    (if now < sw_next_run_ns sw then r = None \<and> sw' = sw \<and> ct' = ct
     else (\<forall>k. ct_peek ct' k = live_entry (ct_timeout_ns ct) now (ct_peek ct k)) \<and>
       r = Some (ct_len ct - ct_len ct') \<and> ct_len ct' \<le> ct_len ct \<and>
       sw_next_run_ns sw' = now + sw_interval_ns sw \<and> sw_rounds sw' = sw_rounds sw + 1 \<and>
       sw_total_swept sw' = sw_total_swept sw + (ct_len ct - ct_len ct'))"
proof (cases "now < sw_next_run_ns sw")
  case True
  then show ?thesis by (simp add: sw_tick_def)
next
  case False
  from assms(1) obtain l where abs: "ct_abs ct l" by (auto simp: ct_ok_def)
  have "mset (iter (ct_map ct)) = image_mset snd (mset (ct_map ct))" using assms(2) by (simp add: iter_ok_def)
  from sweep_refines [OF abs this, of now] obtain ct' where
    ct': "sweep_expired (iter (ct_map ct)) ct now =
        Some (length l - length (lru_sweep (ct_timeout_ns ct) l now), ct')"
      "ct_abs ct' (lru_sweep (ct_timeout_ns ct) l now)" by blast
  have len: "ct_len ct = length l" "ct_len ct' = length (lru_sweep (ct_timeout_ns ct) l now)"
    using ct_abs_ok(2) [OF abs] ct_abs_ok(2) [OF ct'(2)] by simp_all
  moreover have "ct_len ct' \<le> ct_len ct" unfolding len by (simp add: lru_sweep_def)
  moreover have "\<forall>k. ct_peek ct' k = live_entry (ct_timeout_ns ct) now (ct_peek ct k)"
    using sweep_peek [OF assms, of now] ct'(1) by auto
  ultimately show ?thesis using False ct'(1) by (simp add: sw_tick_def)
qed

theorem sweeper_removes_exactly_expired_witness:
  "\<exists>ct ct1 r sw' ct'. ct_new 4 100 = Some ct \<and>
     ct_insert ct (sample_tuple 1) \<lparr>backend_ip = 7, last_seen_ns = 5\<rparr> = Some ct1 \<and>
     sw_tick (map snd) (sw_new 50) ct1 200 = Some (r, sw', ct') \<and>
     ct_peek ct' (sample_tuple 1) = None \<and> sw_next_run_ns sw' = 250"
proof -
  from ct_new_refines [of 4 100] obtain ct where ct: "ct_new 4 100 = Some ct" "ct_ok ct" "ct_timeout_ns ct = 100"
    by (auto intro: ct_okI simp: ct_params_def)
  from ct.put_law [OF ct(2), of "sample_tuple 1" "\<lparr>backend_ip = 7, last_seen_ns = 5\<rparr>"] ct(3) obtain ct1 where
    ct1: "ct_insert ct (sample_tuple 1) \<lparr>backend_ip = 7, last_seen_ns = 5\<rparr> = Some ct1" "ct_ok ct1"
    "ct_timeout_ns ct1 = 100" "ct_peek ct1 (sample_tuple 1) = Some \<lparr>backend_ip = 7, last_seen_ns = 5\<rparr>" by auto
  have "iter_ok (map snd)" by (simp add: iter_ok_def)
  from sweeper_removes_exactly_expired [OF ct1(2) this, of "sw_new 50" 200] obtain r sw' ct' where
    "sw_tick (map snd) (sw_new 50) ct1 200 = Some (r, sw', ct')"
    "ct_peek ct' (sample_tuple 1) = live_entry (ct_timeout_ns ct1) 200 (ct_peek ct1 (sample_tuple 1))"
    "sw_next_run_ns sw' = 200 + sw_interval_ns (sw_new 50)"
    by (auto simp: sw_new_def)
  with ct(1) ct1 show ?thesis by (auto simp: sw_new_def live_entry_def)
qed

end
