(* ===== verification/Wire.thy ===== *)
theory Wire
  imports Prelude
begin

unbundle bit_operations_syntax

text \<open>
  What the wire formats of the crates share: the results of fallible input/output operations,
  big- and little-endian integers as byte lists, and the contract of a codec that consumes a prefix
  of its input and leaves the rest.
\<close>

section \<open>Results\<close>

text \<open>The kinds of \<open>std::io::Error\<close> the sources build; the message texts are dropped.\<close>

type_synonym sock_addr = "bytes \<times> u16"

datatype io_error = UnexpectedEof | InvalidData | InvalidInput | BrokenPipe | ConnectionAborted | TimedOut | WouldBlock | OtherError

datatype 'a result = Ok (the_Ok: 'a) | Err io_error

text \<open>The \<open>?\<close> operator.\<close>

fun try_then :: "'a result \<Rightarrow> ('a \<Rightarrow> 'b result) \<Rightarrow> 'b result" where
  "try_then (Ok x) f = f x"
| "try_then (Err e) f = Err e"

lemma try_then_Ok: "try_then m f = Ok y \<longleftrightarrow> (\<exists>x. m = Ok x \<and> f x = Ok y)"
  by (cases m) auto

lemma try_then_assoc: "try_then (try_then m f) g = try_then m (\<lambda>x. try_then (f x) g)"
  by (cases m) auto

section \<open>Integers as bytes\<close>

definition be_bytes :: "nat \<Rightarrow> 'a::len word \<Rightarrow> bytes" where
  "be_bytes n w = map (\<lambda>i. ucast (drop_bit (8 * (n - 1 - i)) w)) [0..<n]"

definition le_bytes :: "nat \<Rightarrow> 'a::len word \<Rightarrow> bytes" where
  "le_bytes n w = map (\<lambda>i. ucast (drop_bit (8 * i) w)) [0..<n]"

definition be_val :: "bytes \<Rightarrow> 'a::len word" where
  "be_val bs = fold (\<lambda>b v. push_bit 8 v OR ucast b) bs 0"

definition le_val :: "bytes \<Rightarrow> 'a::len word" where
  "le_val bs = be_val (rev bs)"

lemma length_be_bytes [simp]: "length (be_bytes n w) = n"
  by (simp add: be_bytes_def)

lemma length_le_bytes [simp]: "length (le_bytes n w) = n"
  by (simp add: le_bytes_def)

lemma le_bytes_rev: "le_bytes n w = rev (be_bytes n w)"
  by (rule nth_equalityI) (auto simp: le_bytes_def be_bytes_def rev_nth)

lemma be_bytes_Suc: "be_bytes (Suc n) w = be_bytes n (drop_bit 8 w) @ [ucast w]"
proof -
  have "map (\<lambda>i. ucast (drop_bit (8 * (Suc n - 1 - i)) w)) [0..<n] =
      (map (\<lambda>i. ucast (drop_bit (8 * (n - 1 - i)) (drop_bit 8 w))) [0..<n] :: bytes)"
    by (rule map_cong) (auto simp: algebra_simps diff_mult_distrib2 [symmetric] Suc_diff_Suc)
  then show ?thesis by (simp add: be_bytes_def)
qed

lemma be_val_snoc: "be_val (bs @ [b]) = push_bit 8 (be_val bs) OR ucast b"
  by (simp add: be_val_def)

lemma be_step:
  fixes w :: "'a::len word"
  shows "push_bit 8 (take_bit n (drop_bit 8 w)) OR ucast (ucast w :: u8) = take_bit (n + 8) w"
  by (rule bit_word_eqI) (auto simp: bit_simps)

lemma be_val_bytes: "be_val (be_bytes n w) = take_bit (8 * n) w"
proof (induction n arbitrary: w)
  case 0
  then show ?case by (simp add: be_val_def be_bytes_def)
next
  case (Suc n)
  then show ?case by (simp add: be_bytes_Suc be_val_snoc be_step add.commute)
qed

lemma le_val_bytes: "le_val (le_bytes n w) = take_bit (8 * n) w"
  by (simp add: le_val_def le_bytes_rev be_val_bytes)

lemma take_bit_all [simp]: "LENGTH('a::len) \<le> n \<Longrightarrow> take_bit n (w :: 'a word) = w"
  by (rule bit_word_eqI) (auto simp: bit_simps dest: bit_imp_le_length)

lemma be_bytes_Cons: "be_bytes (Suc n) w = ucast (drop_bit (8 * n) w) # be_bytes n w"
  by (simp add: be_bytes_def upt_conv_Cons map_Suc_upt [symmetric] del: upt_Suc)

lemma be_bytes_ucast:
  assumes "8 * n \<le> LENGTH('b)"
  shows "be_bytes n (ucast (w :: 'a::len word) :: 'b::len word) = be_bytes n w"
proof -
  have "(ucast (drop_bit k (ucast w :: 'b word)) :: u8) = ucast (drop_bit k w)" if "k + 8 \<le> LENGTH('b)" for k
    using that by (intro bit_word_eqI) (auto simp: bit_simps)
  moreover have "8 * (n - 1 - i) + 8 \<le> LENGTH('b)" if "i < n" for i
    using that assms by arith
  ultimately show ?thesis by (auto simp: be_bytes_def)
qed

lemma drop_bit_small: "unat w < 2 ^ n \<Longrightarrow> drop_bit n w = 0"
  by (simp only: word_unat_eq_iff unat_drop_bit_eq) (simp add: drop_bit_eq_div)

lemma take_bit_small: "unat w < 2 ^ n \<Longrightarrow> take_bit n w = w"
  by (simp only: word_unat_eq_iff unsigned_take_bit_eq) (simp add: take_bit_eq_mod)

lemma bytes_of_word:
  fixes w :: "'a::len word" and b :: u8
  assumes "8 \<le> LENGTH('a)"
  shows "ucast (push_bit 8 w OR ucast b) = b" and "drop_bit 8 (push_bit 8 w OR ucast b) = take_bit (LENGTH('a) - 8) w"
proof -
  show "ucast (push_bit 8 w OR ucast b) = b"
    using assms by (intro bit_word_eqI) (auto simp: bit_simps)
  show "drop_bit 8 (push_bit 8 w OR ucast b) = take_bit (LENGTH('a) - 8) w"
    using assms by (intro bit_word_eqI) (auto simp: bit_simps dest: bit_imp_le_length)
qed

lemma be_bytes_take_bit: "8 * n \<le> m \<Longrightarrow> be_bytes n (take_bit m w) = be_bytes n w"
  unfolding be_bytes_def by (rule map_cong) (auto intro!: bit_word_eqI simp: bit_simps)

lemma be_bytes_be_val:
  assumes "length bs = n" "8 * n \<le> LENGTH('a)"
  shows "be_bytes n (be_val bs :: 'a::len word) = bs"
  using assms
proof (induction bs arbitrary: n rule: rev_induct)
  case (snoc b bs)
  then obtain m where n: "n = Suc m" "length bs = m" by (cases n) auto
  with snoc.prems have "8 \<le> LENGTH('a)" "8 * m \<le> LENGTH('a) - 8" by auto
  then have "be_bytes n (be_val (bs @ [b]) :: 'a word) = be_bytes m (be_val bs :: 'a word) @ [b]"
    by (simp only: n be_bytes_Suc be_val_snoc bytes_of_word be_bytes_take_bit)
  with snoc n show ?case by simp
qed (simp add: be_bytes_def)

lemma le_bytes_le_val: "length bs = n \<Longrightarrow> 8 * n \<le> LENGTH('a) \<Longrightarrow> le_bytes n (le_val bs :: 'a::len word) = bs"
  using be_bytes_be_val [of "rev bs" n, where 'a = 'a] by (simp add: le_bytes_rev le_val_def)

section \<open>Self-delimiting codecs\<close>

text \<open>
  A decoder that reads a value from the front of its input and says how many bytes it took.
  On what the encoder wrote it returns the value, whatever follows; hence encodings can be
  concatenated and taken apart again in one way only.
\<close>

locale prefix_codec =
  fixes valid :: "'a \<Rightarrow> bool" and enc :: "'a \<Rightarrow> bytes" and dec :: "bytes \<Rightarrow> ('a \<times> nat) result"
  assumes round: "valid x \<Longrightarrow> dec (enc x @ rest) = Ok (x, length (enc x))"
    and nonempty: "valid x \<Longrightarrow> enc x \<noteq> []"
begin

lemma round_nil: "valid x \<Longrightarrow> dec (enc x) = Ok (x, length (enc x))"
  using round [of x "[]"] by simp

lemma enc_prefix_unique:
  assumes "valid x" and "valid y" and "enc x @ r = enc y @ r'"
  shows "x = y \<and> r = r'"
proof -
  have "Ok (x, length (enc x)) = dec (enc x @ r)" by (rule round [OF assms(1), symmetric])
  also have "\<dots> = Ok (y, length (enc y))" unfolding assms(3) by (rule round [OF assms(2)])
  finally show ?thesis using assms(3) by simp
qed

lemma stream_unique:
  assumes "\<forall>x \<in> set xs. valid x" and "\<forall>y \<in> set ys. valid y"
    and "concat (map enc xs) = concat (map enc ys)"
  shows "xs = ys"
  using assms
proof (induction xs arbitrary: ys)
  case Nil
  then show ?case using nonempty by (cases ys) auto
next
  case (Cons x xs)
  have "enc x \<noteq> []" using nonempty Cons.prems(1) by simp
  with Cons.prems(3) obtain y ys' where ys: "ys = y # ys'" by (cases ys) auto
  have x: "x = y \<and> concat (map enc xs) = concat (map enc ys')"
    using Cons.prems by (intro enc_prefix_unique) (simp_all add: ys)
  have "xs = ys'" using Cons.prems x by (intro Cons.IH) (simp_all add: ys)
  with x ys show ?case by simp
qed

end

section \<open>UTF-8\<close>

text \<open>The byte sequences \<open>String::from_utf8\<close> accepts; a \<open>String\<close> is such a byte list.\<close>

definition cont :: "u8 \<Rightarrow> bool" where
  "cont b \<longleftrightarrow> 0x80 \<le> b \<and> b \<le> 0xBF"

definition utf8_char :: "u8 \<Rightarrow> bytes \<Rightarrow> nat option" where
  "utf8_char b bs =
     (if b < 0x80 then Some 0
      else if 0xC2 \<le> b \<and> b \<le> 0xDF then (if 1 \<le> length bs \<and> cont (bs ! 0) then Some 1 else None)
      else if 0xE0 \<le> b \<and> b \<le> 0xEF then
        (if 2 \<le> length bs \<and> cont (bs ! 0) \<and> cont (bs ! 1) \<and> (b = 0xE0 \<longrightarrow> 0xA0 \<le> bs ! 0) \<and>
            (b = 0xED \<longrightarrow> bs ! 0 \<le> 0x9F) then Some 2 else None)
      else if 0xF0 \<le> b \<and> b \<le> 0xF4 then
        (if 3 \<le> length bs \<and> cont (bs ! 0) \<and> cont (bs ! 1) \<and> cont (bs ! 2) \<and> (b = 0xF0 \<longrightarrow> 0x90 \<le> bs ! 0) \<and>
            (b = 0xF4 \<longrightarrow> bs ! 0 \<le> 0x8F) then Some 3 else None)
      else None)"

fun utf8_ok :: "bytes \<Rightarrow> bool" where
  "utf8_ok [] = True"
| "utf8_ok (b # bs) = (case utf8_char b bs of None \<Rightarrow> False | Some n \<Rightarrow> utf8_ok (drop n bs))"

end
