(* ===== verification/Moq_Varint.thy ===== *)
theory Moq_Varint
  imports Wire
begin

unbundle bit_operations_syntax

text \<open>QUIC variable-length integers (\<^verbatim>\<open>crates/moq-live/src/varint.rs\<close>).\<close>

section \<open>Encoding and decoding\<close>

definition VARINT_MAX :: u64 where
  "VARINT_MAX = push_bit 62 1 - 1"

definition encoded_len :: "u64 \<Rightarrow> nat option" where
  "encoded_len v =
     (if v \<le> 63 then Some 1
      else if v \<le> 16383 then Some 2
      else if v \<le> 1073741823 then Some 4
      else do { rust_assert (v \<le> VARINT_MAX); Some 8 })"

definition vi_encode :: "u64 \<Rightarrow> bytes option" where
  "vi_encode v =
     do { n \<leftarrow> encoded_len v;
          Some (if n = 1 then [ucast v]
                else if n = 2 then be_bytes 2 ((ucast v :: u16) OR 0x4000)
                else if n = 4 then be_bytes 4 ((ucast v :: u32) OR 0x80000000)
                else be_bytes 8 (v OR 0xC000000000000000)) }"

definition vi_decode :: "bytes \<Rightarrow> (u64 \<times> nat) result" where
  "vi_decode buf =
     (case buf of
        [] \<Rightarrow> Err UnexpectedEof
      | first # _ \<Rightarrow>
          let len = 2 ^ unat (drop_bit 6 first) in
          if length buf < len then Err UnexpectedEof
          else Ok (fold (\<lambda>b v. push_bit 8 v OR ucast b) (take (len - 1) (drop 1 buf)) (ucast (first AND 0x3F)), len))"

section \<open>The round trip\<close>

lemma fold_be_val:
  "fold (\<lambda>b v. push_bit 8 v OR ucast b) bs acc = push_bit (8 * length bs) acc OR (be_val bs :: u64)"
proof (induction bs rule: rev_induct)
  case Nil
  then show ?case by (simp add: be_val_def)
next
  case (snoc b bs)
  have "push_bit 8 (push_bit (8 * length bs) acc OR be_val bs) OR ucast b =
      push_bit (8 * Suc (length bs)) acc OR (push_bit 8 (be_val bs) OR (ucast b :: u64))"
    by (rule bit_word_eqI) (auto simp: bit_simps)
  with snoc show ?case by (simp add: be_val_snoc)
qed

lemma top_byte:
  fixes w :: u64
  shows "drop_bit 6 (ucast (drop_bit k w) :: u8) = ucast (take_bit 2 (drop_bit (k + 6) w))"
  by (rule bit_word_eqI) (auto simp: bit_simps add.assoc)

lemma join_bytes:
  fixes w :: u64
  shows "push_bit (8 * n) (ucast ((ucast (drop_bit (8 * n) w) :: u8) AND 0x3F)) OR take_bit (8 * n) w = take_bit (8 * n + 6) w"
proof -
  have m: "(0x3F :: u8) = mask 6" by (simp add: mask_eq_exp_minus_1)
  show ?thesis unfolding m
    by (rule bit_word_eqI) (auto simp: bit_simps)
qed

text \<open>Decoding \<open>n + 1\<close> big-endian bytes whose top two bits say how many bytes there are.\<close>

lemma vi_decode_bytes:
  assumes "2 ^ unat (take_bit 2 (drop_bit (8 * n + 6) w)) = Suc n"
  shows "vi_decode (be_bytes (Suc n) w @ rest) = Ok (take_bit (8 * n + 6) w, Suc n)"
proof -
  have "unat (drop_bit 6 (ucast (drop_bit (8 * n) w) :: u8)) = unat (take_bit 2 (drop_bit (8 * n + 6) w))"
    unfolding top_byte by (simp add: unsigned_ucast_eq unsigned_take_bit_eq)
  with assms show ?thesis
    by (simp add: vi_decode_def be_bytes_Cons Let_def fold_be_val be_val_bytes join_bytes)
qed

lemma vi_decode_tagged:
  assumes "unat v < 2 ^ (8 * n + 6)" and "take_bit (8 * n + 6) T = 0"
    and "2 ^ unat (take_bit 2 (drop_bit (8 * n + 6) T)) = Suc n"
  shows "vi_decode (be_bytes (Suc n) (v OR T) @ rest) = Ok (v, Suc n)"
proof -
  have "take_bit (8 * n + 6) (v OR T) = v"
    using take_bit_small [OF assms(1)] assms(2) by (simp add: take_bit_or)
  moreover have "drop_bit (8 * n + 6) (v OR T) = drop_bit (8 * n + 6) T"
    using drop_bit_small [OF assms(1)] by (simp add: drop_bit_or)
  ultimately show ?thesis using vi_decode_bytes [of n "v OR T" rest] assms(3) by simp
qed

text \<open>The bytes of a value within the range, as a total function.\<close>

definition vi_bytes :: "u64 \<Rightarrow> bytes" where
  "vi_bytes v =
     (if v \<le> 63 then be_bytes 1 (v OR 0)
      else if v \<le> 16383 then be_bytes 2 (v OR 0x4000)
      else if v \<le> 1073741823 then be_bytes 4 (v OR 0x80000000)
      else be_bytes 8 (v OR 0xC000000000000000))"

lemma vi_encode_bytes: "v \<le> VARINT_MAX \<Longrightarrow> vi_encode v = Some (vi_bytes v)"
proof -
  have 1: "[ucast v] = be_bytes 1 (v OR 0)" by (simp add: be_bytes_def)
  have 2: "be_bytes 2 ((ucast v :: u16) OR 0x4000) = be_bytes 2 (v OR 0x4000)"
  proof -
    have "(ucast v :: u16) OR 0x4000 = ucast (v OR 0x4000)" by (simp add: unsigned_or_eq)
    then show ?thesis by (simp add: be_bytes_ucast)
  qed
  have 4: "be_bytes 4 ((ucast v :: u32) OR 0x80000000) = be_bytes 4 (v OR 0x80000000)"
  proof -
    have "(ucast v :: u32) OR 0x80000000 = ucast (v OR 0x80000000)" by (simp add: unsigned_or_eq)
    then show ?thesis by (simp add: be_bytes_ucast)
  qed
  assume "v \<le> VARINT_MAX"
  then show ?thesis
    by (simp add: vi_encode_def encoded_len_def rust_assert_def vi_bytes_def 1 2 4)
qed

lemma vi_encode_panics: "\<not> v \<le> VARINT_MAX \<Longrightarrow> vi_encode v = None"
proof -
  assume "\<not> v \<le> VARINT_MAX"
  moreover have "(1073741823 :: u64) \<le> VARINT_MAX" "(16383 :: u64) \<le> VARINT_MAX" "(63 :: u64) \<le> VARINT_MAX"
    by (simp_all add: VARINT_MAX_def)
  ultimately show ?thesis
    by (auto simp: vi_encode_def encoded_len_def rust_assert_def dest: order_trans)
qed

lemma vi_decode_vi_bytes: "v \<le> VARINT_MAX \<Longrightarrow> vi_decode (vi_bytes v @ rest) = Ok (v, length (vi_bytes v))"
proof -
  assume v: "v \<le> VARINT_MAX"
  have le: "unat v < 2 ^ k" if "v \<le> w" "unat w < 2 ^ k" for w :: u64 and k
    using that by (simp add: word_le_nat_alt)
  consider "v \<le> 63" | "\<not> v \<le> 63" "v \<le> 16383" | "\<not> v \<le> 63" "\<not> v \<le> 16383" "v \<le> 1073741823"
    | "\<not> v \<le> 63" "\<not> v \<le> 16383" "\<not> v \<le> 1073741823" by blast
  then show ?thesis
  proof cases
    case 1
    with vi_decode_tagged [of v 0 0 rest] le [of 63 6] show ?thesis
      by (simp add: vi_bytes_def)
  next
    case 2
    have "vi_decode (be_bytes (Suc 1) (v OR 0x4000) @ rest) = Ok (v, Suc 1)"
      by (rule vi_decode_tagged) (use le [of 16383 14] 2 in simp_all)
    then show ?thesis using 2 by (simp add: vi_bytes_def numeral_2_eq_2)
  next
    case 3
    with vi_decode_tagged [of v 3 "0x80000000" rest] le [of 1073741823 30] show ?thesis
      by (simp add: vi_bytes_def)
  next
    case 4
    have "unat v < 2 ^ 62" by (rule le [OF v]) (simp add: VARINT_MAX_def)
    with 4 vi_decode_tagged [of v 7 "0xC000000000000000" rest] show ?thesis
      by (simp add: vi_bytes_def)
  qed
qed

interpretation varint: prefix_codec "\<lambda>v. v \<le> VARINT_MAX" vi_bytes vi_decode
proof
  fix v :: u64 and rest assume "v \<le> VARINT_MAX"
  then show "vi_decode (vi_bytes v @ rest) = Ok (v, length (vi_bytes v))" by (rule vi_decode_vi_bytes)
  show "vi_bytes v \<noteq> []" by (simp add: vi_bytes_def be_bytes_def)
qed

lemma vi_decode_consumes: "vi_decode buf = Ok (v, n) \<Longrightarrow> 0 < n \<and> n \<le> length buf"
  by (auto simp: vi_decode_def Let_def split: list.splits if_splits)

end
