(* ===== verification/Moq_Message.thy ===== *)
theory Moq_Message
  imports Moq_Varint
begin

text \<open>
  Tracks and objects (\<^verbatim>\<open>crates/moq-live/src/track.rs\<close>), the message frames
  (\<^verbatim>\<open>message.rs\<close>) and the reader that cuts a byte stream into frames (\<^verbatim>\<open>net.rs\<close>).
\<close>

section \<open>Tracks and objects\<close>

record track_id =
  ns :: bytes
  nm :: bytes

record moq_object =
  group_id :: u64
  object_id :: u64
  priority :: u8
  timestamp_ms :: u64
  payload :: bytes

definition is_group_head :: "moq_object \<Rightarrow> bool" where
  "is_group_head obj \<longleftrightarrow> object_id obj = 0"

section \<open>Messages\<close>

definition PROTO_VERSION :: u64 where
  "PROTO_VERSION = 0x6d6f716c"

datatype role = Publisher | Subscriber | Both

fun role_code :: "role \<Rightarrow> u64" where
  "role_code Publisher = 1"
| "role_code Subscriber = 2"
| "role_code Both = 3"

definition role_from_u64 :: "u64 \<Rightarrow> role result" where
  "role_from_u64 v =
     (if v = 1 then Ok Publisher else if v = 2 then Ok Subscriber else if v = 3 then Ok Both
      else Err InvalidData)"

datatype start_mode = LatestGroup | NextObject

fun start_code :: "start_mode \<Rightarrow> u64" where
  "start_code LatestGroup = 0"
| "start_code NextObject = 1"

definition start_from_u64 :: "u64 \<Rightarrow> start_mode result" where
  "start_from_u64 v = (if v = 0 then Ok LatestGroup else if v = 1 then Ok NextObject else Err InvalidData)"

definition ERR_NAMESPACE_NOT_FOUND :: u64 where
  "ERR_NAMESPACE_NOT_FOUND = 1"

datatype track_ref = RefAlias u64 | RefFull track_id

definition REF_ALIAS :: u64 where "REF_ALIAS = 0"
definition REF_FULL :: u64 where "REF_FULL = 1"

datatype message =
    Setup u64 role
  | Announce bytes
  | AnnounceOk bytes
  | Subscribe u64 u64 track_id start_mode u8
  | SubscribeOk u64
  | SubscribeError u64 u64 bytes
  | Unsubscribe u64
  | Goaway bytes
  | GroupHeader track_ref u64
  | Object moq_object

definition T_SETUP :: u64 where "T_SETUP = 0x01"
definition T_ANNOUNCE :: u64 where "T_ANNOUNCE = 0x02"
definition T_ANNOUNCE_OK :: u64 where "T_ANNOUNCE_OK = 0x03"
definition T_SUBSCRIBE :: u64 where "T_SUBSCRIBE = 0x04"
definition T_SUBSCRIBE_OK :: u64 where "T_SUBSCRIBE_OK = 0x05"
definition T_SUBSCRIBE_ERROR :: u64 where "T_SUBSCRIBE_ERROR = 0x06"
definition T_UNSUBSCRIBE :: u64 where "T_UNSUBSCRIBE = 0x07"
definition T_GOAWAY :: u64 where "T_GOAWAY = 0x08"
definition T_GROUP_HEADER :: u64 where "T_GROUP_HEADER = 0x10"
definition T_OBJECT :: u64 where "T_OBJECT = 0x11"

lemmas type_codes =
  T_SETUP_def T_ANNOUNCE_def T_ANNOUNCE_OK_def T_SUBSCRIBE_def T_SUBSCRIBE_OK_def
  T_SUBSCRIBE_ERROR_def T_UNSUBSCRIBE_def T_GOAWAY_def T_GROUP_HEADER_def T_OBJECT_def

section \<open>Encoding\<close>

text \<open>Encoding panics (\<^term>\<open>None\<close>) when an integer does not fit a varint.\<close>

definition encode_str :: "bytes \<Rightarrow> bytes option" where
  "encode_str s = do { h \<leftarrow> vi_encode (of_nat (length s)); Some (h @ s) }"

fun msg_payload :: "message \<Rightarrow> (u64 \<times> bytes) option" where
  "msg_payload (Setup version role) =
     do { a \<leftarrow> vi_encode version; b \<leftarrow> vi_encode (role_code role); Some (T_SETUP, a @ b) }"
| "msg_payload (Announce n) = do { a \<leftarrow> encode_str n; Some (T_ANNOUNCE, a) }"
| "msg_payload (AnnounceOk n) = do { a \<leftarrow> encode_str n; Some (T_ANNOUNCE_OK, a) }"
| "msg_payload (Subscribe subscribe_id track_alias track start prio) =
     do { a \<leftarrow> vi_encode subscribe_id; b \<leftarrow> vi_encode track_alias;
          c \<leftarrow> encode_str (ns track); d \<leftarrow> encode_str (nm track);
          e \<leftarrow> vi_encode (start_code start); f \<leftarrow> vi_encode (ucast prio);
          Some (T_SUBSCRIBE, a @ b @ c @ d @ e @ f) }"
| "msg_payload (SubscribeOk subscribe_id) = do { a \<leftarrow> vi_encode subscribe_id; Some (T_SUBSCRIBE_OK, a) }"
| "msg_payload (SubscribeError subscribe_id code reason) =
     do { a \<leftarrow> vi_encode subscribe_id; b \<leftarrow> vi_encode code; c \<leftarrow> encode_str reason;
          Some (T_SUBSCRIBE_ERROR, a @ b @ c) }"
| "msg_payload (Unsubscribe subscribe_id) = do { a \<leftarrow> vi_encode subscribe_id; Some (T_UNSUBSCRIBE, a) }"
| "msg_payload (Goaway reason) = do { a \<leftarrow> encode_str reason; Some (T_GOAWAY, a) }"
| "msg_payload (GroupHeader track_ref gid) =
     do { a \<leftarrow> (case track_ref of
              RefAlias al \<Rightarrow> do { x \<leftarrow> vi_encode REF_ALIAS; y \<leftarrow> vi_encode al; Some (x @ y) }
            | RefFull t \<Rightarrow> do { x \<leftarrow> vi_encode REF_FULL; y \<leftarrow> encode_str (ns t); z \<leftarrow> encode_str (nm t);
                               Some (x @ y @ z) });
          b \<leftarrow> vi_encode gid;
          Some (T_GROUP_HEADER, a @ b) }"
| "msg_payload (Object obj) =
     do { a \<leftarrow> vi_encode (object_id obj); b \<leftarrow> vi_encode (ucast (priority obj));
          c \<leftarrow> vi_encode (timestamp_ms obj); d \<leftarrow> vi_encode (of_nat (length (payload obj)));
          Some (T_OBJECT, a @ b @ c @ d @ payload obj) }"

definition msg_encode :: "message \<Rightarrow> bytes option" where
  "msg_encode msg =
     do { (type_code, pl) \<leftarrow> msg_payload msg;
          a \<leftarrow> vi_encode type_code; b \<leftarrow> vi_encode (of_nat (length pl));
          Some (a @ b @ pl) }"

section \<open>Decoding\<close>

record reader =
  rd_buf :: bytes
  rd_pos :: nat

text \<open>The unread part of the payload, and moving past \<open>n\<close> bytes of it.\<close>

definition unread :: "reader \<Rightarrow> bytes" where
  "unread r = drop (rd_pos r) (rd_buf r)"

definition advance :: "nat \<Rightarrow> reader \<Rightarrow> reader" where
  "advance n r = r\<lparr>rd_pos := rd_pos r + n\<rparr>"

definition r_varint :: "reader \<Rightarrow> (u64 \<times> reader) result" where
  "r_varint r = try_then (vi_decode (unread r)) (\<lambda>(v, n). Ok (v, advance n r))"

definition r_bytes :: "reader \<Rightarrow> (bytes \<times> reader) result" where
  "r_bytes r =
     try_then (r_varint r) (\<lambda>(len, r).
       if length (rd_buf r) - rd_pos r < unat len then Err UnexpectedEof
       else Ok (take (unat len) (unread r), advance (unat len) r))"

definition r_string :: "reader \<Rightarrow> (bytes \<times> reader) result" where
  "r_string r = try_then (r_bytes r) (\<lambda>(bs, r). if utf8_ok bs then Ok (bs, r) else Err InvalidData)"

definition r_track :: "reader \<Rightarrow> (track_id \<times> reader) result" where
  "r_track r = try_then (r_string r) (\<lambda>(n, r). try_then (r_string r) (\<lambda>(m, r). Ok (\<lparr>ns = n, nm = m\<rparr>, r)))"

definition decode_body :: "u64 \<Rightarrow> reader \<Rightarrow> (message \<times> reader) result" where
  "decode_body type_code r =
     (if type_code = T_SETUP then
        try_then (r_varint r) (\<lambda>(version, r). try_then (r_varint r) (\<lambda>(c, r).
          try_then (role_from_u64 c) (\<lambda>role. Ok (Setup version role, r))))
      else if type_code = T_ANNOUNCE then try_then (r_string r) (\<lambda>(n, r). Ok (Announce n, r))
      else if type_code = T_ANNOUNCE_OK then try_then (r_string r) (\<lambda>(n, r). Ok (AnnounceOk n, r))
      else if type_code = T_SUBSCRIBE then
        try_then (r_varint r) (\<lambda>(sid, r). try_then (r_varint r) (\<lambda>(al, r).
          try_then (r_track r) (\<lambda>(track, r). try_then (r_varint r) (\<lambda>(c, r).
            try_then (start_from_u64 c) (\<lambda>start. try_then (r_varint r) (\<lambda>(prio, r).
              Ok (Subscribe sid al track start (ucast prio), r)))))))
      else if type_code = T_SUBSCRIBE_OK then try_then (r_varint r) (\<lambda>(sid, r). Ok (SubscribeOk sid, r))
      else if type_code = T_SUBSCRIBE_ERROR then
        try_then (r_varint r) (\<lambda>(sid, r). try_then (r_varint r) (\<lambda>(code, r).
          try_then (r_string r) (\<lambda>(reason, r). Ok (SubscribeError sid code reason, r))))
      else if type_code = T_UNSUBSCRIBE then try_then (r_varint r) (\<lambda>(sid, r). Ok (Unsubscribe sid, r))
      else if type_code = T_GOAWAY then try_then (r_string r) (\<lambda>(reason, r). Ok (Goaway reason, r))
      else if type_code = T_GROUP_HEADER then
        try_then (r_varint r) (\<lambda>(tag, r).
          try_then
            (if tag = REF_ALIAS then try_then (r_varint r) (\<lambda>(al, r). Ok (RefAlias al, r))
             else if tag = REF_FULL then try_then (r_track r) (\<lambda>(t, r). Ok (RefFull t, r))
             else Err InvalidData)
            (\<lambda>(track_ref, r). try_then (r_varint r) (\<lambda>(gid, r). Ok (GroupHeader track_ref gid, r))))
      else if type_code = T_OBJECT then
        try_then (r_varint r) (\<lambda>(oid, r). try_then (r_varint r) (\<lambda>(prio, r).
          try_then (r_varint r) (\<lambda>(ts, r). try_then (r_bytes r) (\<lambda>(pl, r).
            Ok (Object \<lparr>group_id = 0, object_id = oid, priority = ucast prio, timestamp_ms = ts, payload = pl\<rparr>, r)))))
      else Err InvalidData)"

definition msg_decode :: "bytes \<Rightarrow> message result" where
  "msg_decode frame =
     try_then (vi_decode frame) (\<lambda>(type_code, n1).
       try_then (vi_decode (drop n1 frame)) (\<lambda>(len, n2).
         let pl = drop (n1 + n2) frame in
         if length pl \<noteq> unat len then Err InvalidData
         else try_then (decode_body type_code \<lparr>rd_buf = pl, rd_pos = 0\<rparr>) (\<lambda>(msg, r).
           if rd_pos r \<noteq> length pl then Err InvalidData else Ok msg)))"

section \<open>Cutting a stream into frames\<close>

definition try_parse :: "bytes \<Rightarrow> (message \<times> nat) option result" where
  "try_parse buf =
     (case vi_decode buf of
        Err _ \<Rightarrow> Ok None
      | Ok (_, n1) \<Rightarrow>
          (case vi_decode (drop n1 buf) of
             Err _ \<Rightarrow> Ok None
           | Ok (len, n2) \<Rightarrow>
               let total = n1 + n2 + unat len in
               if length buf < total then Ok None
               else try_then (msg_decode (take total buf)) (\<lambda>m. Ok (Some (m, total)))))"

text \<open>
  \<open>FrameReader::read\<close> on a stream that delivers the chunks \<open>cs\<close> and then ends. The result
  carries the buffer and the chunks left for the next call.
\<close>

fun fr_read :: "bytes \<Rightarrow> bytes list \<Rightarrow> (message option \<times> bytes \<times> bytes list) result" where
  "fr_read buf cs =
     try_then (try_parse buf) (\<lambda>r.
       case r of
         Some (msg, consumed) \<Rightarrow> Ok (Some msg, drop consumed buf, cs)
       | None \<Rightarrow>
           (case cs of
              [] \<Rightarrow> if buf = [] then Ok (None, buf, []) else Err UnexpectedEof
            | c # cs' \<Rightarrow> fr_read (buf @ c) cs'))"

declare fr_read.simps [simp del]

text \<open>The \<open>while let Some(msg)\<close> loop over a stream: every message until the clean end.\<close>

partial_function (option) fr_drain :: "bytes \<Rightarrow> bytes list \<Rightarrow> message list result option" where
  "fr_drain buf cs =
     (case fr_read buf cs of
        Err e \<Rightarrow> Some (Err e)
      | Ok (None, buf', cs') \<Rightarrow> Some (Ok [])
      | Ok (Some msg, buf', cs') \<Rightarrow>
          Option.bind (fr_drain buf' cs') (\<lambda>rest. Some (try_then rest (\<lambda>msgs. Ok (msg # msgs)))))"

section \<open>The round trip of messages\<close>

text \<open>What can be written: integers of 62 bits, strings in UTF-8, an object without its group.\<close>

definition wire_int :: "u64 \<Rightarrow> bool" where
  "wire_int v \<longleftrightarrow> v \<le> VARINT_MAX"

definition wire_len :: "'a list \<Rightarrow> bool" where
  "wire_len xs \<longleftrightarrow> length xs < 2 ^ 62"

definition wire_str :: "bytes \<Rightarrow> bool" where
  "wire_str s \<longleftrightarrow> utf8_ok s \<and> wire_len s"

definition wire_track :: "track_id \<Rightarrow> bool" where
  "wire_track t \<longleftrightarrow> wire_str (ns t) \<and> wire_str (nm t)"

fun wire_fields :: "message \<Rightarrow> bool" where
  "wire_fields (Setup version role) = wire_int version"
| "wire_fields (Announce n) = wire_str n"
| "wire_fields (AnnounceOk n) = wire_str n"
| "wire_fields (Subscribe sid al t start prio) = (wire_int sid \<and> wire_int al \<and> wire_track t)"
| "wire_fields (SubscribeOk sid) = wire_int sid"
| "wire_fields (SubscribeError sid code reason) = (wire_int sid \<and> wire_int code \<and> wire_str reason)"
| "wire_fields (Unsubscribe sid) = wire_int sid"
| "wire_fields (Goaway reason) = wire_str reason"
| "wire_fields (GroupHeader tr gid) =
     (wire_int gid \<and> (case tr of RefAlias al \<Rightarrow> wire_int al | RefFull t \<Rightarrow> wire_track t))"
| "wire_fields (Object obj) =
     (wire_int (object_id obj) \<and> wire_int (timestamp_ms obj) \<and> wire_len (payload obj) \<and> group_id obj = 0)"

definition wire_msg :: "message \<Rightarrow> bool" where
  "wire_msg msg \<longleftrightarrow> wire_fields msg \<and> (\<forall>tc pl. msg_payload msg = Some (tc, pl) \<longrightarrow> wire_len pl)"

lemma unread_advance [simp]: "unread (advance n r) = drop n (unread r)"
  by (simp add: unread_def advance_def add.commute)

lemma advance_advance [simp]: "advance m (advance n r) = advance (n + m) r"
  by (simp add: advance_def add.assoc)

lemma rd_left [simp]: "length (rd_buf r) - rd_pos r = length (unread r)"
  by (simp add: unread_def)

lemma wire_of_nat:
  assumes "wire_len xs"
  shows "of_nat (length xs) \<le> VARINT_MAX" and "unat (of_nat (length xs) :: u64) = length xs"
proof -
  have "length xs \<le> u64_max" using assms by (simp add: wire_len_def)
  then show u: "unat (of_nat (length xs) :: u64) = length xs" by (rule unat_of_nat_u64)
  show "of_nat (length xs) \<le> VARINT_MAX"
    using assms by (simp add: word_le_nat_alt u) (simp add: wire_len_def VARINT_MAX_def)
qed

lemma role_code_le [simp]: "role_code r \<le> VARINT_MAX" and start_code_le [simp]: "start_code s \<le> VARINT_MAX"
  by (cases r; simp add: VARINT_MAX_def) (cases s; simp add: VARINT_MAX_def)

lemma ucast_u8_le [simp]: "ucast (p :: u8) \<le> VARINT_MAX"
proof -
  have "unat p < 2 ^ LENGTH(8)" by (rule unsigned_less)
  then have "unat (ucast p :: u64) < 256"
    by (simp add: unsigned_ucast_eq take_bit_eq_mod)
  then show ?thesis by (simp add: word_le_nat_alt VARINT_MAX_def)
qed

lemma role_round [simp]: "role_from_u64 (role_code r) = Ok r"
  by (cases r) (simp_all add: role_from_u64_def)

lemma start_round [simp]: "start_from_u64 (start_code s) = Ok s"
  by (cases s) (simp_all add: start_from_u64_def)

lemma ucast_u8_round [simp]: "(ucast (ucast (p :: u8) :: u64) :: u8) = p"
  by (rule bit_word_eqI) (auto simp: bit_simps)

lemma type_code_le [simp]: "msg_payload msg = Some (tc, pl) \<Longrightarrow> tc \<le> VARINT_MAX"
  by (cases msg) (auto simp: type_codes VARINT_MAX_def split: bind_splits)

lemma encode_str_bytes: "wire_len s \<Longrightarrow> encode_str s = Some (vi_bytes (of_nat (length s)) @ s)"
  by (simp add: encode_str_def vi_encode_bytes wire_of_nat)

lemmas wire_simps =
  vi_encode_bytes encode_str_bytes varint.round wire_of_nat r_varint_def r_bytes_def r_string_def r_track_def

lemma decode_body_payload:
  assumes "msg_payload msg = Some (tc, pl)" and "wire_fields msg" and "unread r = pl @ rest"
  shows "decode_body tc r = Ok (msg, advance (length pl) r)"
proof (cases msg)
  case (Setup version role)
  with assms show ?thesis
    by (auto simp: decode_body_def type_codes wire_int_def wire_simps)
next
  case (Announce n)
  with assms show ?thesis
    by (auto simp: decode_body_def type_codes wire_str_def wire_simps)
next
  case (AnnounceOk n)
  with assms show ?thesis
    by (auto simp: decode_body_def type_codes wire_str_def wire_simps)
next
  case (Subscribe sid al t start prio)
  with assms show ?thesis
    by (auto simp: decode_body_def type_codes wire_int_def wire_track_def wire_str_def wire_simps add.assoc)
next
  case (SubscribeOk sid)
  with assms show ?thesis by (auto simp: decode_body_def type_codes wire_int_def wire_simps)
next
  case (SubscribeError sid code reason)
  with assms show ?thesis
    by (auto simp: decode_body_def type_codes wire_int_def wire_str_def wire_simps add.assoc)
next
  case (Unsubscribe sid)
  with assms show ?thesis by (auto simp: decode_body_def type_codes wire_int_def wire_simps)
next
  case (Goaway reason)
  with assms show ?thesis
    by (auto simp: decode_body_def type_codes wire_str_def wire_simps)
next
  case (GroupHeader tr gid)
  have ref: "REF_ALIAS \<le> VARINT_MAX" "REF_FULL \<le> VARINT_MAX" "REF_FULL \<noteq> REF_ALIAS"
    by (simp_all add: REF_ALIAS_def REF_FULL_def VARINT_MAX_def)
  with GroupHeader assms show ?thesis
    by (cases tr) (auto simp: decode_body_def type_codes wire_int_def wire_track_def wire_str_def wire_simps add.assoc)
next
  case (Object obj)
  with assms show ?thesis
    by (auto simp: decode_body_def type_codes wire_int_def wire_simps add.assoc)
qed

lemma wire_fields_payload: "wire_fields msg \<Longrightarrow> \<exists>tc pl. msg_payload msg = Some (tc, pl)"
proof (cases msg)
  case (GroupHeader tr gid)
  moreover have "REF_ALIAS \<le> VARINT_MAX" "REF_FULL \<le> VARINT_MAX"
    by (simp_all add: REF_ALIAS_def REF_FULL_def VARINT_MAX_def)
  ultimately show "wire_fields msg \<Longrightarrow> ?thesis"
    by (cases tr) (auto simp: wire_int_def wire_track_def wire_str_def wire_simps)
qed (auto simp: wire_int_def wire_track_def wire_str_def wire_simps)

lemma wire_frame:
  assumes "wire_msg msg"
  obtains tc pl where "msg_payload msg = Some (tc, pl)" and "tc \<le> VARINT_MAX"
    and "msg_encode msg = Some (vi_bytes tc @ vi_bytes (of_nat (length pl)) @ pl)" and "wire_len pl"
proof -
  from assms wire_fields_payload obtain tc pl where pl: "msg_payload msg = Some (tc, pl)" "wire_len pl"
    by (fastforce simp: wire_msg_def)
  moreover have "tc \<le> VARINT_MAX" using pl(1) by simp
  ultimately show thesis using that by (simp add: msg_encode_def wire_simps)
qed

lemma msg_round:
  assumes "wire_msg msg"
  shows "\<exists>frame. msg_encode msg = Some frame \<and> msg_decode frame = Ok msg"
proof -
  from wire_frame [OF assms] obtain tc pl where
    pl: "msg_payload msg = Some (tc, pl)" "tc \<le> VARINT_MAX"
    "msg_encode msg = Some (vi_bytes tc @ vi_bytes (of_nat (length pl)) @ pl)" "wire_len pl" .
  have "decode_body tc \<lparr>rd_buf = pl, rd_pos = 0\<rparr> = Ok (msg, advance (length pl) \<lparr>rd_buf = pl, rd_pos = 0\<rparr>)"
    using assms by (intro decode_body_payload [OF pl(1), where rest = "[]"]) (auto simp: unread_def wire_msg_def)
  with pl show ?thesis
    by (simp add: msg_decode_def wire_simps Let_def advance_def)
qed

text \<open>A frame is recognised as soon as it is complete, and no earlier.\<close>

lemma vi_decode_partial:
  assumes "vi_decode bs = Ok (v, length bs)" and "k < length bs"
  shows "\<exists>e. vi_decode (take k bs) = Err e"
  using assms by (cases bs; cases k) (auto simp: vi_decode_def Let_def split: if_splits)

lemma try_parse_frame:
  assumes "wire_msg msg" and "msg_encode msg = Some frame"
  shows "try_parse (frame @ rest) = Ok (Some (msg, length frame))"
proof -
  from wire_frame [OF assms(1)] obtain tc pl where
    pl: "msg_payload msg = Some (tc, pl)" "tc \<le> VARINT_MAX"
    "msg_encode msg = Some (vi_bytes tc @ vi_bytes (of_nat (length pl)) @ pl)" "wire_len pl" .
  then have frame: "frame = vi_bytes tc @ vi_bytes (of_nat (length pl)) @ pl" using assms(2) by simp
  have "msg_decode frame = Ok msg" using msg_round [OF assms(1)] assms(2) by auto
  with pl(2,4) show ?thesis by (simp add: try_parse_def wire_simps Let_def frame)
qed

lemma try_parse_partial:
  assumes "wire_msg msg" and "msg_encode msg = Some frame" and "k < length frame"
  shows "try_parse (take k frame) = Ok None"
proof -
  from wire_frame [OF assms(1)] obtain tc pl where
    pl: "tc \<le> VARINT_MAX" "frame = vi_bytes tc @ vi_bytes (of_nat (length pl)) @ pl" "wire_len pl"
    using assms(2) by (metis option.inject)
  let ?a = "vi_bytes tc" and ?b = "vi_bytes (of_nat (length pl))"
  note round = varint.round_nil [OF pl(1)] varint.round_nil [OF wire_of_nat(1) [OF pl(3)]]
  consider "k < length ?a" | "length ?a \<le> k" "k - length ?a < length ?b" | "length ?a + length ?b \<le> k" by linarith
  then show ?thesis
  proof cases
    case 1
    with vi_decode_partial [OF round(1), of k] pl show ?thesis by (auto simp: try_parse_def)
  next
    case 2
    with vi_decode_partial [OF round(2), of "k - length ?a"] pl show ?thesis
      by (auto simp: try_parse_def varint.round)
  next
    case 3
    have eq: "take k frame = ?a @ ?b @ take (k - length ?a - length ?b) pl" using 3 by (simp add: pl(2))
    have "k - length ?a - length ?b < length pl" using 3 assms(3) by (simp add: pl(2))
    then show ?thesis unfolding eq using pl(1,3) by (simp add: try_parse_def wire_simps Let_def)
  qed
qed

definition frame_of :: "message \<Rightarrow> bytes" where
  "frame_of msg = (case msg_encode msg of Some f \<Rightarrow> f | None \<Rightarrow> [])"

lemma frame_of_encode: "wire_msg msg \<Longrightarrow> msg_encode msg = Some (frame_of msg)"
  using msg_round by (fastforce simp: frame_of_def)

lemma frame_of_nonempty: "wire_msg msg \<Longrightarrow> frame_of msg \<noteq> []"
  using wire_frame [of msg] frame_of_encode [of msg] varint.nonempty by (metis Nil_is_append_conv option.inject)

text \<open>Frames are self-delimiting in their own right, read by \<^const>\<open>try_parse\<close>.\<close>

definition frame_dec :: "bytes \<Rightarrow> (message \<times> nat) result" where
  "frame_dec buf = try_then (try_parse buf) (\<lambda>r. case r of Some x \<Rightarrow> Ok x | None \<Rightarrow> Err UnexpectedEof)"

interpretation frames: prefix_codec wire_msg frame_of frame_dec
proof
  fix msg rest assume "wire_msg msg"
  then show "frame_dec (frame_of msg @ rest) = Ok (msg, length (frame_of msg))"
    using try_parse_frame [OF _ frame_of_encode] by (simp add: frame_dec_def)
  from \<open>wire_msg msg\<close> show "frame_of msg \<noteq> []" by (rule frame_of_nonempty)
qed

lemma fr_read_next:
  assumes "wire_msg msg" and "buf @ concat cs = frame_of msg @ rest"
  shows "\<exists>buf' cs'. fr_read buf cs = Ok (Some msg, buf', cs') \<and> buf' @ concat cs' = rest"
  using assms(2)
proof (induction cs arbitrary: buf)
  case Nil
  then have "try_parse buf = Ok (Some (msg, length (frame_of msg)))"
    using try_parse_frame [OF assms(1) frame_of_encode [OF assms(1)]] by simp
  with Nil show ?case by (simp add: fr_read.simps)
next
  case (Cons c cs)
  show ?case
  proof (cases "length (frame_of msg) \<le> length buf")
    case True
    have "take (length (frame_of msg)) (buf @ concat (c # cs)) = frame_of msg" unfolding Cons.prems by simp
    with True have "buf = frame_of msg @ drop (length (frame_of msg)) buf"
      by (metis append_take_drop_id take_append diff_is_0_eq take0 append_Nil2)
    then obtain tl where buf: "buf = frame_of msg @ tl" by blast
    with Cons.prems have "tl @ concat (c # cs) = rest" by simp
    moreover have "fr_read buf (c # cs) = Ok (Some msg, tl, c # cs)"
      using try_parse_frame [OF assms(1) frame_of_encode [OF assms(1)], of tl]
      by (simp add: fr_read.simps buf)
    ultimately show ?thesis by blast
  next
    case False
    have "take (length buf) (buf @ concat (c # cs)) = take (length buf) (frame_of msg @ rest)"
      by (simp only: Cons.prems)
    with False have "buf = take (length buf) (frame_of msg)" by simp
    then have "try_parse buf = Ok None"
      using try_parse_partial [OF assms(1) frame_of_encode [OF assms(1)], of "length buf"] False by simp
    then have "fr_read buf (c # cs) = fr_read (buf @ c) cs" by (simp add: fr_read.simps [of buf "c # cs"])
    with Cons.IH [of "buf @ c"] Cons.prems show ?thesis by simp
  qed
qed

lemma try_parse_Nil: "try_parse [] = Ok None"
  by (simp add: try_parse_def vi_decode_def)

lemma fr_read_end: "concat cs = [] \<Longrightarrow> fr_read [] cs = Ok (None, [], [])"
proof (induction cs)
  case Nil
  then show ?case by (simp add: fr_read.simps try_parse_Nil)
next
  case (Cons c cs)
  have "fr_read [] (c # cs) = fr_read ([] @ c) cs" by (simp add: fr_read.simps [of "[]" "c # cs"] try_parse_Nil)
  with Cons show ?case by simp
qed

lemma fr_drain_stream:
  assumes "\<forall>m \<in> set msgs. wire_msg m" and "buf @ concat cs = concat (map frame_of msgs)"
  shows "fr_drain buf cs = Some (Ok msgs)"
  using assms
proof (induction msgs arbitrary: buf cs)
  case Nil
  then show ?case by (simp add: fr_drain.simps fr_read_end)
next
  case (Cons m msgs)
  then have "wire_msg m" "buf @ concat cs = frame_of m @ concat (map frame_of msgs)" by simp_all
  from fr_read_next [OF this] obtain buf' cs' where
    read: "fr_read buf cs = Ok (Some m, buf', cs')" "buf' @ concat cs' = concat (map frame_of msgs)" by blast
  have "fr_drain buf' cs' = Some (Ok msgs)" using Cons.prems(1) read(2) by (intro Cons.IH) simp_all
  with read(1) show ?case by (subst fr_drain.simps) simp
qed

section \<open>Properties\<close>

text \<open>
  C26. Every message whose fields fit the wire format survives encoding and decoding (an object
  without its group, which travels in the stream header), and its encoding never panics.
\<close>

theorem moq_message_round_trip:
  assumes "wire_msg msg"
  shows "\<exists>frame. msg_encode msg = Some frame \<and> msg_decode frame = Ok msg"
  using assms by (rule msg_round)

theorem moq_message_round_trip_witness:
  "\<exists>frame. msg_encode (Subscribe 7 70000 \<lparr>ns = [0x6c, 0x69], nm = [0xc3, 0xa9]\<rparr> NextObject 200) = Some frame \<and>
     msg_decode frame = Ok (Subscribe 7 70000 \<lparr>ns = [0x6c, 0x69], nm = [0xc3, 0xa9]\<rparr> NextObject 200)"
proof (rule moq_message_round_trip)
  let ?m = "Subscribe 7 70000 \<lparr>ns = [0x6c, 0x69], nm = [0xc3, 0xa9]\<rparr> NextObject 200"
  have f: "wire_fields ?m"
    by (simp add: wire_int_def VARINT_MAX_def wire_track_def wire_str_def wire_len_def utf8_char_def cont_def)
  have "wire_len pl" if "msg_payload ?m = Some (tc, pl)" for tc pl
    using that
    by (auto simp: vi_encode_def encoded_len_def encode_str_def wire_len_def be_bytes_def split: bind_splits)
  with f show "wire_msg ?m" by (simp add: wire_msg_def)
qed

text \<open>
  C14. The frame reader puts a stream back together whatever its chunking: however the
  concatenated frames of a list of messages are cut into chunks (empty ones and chunks that
  span several frames included), reading until the end returns exactly these messages in
  order and then the clean end of the stream.
\<close>

theorem frame_reader_any_chunking:
  assumes "\<forall>m \<in> set msgs. wire_msg m" and "concat chunks = concat (map frame_of msgs)"
  shows "fr_drain [] chunks = Some (Ok msgs)"
  using fr_drain_stream [of msgs "[]" chunks] assms by simp

theorem frame_reader_any_chunking_witness:
  "frame_of (Unsubscribe 5) = [7, 1, 5] \<and>
   fr_drain [] [[7], [], [1, 5, 7, 1], [5]] = Some (Ok [Unsubscribe 5, Unsubscribe 5])"
proof -
  have f: "frame_of (Unsubscribe 5) = [7, 1, 5]"
    by (simp add: frame_of_def msg_encode_def vi_encode_def encoded_len_def T_UNSUBSCRIBE_def)
  have w: "wire_msg (Unsubscribe 5)"
    by (auto simp: wire_msg_def wire_int_def VARINT_MAX_def wire_len_def vi_encode_def encoded_len_def)
  have "fr_drain [] [[7], [], [1, 5, 7, 1], [5]] = Some (Ok [Unsubscribe 5, Unsubscribe 5])"
    by (rule frame_reader_any_chunking) (simp_all add: w f)
  with f show ?thesis by simp
qed

text \<open>
  C35. A priority above 255 on the wire is accepted and wraps around: a publisher that sends
  the priority 256 gets the highest priority 0 instead of an error.
\<close>

theorem object_priority_wraps:
  assumes "wire_int oid" and "wire_int prio" and "wire_int ts"
  shows "msg_decode (vi_bytes T_OBJECT @ vi_bytes (of_nat (length (vi_bytes oid @ vi_bytes prio @ vi_bytes ts @ vi_bytes 0))) @
      vi_bytes oid @ vi_bytes prio @ vi_bytes ts @ vi_bytes 0) =
    Ok (Object \<lparr>group_id = 0, object_id = oid, priority = of_nat (unat prio mod 256), timestamp_ms = ts, payload = []\<rparr>)"
proof -
  let ?pl = "vi_bytes oid @ vi_bytes prio @ vi_bytes ts @ vi_bytes 0"
  have le8: "length (vi_bytes v) \<le> 8" for v by (simp add: vi_bytes_def)
  have "length ?pl \<le> 32" using le8 [of oid] le8 [of prio] le8 [of ts] le8 [of 0] by simp
  then have len: "wire_len ?pl" by (simp add: wire_len_def)
  have T: "T_OBJECT \<le> VARINT_MAX" "(0 :: u64) \<le> VARINT_MAX" by (simp_all add: T_OBJECT_def VARINT_MAX_def)
  have pr: "(ucast prio :: u8) = of_nat (unat prio mod 256)"
    by (simp add: word_unat_eq_iff unsigned_ucast_eq unsigned_of_nat take_bit_eq_mod)
  have body: "decode_body T_OBJECT \<lparr>rd_buf = ?pl, rd_pos = 0\<rparr> =
    Ok (Object \<lparr>group_id = 0, object_id = oid, priority = ucast prio, timestamp_ms = ts, payload = []\<rparr>,
      advance (length ?pl) \<lparr>rd_buf = ?pl, rd_pos = 0\<rparr>)"
    using assms T varint.round [of 0 "[]"]
    by (simp add: decode_body_def type_codes wire_int_def wire_simps unread_def [of "\<lparr>rd_buf = _, rd_pos = 0\<rparr>"] add.assoc)
  show ?thesis
    using T wire_of_nat [OF len] body pr
    by (simp add: msg_decode_def varint.round Let_def advance_def)
qed

theorem object_priority_wraps_witness:
  "\<exists>frame. msg_decode frame =
     Ok (Object \<lparr>group_id = 0, object_id = 3, priority = 0, timestamp_ms = 9, payload = []\<rparr>) \<and>
     frame = vi_bytes T_OBJECT @ vi_bytes 5 @ vi_bytes 3 @ vi_bytes 256 @ vi_bytes 9 @ vi_bytes 0"
  using object_priority_wraps [of 3 256 9]
  by (simp add: wire_int_def VARINT_MAX_def) (simp add: vi_bytes_def)

end
