(* ===== verification/Moq_Cache.thy ===== *)
theory Moq_Cache
  imports Moq_Message
begin

text \<open>
  The catch-up cache of a track (\<^verbatim>\<open>crates/moq-live/src/cache.rs\<close>): a sliding window over the
  newest groups, each with its objects in order of object id. The window is characterised by the
  history of accepted objects.
\<close>

section \<open>The cache\<close>

type_synonym groups = "(u64 \<times> moq_object list) list"

record group_cache =
  gc_capacity :: nat
  gc_groups :: groups
  gc_dropped_late :: nat

definition gc_new :: "nat \<Rightarrow> group_cache option" where
  "gc_new capacity = do {
     rust_assert (capacity > 0);
     Some \<lparr>gc_capacity = capacity, gc_groups = [], gc_dropped_late = 0\<rparr>
   }"

text \<open>The loop that slides the window: \<open>pop_front\<close> while there are more than \<open>capacity\<close> groups.\<close>

fun slide_window :: "nat \<Rightarrow> groups \<Rightarrow> groups" where
  "slide_window capacity [] = []"
| "slide_window capacity (g # gs) = (if length (g # gs) > capacity then slide_window capacity gs else g # gs)"

text \<open>
  \<open>partition_point\<close> is specified for slices whose elements satisfying the predicate come first, which
  the order of the objects guarantees; there it is the length of that prefix.
\<close>

definition partition_point :: "('a \<Rightarrow> bool) \<Rightarrow> 'a list \<Rightarrow> nat" where
  "partition_point P xs = length (takeWhile P xs)"

definition vec_insert :: "nat \<Rightarrow> 'a \<Rightarrow> 'a list \<Rightarrow> 'a list" where
  "vec_insert i x xs = take i xs @ x # drop i xs"

text \<open>The first group with the object's id receives it; without such a group the \<open>expect\<close> panics.\<close>

fun insert_into_group :: "moq_object \<Rightarrow> groups \<Rightarrow> groups option" where
  "insert_into_group obj [] = None"
| "insert_into_group obj ((g, objs) # gs) =
     (if g = group_id obj
      then Some ((g, vec_insert (partition_point (\<lambda>x. object_id x < object_id obj) objs) obj objs) # gs)
      else map_option ((#) (g, objs)) (insert_into_group obj gs))"

definition gc_insert :: "group_cache \<Rightarrow> moq_object \<Rightarrow> (group_cache \<times> bool) option" where
  "gc_insert gc obj =
     (if gc_groups gc \<noteq> [] \<and> group_id obj < fst (hd (gc_groups gc))
      then Some (gc\<lparr>gc_dropped_late := gc_dropped_late gc + 1\<rparr>, False)
      else if gc_groups gc = [] \<or> group_id obj > fst (last (gc_groups gc))
      then Some (gc\<lparr>gc_groups := slide_window (gc_capacity gc) (gc_groups gc @ [(group_id obj, [obj])])\<rparr>, True)
      else do {
        gs \<leftarrow> insert_into_group obj (gc_groups gc);
        Some (gc\<lparr>gc_groups := gs\<rparr>, True)
      })"

definition gc_latest_group_id :: "group_cache \<Rightarrow> u64 option" where
  "gc_latest_group_id gc = (if gc_groups gc = [] then None else Some (fst (last (gc_groups gc))))"

definition snapshot_from_latest_group :: "group_cache \<Rightarrow> moq_object list" where
  "snapshot_from_latest_group gc = (if gc_groups gc = [] then [] else snd (last (gc_groups gc)))"

definition snapshot_from_group :: "group_cache \<Rightarrow> u64 \<Rightarrow> moq_object list" where
  "snapshot_from_group gc gid =
     (let out = concat (map snd (filter (\<lambda>(g, objs). g \<ge> gid) (gc_groups gc)))
      in if out = [] then snapshot_from_latest_group gc else out)"

definition gc_group_count :: "group_cache \<Rightarrow> nat" where
  "gc_group_count gc = length (gc_groups gc)"

definition gc_object_count :: "group_cache \<Rightarrow> nat" where
  "gc_object_count gc = sum_list (map (length \<circ> snd) (gc_groups gc))"

section \<open>When an insertion panics\<close>

lemma insert_into_group_None: "insert_into_group obj gs = None \<longleftrightarrow> group_id obj \<notin> fst ` set gs"
  by (induction obj gs rule: insert_into_group.induct) auto

text \<open>An object of a group that the window spans but does not contain makes \<open>insert\<close> panic.\<close>

definition group_gap :: "group_cache \<Rightarrow> u64 \<Rightarrow> bool" where
  "group_gap gc g \<longleftrightarrow> gc_groups gc \<noteq> [] \<and> fst (hd (gc_groups gc)) \<le> g \<and> g \<le> fst (last (gc_groups gc)) \<and>
     g \<notin> fst ` set (gc_groups gc)"

lemma gc_insert_None: "gc_insert gc obj = None \<longleftrightarrow> group_gap gc (group_id obj)"
  by (auto simp: gc_insert_def group_gap_def not_less bind_eq_None_conv insert_into_group_None)

section \<open>The window by history\<close>

lemma slide_window_take_last: "slide_window n gs = take_last n gs"
  by (induction gs) (auto simp: take_last_def Suc_diff_le)

definition group_ids :: "moq_object list \<Rightarrow> u64 list" where
  "group_ids objs = sorted_list_of_set (group_id ` set objs)"

definition group_contents :: "moq_object list \<Rightarrow> u64 \<Rightarrow> moq_object list" where
  "group_contents objs g = sort_key object_id (rev (filter (\<lambda>x. group_id x = g) objs))"

definition window :: "nat \<Rightarrow> moq_object list \<Rightarrow> groups" where
  "window n objs = map (\<lambda>g. (g, group_contents objs g)) (take_last n (group_ids objs))"

lemma vec_insert_partition:
  "vec_insert (partition_point (\<lambda>y. f y < f x) xs) x xs = insort_key f x xs" for f :: "'a \<Rightarrow> 'b::linorder"
  by (induction xs) (auto simp: vec_insert_def partition_point_def not_less)

lemma group_contents_snoc:
  "group_contents (objs @ [x]) g =
     (if group_id x = g then insort_key object_id x (group_contents objs g) else group_contents objs g)"
  by (simp add: group_contents_def)

lemma group_contents_new: "g \<notin> group_id ` set objs \<Longrightarrow> group_contents objs g = []"
proof -
  assume "g \<notin> group_id ` set objs"
  then have "filter (\<lambda>x. group_id x = g) objs = []" by (auto simp: filter_empty_conv)
  then show ?thesis by (simp add: group_contents_def)
qed

lemma set_group_ids [simp]: "set (group_ids objs) = group_id ` set objs"
  by (simp add: group_ids_def)

lemma group_ids_old: "group_id x \<in> group_id ` set objs \<Longrightarrow> group_ids (objs @ [x]) = group_ids objs"
  by (simp add: group_ids_def insert_absorb)

lemma group_ids_new:
  assumes "\<And>g. g \<in> group_id ` set objs \<Longrightarrow> g < group_id x"
  shows "group_ids (objs @ [x]) = group_ids objs @ [group_id x]"
proof -
  have "sorted_list_of_set (insert (group_id x) (group_id ` set objs)) =
      insort (group_id x) (sorted_list_of_set (group_id ` set objs))"
    using assms by (intro sorted_list_of_set_insert) force+
  also have "\<dots> = sorted_list_of_set (group_id ` set objs) @ [group_id x]"
    using assms by (intro sorted_insort_is_snoc) (force simp: less_imp_le)+
  finally show ?thesis by (simp add: group_ids_def)
qed

lemma insert_into_group_window:
  assumes "group_id x \<in> set gs" "distinct gs"
  shows "insert_into_group x (map (\<lambda>g. (g, group_contents objs g)) gs) =
    Some (map (\<lambda>g. (g, group_contents (objs @ [x]) g)) gs)"
  using assms
proof (induction gs)
  case (Cons g gs)
  then show ?case by (cases "g = group_id x") (auto simp: vec_insert_partition group_contents_snoc)
qed simp

text \<open>\<open>gc_hist n acc gc\<close>: the cache of capacity \<open>n\<close> after accepting the objects \<open>acc\<close>.\<close>

definition gc_hist :: "nat \<Rightarrow> moq_object list \<Rightarrow> group_cache \<Rightarrow> bool" where
  "gc_hist n acc gc \<longleftrightarrow> 0 < n \<and> gc_capacity gc = n \<and> gc_groups gc = window n acc"

lemma gc_hist_new: "gc_new n = Some gc \<Longrightarrow> gc_hist n [] gc"
  by (auto simp: gc_hist_def gc_new_def window_def group_ids_def take_last_def)

lemma group_ids_Nil_iff [simp]: "group_ids objs = [] \<longleftrightarrow> objs = []"
  by (simp add: group_ids_def)

lemma last_group_ids:
  assumes "g \<in> group_id ` set objs"
  shows "g \<le> last (group_ids objs)"
proof -
  from assms have "group_ids objs \<noteq> []" by auto
  then have ids: "butlast (group_ids objs) @ [last (group_ids objs)] = group_ids objs" by simp
  have "sorted (group_ids objs)" by (simp add: group_ids_def)
  then have "\<forall>h\<in>set (butlast (group_ids objs)). h \<le> last (group_ids objs)"
    by (subst (asm) ids [symmetric]) (simp add: sorted_append)
  moreover have "g \<in> set (butlast (group_ids objs) @ [last (group_ids objs)])" using assms ids by simp
  ultimately show ?thesis by auto
qed

lemma last_group_ids_Max: "objs \<noteq> [] \<Longrightarrow> last (group_ids objs) = Max (group_id ` set objs)"
  using last_group_ids last_in_set [of "group_ids objs"] by (intro Max_eqI [symmetric]) auto

lemma window_Nil_iff: "0 < n \<Longrightarrow> window n objs = [] \<longleftrightarrow> objs = []"
  by (simp add: window_def take_last_Nil_iff)

lemma last_window:
  "0 < n \<Longrightarrow> objs \<noteq> [] \<Longrightarrow>
   last (window n objs) = (last (group_ids objs), group_contents objs (last (group_ids objs)))"
  by (simp add: window_def last_map take_last_Nil_iff last_take_last)

lemma gc_insert_hist:
  assumes hist: "gc_hist n acc gc" and ins: "gc_insert gc x = Some (gc', ok)"
  shows "gc_hist n (if ok then acc @ [x] else acc) gc'"
proof -
  from hist have n: "0 < n" "gc_capacity gc = n" and gs: "gc_groups gc = window n acc" by (auto simp: gc_hist_def)
  consider (late) "gc_groups gc \<noteq> []" "group_id x < fst (hd (gc_groups gc))"
    | (newer) "gc_groups gc = [] \<or> group_id x > fst (last (gc_groups gc))"
        "\<not> (gc_groups gc \<noteq> [] \<and> group_id x < fst (hd (gc_groups gc)))"
    | (within) "\<not> (gc_groups gc \<noteq> [] \<and> group_id x < fst (hd (gc_groups gc)))"
        "\<not> (gc_groups gc = [] \<or> group_id x > fst (last (gc_groups gc)))"
    by blast
  then show ?thesis
  proof cases
    case late
    with ins hist show ?thesis by (auto simp: gc_insert_def gc_hist_def)
  next
    case newer
    have new: "g < group_id x" if "g \<in> group_id ` set acc" for g
    proof -
      from that have "acc \<noteq> []" by auto
      with newer(1) gs n last_group_ids [OF that] show ?thesis by (auto simp: window_Nil_iff last_window)
    qed
    then have fresh: "group_id x \<notin> group_id ` set acc" by force
    have "window n acc @ [(group_id x, [x])] = map (\<lambda>g. (g, group_contents (acc @ [x]) g)) (take_last n (group_ids acc) @ [group_id x])"
      using fresh set_take_last [of n "group_ids acc"]
      by (auto simp: window_def group_contents_snoc group_contents_new)
    then have "slide_window n (window n acc @ [(group_id x, [x])]) = window n (acc @ [x])"
      using n(1) by (simp add: slide_window_take_last take_last_map take_last_snoc window_def group_ids_new [OF new] del: map_append)
    with ins newer n gs show ?thesis by (auto simp: gc_insert_def gc_hist_def)
  next
    case within
    from ins within have find: "insert_into_group x (gc_groups gc) = Some (gc_groups gc')" "ok" "gc_capacity gc' = n"
      using n by (auto simp: gc_insert_def bind_eq_Some_conv)
    then have mem: "group_id x \<in> set (take_last n (group_ids acc))"
      using insert_into_group_None [of x "gc_groups gc"] gs by (auto simp: window_def image_image)
    moreover have "distinct (take_last n (group_ids acc))" by (simp add: take_last_def group_ids_def)
    ultimately have "gc_groups gc' = map (\<lambda>g. (g, group_contents (acc @ [x]) g)) (take_last n (group_ids acc))"
      using find(1) gs insert_into_group_window [of x "take_last n (group_ids acc)" acc] by (simp add: window_def)
    moreover have "group_ids (acc @ [x]) = group_ids acc"
      using mem set_take_last [of n "group_ids acc"] by (intro group_ids_old) auto
    ultimately show ?thesis using find n by (simp add: gc_hist_def window_def)
  qed
qed

text \<open>A history of insertions, with the objects that were accepted.\<close>

fun gc_run :: "group_cache \<Rightarrow> moq_object list \<Rightarrow> (group_cache \<times> moq_object list) option" where
  "gc_run gc [] = Some (gc, [])"
| "gc_run gc (x # xs) = do {
     (gc', ok) \<leftarrow> gc_insert gc x;
     (gc'', acc) \<leftarrow> gc_run gc' xs;
     Some (gc'', if ok then x # acc else acc)
   }"

lemma gc_run_hist: "gc_run gc xs = Some (gc', acc) \<Longrightarrow> gc_hist n acc0 gc \<Longrightarrow> gc_hist n (acc0 @ acc) gc'"
proof (induction xs arbitrary: gc acc0 acc)
  case (Cons x xs)
  then obtain gc1 ok acc1 where
    s: "gc_insert gc x = Some (gc1, ok)" "gc_run gc1 xs = Some (gc', acc1)" "acc = (if ok then x # acc1 else acc1)"
    by (auto simp: bind_eq_Some_conv split: prod.splits)
  from Cons.IH [OF s(2) gc_insert_hist [OF Cons.prems(2) s(1)]] s(3) show ?case by (auto split: if_splits)
qed simp

section \<open>Properties\<close>

text \<open>
  C19. The cache after any history of insertions is determined by the accepted objects: the window
  is the \<open>capacity\<close> newest of their groups in increasing order, each with all its accepted
  objects sorted by object id, and a catch-up snapshot is the whole newest group.
\<close>

theorem cache_is_newest_groups:
  assumes "gc_new n = Some gc" "gc_run gc xs = Some (gc', acc)"
  shows "gc_groups gc' = map (\<lambda>g. (g, sort_key object_id (rev (filter (\<lambda>x. group_id x = g) acc))))
           (take_last n (sorted_list_of_set (group_id ` set acc))) \<and>
    gc_group_count gc' \<le> n \<and>
    (acc \<noteq> [] \<longrightarrow> snapshot_from_latest_group gc' =
       sort_key object_id (rev (filter (\<lambda>x. group_id x = Max (group_id ` set acc)) acc)))"
proof -
  from gc_run_hist [OF assms(2) gc_hist_new [OF assms(1)]] have h: "gc_hist n acc gc'" by simp
  then have "gc_groups gc' = window n acc" and n: "0 < n" by (simp_all add: gc_hist_def)
  then show ?thesis
    by (simp add: snapshot_from_latest_group_def window_Nil_iff last_window last_group_ids_Max gc_group_count_def)
      (simp add: window_def group_contents_def group_ids_def)
qed

definition sample_object :: "u64 \<Rightarrow> u64 \<Rightarrow> moq_object" where
  "sample_object g i = \<lparr>group_id = g, object_id = i, priority = 0, timestamp_ms = 0, payload = []\<rparr>"

theorem cache_is_newest_groups_witness:
  "\<exists>gc gc' acc. gc_new 2 = Some gc \<and>
     gc_run gc [sample_object 1 0, sample_object 2 1, sample_object 2 0, sample_object 3 0, sample_object 1 1] = Some (gc', acc) \<and>
     acc = [sample_object 1 0, sample_object 2 1, sample_object 2 0, sample_object 3 0] \<and>
     gc_groups gc' = [(2, [sample_object 2 0, sample_object 2 1]), (3, [sample_object 3 0])] \<and> gc_group_count gc' \<le> 2"
proof -
  let ?gc = "\<lparr>gc_capacity = 2, gc_groups = [], gc_dropped_late = 0\<rparr>"
  let ?gc' = "\<lparr>gc_capacity = 2, gc_groups = [(2, [sample_object 2 0, sample_object 2 1]), (3, [sample_object 3 0])],
    gc_dropped_late = 1\<rparr>"
  let ?xs = "[sample_object 1 0, sample_object 2 1, sample_object 2 0, sample_object 3 0, sample_object 1 1]"
  have new: "gc_new 2 = Some ?gc" by (simp add: gc_new_def rust_assert_def)
  have run: "gc_run ?gc ?xs = Some (?gc', [sample_object 1 0, sample_object 2 1, sample_object 2 0, sample_object 3 0])"
    by (simp add: gc_insert_def sample_object_def vec_insert_def partition_point_def)
  from cache_is_newest_groups [OF new run] have "gc_group_count ?gc' \<le> 2" by (elim conjE)
  with new run show ?thesis by simp
qed

end
