(* ===== verification/Moq_Hub.thy ===== *)
theory Moq_Hub
  imports Moq_Cache
begin

text \<open>
  The fan-out hub of the relay (\<^verbatim>\<open>crates/moq-live/src/hub.rs\<close>): per track a cache and a broadcast
  channel behind a lock. A panic while a lock is held poisons it, and the next \<open>expect\<close> on it
  panics; the two poison flags model that. The broadcast channel belongs to a library: the model
  records what the hub hands to \<open>send\<close>, and a receiver by the number of sends before its creation.
\<close>

section \<open>State and operations\<close>

record track_state =
  ts_cache :: group_cache
  ts_sent :: "moq_object list"
  ts_poisoned :: bool

record hub =
  tracks :: "(track_id, track_state) hmap"
  inner_poisoned :: bool
  namespaces :: "bytes list"
  group_capacity :: nat

record subscription =
  replay :: "moq_object list"
  live_from :: nat

definition ts_new :: "nat \<Rightarrow> track_state option" where
  "ts_new capacity = do {
     gc \<leftarrow> gc_new capacity;
     Some \<lparr>ts_cache = gc, ts_sent = [], ts_poisoned = False\<rparr>
   }"

definition hub_new :: "nat \<Rightarrow> hub" where
  "hub_new capacity = \<lparr>tracks = [], inner_poisoned = False, namespaces = [], group_capacity = capacity\<rparr>"

definition announce_namespace :: "hub \<Rightarrow> bytes \<Rightarrow> hub" where
  "announce_namespace h n = h\<lparr>namespaces := List.insert n (namespaces h)\<rparr>"

definition namespace_announced :: "hub \<Rightarrow> bytes \<Rightarrow> bool" where
  "namespace_announced h n \<longleftrightarrow> n \<in> set (namespaces h)"

text \<open>
  An operation returns the hub it leaves behind and its value, \<^term>\<open>None\<close> when it panicked. Creating a
  track with capacity 0 panics under the lock of the track table.
\<close>

definition hub_state :: "hub \<Rightarrow> track_id \<Rightarrow> hub \<times> track_state option" where
  "hub_state h t =
     (if inner_poisoned h then (h, None)
      else case hm_get (tracks h) t of
        Some s \<Rightarrow> (h, Some s)
      | None \<Rightarrow>
          (case ts_new (group_capacity h) of
             None \<Rightarrow> (h\<lparr>inner_poisoned := True\<rparr>, None)
           | Some s \<Rightarrow> (h\<lparr>tracks := hm_insert t s (tracks h)\<rparr>, Some s)))"

definition hub_announce :: "hub \<Rightarrow> track_id \<Rightarrow> hub \<times> unit option" where
  "hub_announce h t =
     (case hub_state (announce_namespace h (ns t)) t of
        (h', None) \<Rightarrow> (h', None)
      | (h', Some s) \<Rightarrow> (h', Some ()))"

definition put_track :: "hub \<Rightarrow> track_id \<Rightarrow> track_state \<Rightarrow> hub" where
  "put_track h t s = h\<lparr>tracks := hm_insert t s (tracks h)\<rparr>"

definition hub_publish :: "hub \<Rightarrow> track_id \<Rightarrow> moq_object \<Rightarrow> hub \<times> bool option" where
  "hub_publish h t obj =
     (case hub_state h t of
        (h1, None) \<Rightarrow> (h1, None)
      | (h1, Some s) \<Rightarrow>
          (let h2 = announce_namespace h1 (ns t) in
           if ts_poisoned s then (h2, None)
           else case gc_insert (ts_cache s) obj of
             None \<Rightarrow> (put_track h2 t (s\<lparr>ts_poisoned := True\<rparr>), None)
           | Some (gc, cached) \<Rightarrow>
               (put_track h2 t (s\<lparr>ts_cache := gc, ts_sent := (if cached then ts_sent s @ [obj] else ts_sent s)\<rparr>),
                Some cached)))"

definition hub_subscribe :: "hub \<Rightarrow> track_id \<Rightarrow> start_mode \<Rightarrow> hub \<times> subscription option" where
  "hub_subscribe h t start =
     (case hub_state h t of
        (h1, None) \<Rightarrow> (h1, None)
      | (h1, Some s) \<Rightarrow>
          if ts_poisoned s then (h1, None)
          else (h1, Some \<lparr>replay = (case start of LatestGroup \<Rightarrow> snapshot_from_latest_group (ts_cache s) | NextObject \<Rightarrow> []),
                          live_from = length (ts_sent s)\<rparr>))"

definition hub_latest_group_id :: "hub \<Rightarrow> track_id \<Rightarrow> u64 option option" where
  "hub_latest_group_id h t =
     (if inner_poisoned h then None
      else case hm_get (tracks h) t of
        None \<Rightarrow> Some None
      | Some s \<Rightarrow> if ts_poisoned s then None else Some (gc_latest_group_id (ts_cache s)))"

definition hub_track_count :: "hub \<Rightarrow> nat option" where
  "hub_track_count h = (if inner_poisoned h then None else Some (length (tracks h)))"

section \<open>Histories\<close>

datatype hub_op = HAnnounce track_id | HPublish track_id moq_object | HSubscribe track_id start_mode

fun hub_step :: "hub \<Rightarrow> hub_op \<Rightarrow> hub" where
  "hub_step h (HAnnounce t) = fst (hub_announce h t)"
| "hub_step h (HPublish t obj) = fst (hub_publish h t obj)"
| "hub_step h (HSubscribe t start) = fst (hub_subscribe h t start)"

definition hub_run :: "hub \<Rightarrow> hub_op list \<Rightarrow> hub" where
  "hub_run = foldl hub_step"

text \<open>The state of a track, with the fresh state for a track the table does not hold yet.\<close>

definition track_view :: "hub \<Rightarrow> track_id \<Rightarrow> track_state option" where
  "track_view h t = (case hm_get (tracks h) t of Some s \<Rightarrow> Some s | None \<Rightarrow> ts_new (group_capacity h))"

lemma announce_namespace_simps [simp]:
  "tracks (announce_namespace h n) = tracks h" "inner_poisoned (announce_namespace h n) = inner_poisoned h"
  "group_capacity (announce_namespace h n) = group_capacity h"
  by (simp_all add: announce_namespace_def)

lemma put_track_simps [simp]:
  "hm_get (tracks (put_track h t s)) t' = (if t' = t then Some s else hm_get (tracks h) t')"
  "inner_poisoned (put_track h t s) = inner_poisoned h" "group_capacity (put_track h t s) = group_capacity h"
  by (simp_all add: put_track_def)

lemma track_view_put [simp]: "track_view (put_track h t s) t' = (if t' = t then Some s else track_view h t')"
  by (simp add: track_view_def split: option.split)

lemma track_view_announce [simp]: "track_view (announce_namespace h n) t = track_view h t"
  by (simp add: track_view_def split: option.split)

text \<open>What the whole hub keeps: a capacity above zero keeps the table lock healthy, and every track
  holds the window of what it accepted, which is also what it has broadcast.\<close>

definition hub_inv :: "hub \<Rightarrow> bool" where
  "hub_inv h \<longleftrightarrow> 0 < group_capacity h \<and> \<not> inner_poisoned h \<and>
     (\<forall>t s. hm_get (tracks h) t = Some s \<longrightarrow> gc_hist (group_capacity h) (ts_sent s) (ts_cache s))"

lemma ts_new_hist: "ts_new n = Some s \<Longrightarrow> gc_hist n (ts_sent s) (ts_cache s) \<and> \<not> ts_poisoned s \<and> ts_sent s = []"
  using gc_hist_new by (auto simp: ts_new_def bind_eq_Some_conv)

lemma hub_inv_new: "0 < n \<Longrightarrow> hub_inv (hub_new n)"
  by (simp add: hub_inv_def hub_new_def)

lemma hub_state_cases:
  assumes "hub_inv h"
  obtains s h' where "hub_state h t = (h', Some s)" "track_view h t = Some s" "hub_inv h'" "hm_get (tracks h') t = Some s"
    "\<And>t'. track_view h' t' = track_view h t'" "group_capacity h' = group_capacity h"
proof -
  from assms obtain s0 where new: "ts_new (group_capacity h) = Some s0"
    by (auto simp: hub_inv_def ts_new_def gc_new_def panic_simps)
  show thesis
  proof (cases "hm_get (tracks h) t")
    case None
    with assms new ts_new_hist [OF new] show ?thesis
      by (intro that [of "h\<lparr>tracks := hm_insert t s0 (tracks h)\<rparr>" s0])
        (auto simp: hub_state_def hub_inv_def track_view_def split: option.split)
  next
    case (Some s)
    with assms show ?thesis by (intro that [of h s]) (auto simp: hub_state_def hub_inv_def track_view_def)
  qed
qed

lemma hub_inv_announce [simp]: "hub_inv (announce_namespace h n) = hub_inv h"
  by (simp add: hub_inv_def)

lemma hub_inv_put:
  "hub_inv h \<Longrightarrow> gc_hist (group_capacity h) (ts_sent s) (ts_cache s) \<Longrightarrow> hub_inv (put_track h t s)"
  by (auto simp: hub_inv_def)

text \<open>What one operation does to one track: nothing, or it appends at most one accepted object, or
  it poisons the lock.\<close>

definition track_evolves :: "track_state \<Rightarrow> track_state \<Rightarrow> bool" where
  "track_evolves s s' \<longleftrightarrow> (ts_poisoned s \<longrightarrow> s' = s) \<and> (\<exists>more. ts_sent s' = ts_sent s @ more)"

lemma track_evolves_refl: "track_evolves s s"
  by (simp add: track_evolves_def)

lemma track_evolves_trans: "track_evolves s s1 \<Longrightarrow> track_evolves s1 s2 \<Longrightarrow> track_evolves s s2"
  by (auto simp: track_evolves_def)

lemma hub_publish_inv:
  assumes "hub_inv h" "track_view h t = Some s"
  shows "hub_inv (fst (hub_publish h t' obj)) \<and>
    (\<exists>s'. track_view (fst (hub_publish h t' obj)) t = Some s' \<and> track_evolves s s' \<and> (t' \<noteq> t \<longrightarrow> s' = s))"
proof -
  obtain h1 s1 where h1: "hub_state h t' = (h1, Some s1)" "track_view h t' = Some s1" "hub_inv h1"
    "hm_get (tracks h1) t' = Some s1" "\<And>t'. track_view h1 t' = track_view h t'" "group_capacity h1 = group_capacity h"
    using hub_state_cases [OF assms(1)] by blast
  from h1(3,4) have hist: "gc_hist (group_capacity h1) (ts_sent s1) (ts_cache s1)" by (auto simp: hub_inv_def)
  consider "ts_poisoned s1" | "\<not> ts_poisoned s1" "gc_insert (ts_cache s1) obj = None"
    | gc ok where "\<not> ts_poisoned s1" "gc_insert (ts_cache s1) obj = Some (gc, ok)"
    by (cases "gc_insert (ts_cache s1) obj") auto
  then show ?thesis
  proof cases
    case 1
    with h1 assms show ?thesis by (simp add: hub_publish_def track_evolves_refl)
  next
    case 2
    with h1 assms hist show ?thesis
      by (auto simp: hub_publish_def Let_def track_evolves_def intro!: hub_inv_put)
  next
    case 3
    from gc_insert_hist [OF hist 3(2)] 3 h1 assms show ?thesis
      by (cases ok) (auto simp: hub_publish_def Let_def track_evolves_def intro!: hub_inv_put)
  qed
qed

lemma hub_other_inv:
  assumes "hub_inv h"
  shows "hub_inv (fst (hub_announce h t')) \<and> track_view (fst (hub_announce h t')) t = track_view h t"
    and "hub_inv (fst (hub_subscribe h t' start)) \<and> track_view (fst (hub_subscribe h t' start)) t = track_view h t"
proof -
  from assms have "hub_inv (announce_namespace h (ns t'))" by simp
  then obtain s1 h1 where "hub_state (announce_namespace h (ns t')) t' = (h1, Some s1)" "hub_inv h1"
    "\<And>t. track_view h1 t = track_view (announce_namespace h (ns t')) t"
    by (rule hub_state_cases [where t = t']) blast
  then show "hub_inv (fst (hub_announce h t')) \<and> track_view (fst (hub_announce h t')) t = track_view h t"
    by (simp add: hub_announce_def)
  obtain s1 h1 where "hub_state h t' = (h1, Some s1)" "hub_inv h1" "\<And>t. track_view h1 t = track_view h t"
    using assms by (rule hub_state_cases [where t = t']) blast
  then show "hub_inv (fst (hub_subscribe h t' start)) \<and> track_view (fst (hub_subscribe h t' start)) t = track_view h t"
    by (simp add: hub_subscribe_def)
qed

lemma hub_run_inv:
  "hub_inv h \<Longrightarrow> track_view h t = Some s \<Longrightarrow>
   hub_inv (hub_run h ops) \<and> (\<exists>s'. track_view (hub_run h ops) t = Some s' \<and> track_evolves s s')"
proof (induction ops arbitrary: h s)
  case Nil
  then show ?case by (simp add: hub_run_def track_evolves_refl)
next
  case (Cons op ops)
  have "hub_inv (hub_step h op) \<and> (\<exists>s'. track_view (hub_step h op) t = Some s' \<and> track_evolves s s')"
  proof (cases op)
    case (HPublish t' obj)
    with hub_publish_inv [OF Cons.prems, of t' obj] show ?thesis by auto
  qed (use hub_other_inv [OF Cons.prems(1), where t = t] Cons.prems(2) in \<open>auto simp: track_evolves_refl\<close>)
  then obtain s1 where "hub_inv (hub_step h op)" "track_view (hub_step h op) t = Some s1" "track_evolves s s1" by blast
  with Cons.IH [of "hub_step h op" s1] show ?case by (auto simp: hub_run_def intro: track_evolves_trans)
qed

section \<open>Properties\<close>


text \<open>
  C37. An object of a group that the window skipped makes \<open>publish\<close> panic while it holds the
  track's lock. The lock is then poisoned for good: whatever happens afterwards, every
  publication and subscription on that track panics. Other tracks keep their state.
\<close>

theorem skipped_group_poisons_track:
  assumes "0 < n" "h = hub_run (hub_new n) ops" "track_view h t = Some s" "\<not> ts_poisoned s"
    "group_gap (ts_cache s) (group_id obj)" "hub_publish h t obj = (h1, res)"
  shows "res = None \<and> snd (hub_publish (hub_run h1 later) t obj') = None \<and>
    snd (hub_subscribe (hub_run h1 later) t start) = None \<and> (t' \<noteq> t \<longrightarrow> track_view h1 t' = track_view h t')"
proof -
  have inv: "hub_inv h"
    using assms(1,2) hub_run_inv [OF hub_inv_new [OF assms(1)], of t _ ops]
    by (auto simp: track_view_def hub_new_def ts_new_def gc_new_def panic_simps)
  have new: "gc_insert (ts_cache s) obj = None" using assms(5) by (simp add: gc_insert_None)
  obtain s1 h2 where st: "hub_state h t = (h2, Some s1)" "track_view h t = Some s1" "hub_inv h2"
      "\<And>t'. track_view h2 t' = track_view h t'"
    using inv by (rule hub_state_cases) blast
  with assms(3,4,6) new have h1: "h1 = put_track (announce_namespace h2 (ns t)) t (s\<lparr>ts_poisoned := True\<rparr>)" "res = None"
    by (auto simp: hub_publish_def Let_def)
  have "hub_inv h1" using hub_publish_inv [OF inv assms(3), of t obj] assms(6) by simp
  moreover have "track_view h1 t = Some (s\<lparr>ts_poisoned := True\<rparr>)" using h1 by simp
  ultimately have later: "hub_inv (hub_run h1 later)" "track_view (hub_run h1 later) t = Some (s\<lparr>ts_poisoned := True\<rparr>)"
    using hub_run_inv [of h1 t _ later] by (auto simp: track_evolves_def)
  obtain s3 h3 where "hub_state (hub_run h1 later) t = (h3, Some s3)" "s3 = s\<lparr>ts_poisoned := True\<rparr>"
    using later(1) by (rule hub_state_cases [where t = t]) (use later(2) in auto)
  then show ?thesis using h1 st(4) by (simp add: hub_publish_def hub_subscribe_def Let_def)
qed

definition sample_track :: track_id where
  "sample_track = \<lparr>ns = [108], nm = [118]\<rparr>"

lemmas hub_eval = hub_run_def hub_new_def hub_publish_def hub_subscribe_def hub_state_def put_track_def announce_namespace_def
  ts_new_def gc_new_def gc_insert_def sample_object_def sample_track_def track_view_def rust_assert_def
  vec_insert_def partition_point_def


theorem skipped_group_poisons_track_witness:
  "\<exists>h s h1 res. h = hub_run (hub_new 2) [HPublish sample_track (sample_object 1 0), HPublish sample_track (sample_object 3 0)] \<and>
     track_view h sample_track = Some s \<and> \<not> ts_poisoned s \<and> group_gap (ts_cache s) 2 \<and>
     hub_publish h sample_track (sample_object 2 0) = (h1, res) \<and> res = None \<and>
     snd (hub_publish (hub_run h1 []) sample_track (sample_object 4 0)) = None"
proof -
  let ?h = "hub_run (hub_new 2) [HPublish sample_track (sample_object 1 0), HPublish sample_track (sample_object 3 0)]"
  obtain s where s: "track_view ?h sample_track = Some s" "\<not> ts_poisoned s" "group_gap (ts_cache s) (group_id (sample_object 2 0))"
    by (simp add: hub_eval group_gap_def)
  obtain h1 res where pub: "hub_publish ?h sample_track (sample_object 2 0) = (h1, res)" by fastforce
  from skipped_group_poisons_track [OF _ refl s pub, of "[]" "sample_object 4 0" NextObject sample_track] s pub
  show ?thesis by (auto simp: sample_object_def)
qed

end
