(* ===== verification/Moq_Dropq.thy ===== *)
theory Moq_Dropq
  imports Moq_Message "HOL-Library.Sublist"
begin

text \<open>
  The priority drop queue of the relay's downlink (\<^verbatim>\<open>crates/moq-live/src/dropq.rs\<close>).
\<close>

section \<open>The queue\<close>

datatype push_outcome = Queued | Evicted moq_object | DroppedSelf

record drop_queue =
  dq_capacity :: nat
  dq_queue :: "moq_object list"
  dq_dropped :: nat

definition dq_new :: "nat \<Rightarrow> drop_queue option" where
  "dq_new capacity =
     do { rust_assert (capacity > 0); Some \<lparr>dq_capacity = capacity, dq_queue = [], dq_dropped = 0\<rparr> }"

text \<open>
  The index of the non-head object with the largest priority value; \<open>max_by_key\<close> keeps the last
  of several maxima.
\<close>

definition better_victim :: "moq_object list \<Rightarrow> nat \<Rightarrow> nat option \<Rightarrow> nat option" where
  "better_victim q i best =
     (if is_group_head (q ! i) then best
      else case best of
             None \<Rightarrow> Some i
           | Some j \<Rightarrow> if priority (q ! j) \<le> priority (q ! i) then Some i else best)"

definition dq_victim :: "moq_object list \<Rightarrow> nat option" where
  "dq_victim q = fold (better_victim q) [0..<length q] None"

definition remove_nth :: "nat \<Rightarrow> 'a list \<Rightarrow> 'a list" where
  "remove_nth i xs = take i xs @ drop (Suc i) xs"

definition dq_push :: "drop_queue \<Rightarrow> moq_object \<Rightarrow> push_outcome \<times> drop_queue" where
  "dq_push dq obj =
     (if length (dq_queue dq) < dq_capacity dq
      then (Queued, dq\<lparr>dq_queue := dq_queue dq @ [obj]\<rparr>)
      else case dq_victim (dq_queue dq) of
             Some i \<Rightarrow>
               if is_group_head obj \<or> priority obj < priority (dq_queue dq ! i)
               then (Evicted (dq_queue dq ! i),
                     dq\<lparr>dq_queue := remove_nth i (dq_queue dq) @ [obj], dq_dropped := dq_dropped dq + 1\<rparr>)
               else (DroppedSelf, dq\<lparr>dq_dropped := dq_dropped dq + 1\<rparr>)
           | None \<Rightarrow> (DroppedSelf, dq\<lparr>dq_dropped := dq_dropped dq + 1\<rparr>))"

definition dq_pop :: "drop_queue \<Rightarrow> moq_object option \<times> drop_queue" where
  "dq_pop dq = (case dq_queue dq of [] \<Rightarrow> (None, dq) | x # xs \<Rightarrow> (Some x, dq\<lparr>dq_queue := xs\<rparr>))"

definition dq_len :: "drop_queue \<Rightarrow> nat" where
  "dq_len dq = length (dq_queue dq)"

definition dq_is_empty :: "drop_queue \<Rightarrow> bool" where
  "dq_is_empty dq \<longleftrightarrow> dq_queue dq = []"

section \<open>The victim\<close>

definition worst_of :: "moq_object list \<Rightarrow> nat \<Rightarrow> nat option \<Rightarrow> bool" where
  "worst_of q n r = (case r of
       None \<Rightarrow> (\<forall>k < n. is_group_head (q ! k))
     | Some i \<Rightarrow> i < n \<and> \<not> is_group_head (q ! i) \<and>
         (\<forall>k < n. \<not> is_group_head (q ! k) \<longrightarrow> priority (q ! k) \<le> priority (q ! i)) \<and>
         (\<forall>k < n. i < k \<and> \<not> is_group_head (q ! k) \<longrightarrow> priority (q ! k) < priority (q ! i)))"

lemma worst_of_step: "worst_of q n r \<Longrightarrow> worst_of q (Suc n) (better_victim q n r)"
  by (auto simp: worst_of_def better_victim_def less_Suc_eq not_le split: option.splits)

lemma dq_victim_worst: "worst_of q (length q) (dq_victim q)"
proof -
  have "worst_of q n (fold (better_victim q) [0..<n] None)" for n
    by (induction n) (simp add: worst_of_def, simp add: worst_of_step)
  then show ?thesis by (simp add: dq_victim_def)
qed

lemma dq_victim_Some:
  assumes "dq_victim q = Some i"
  shows "i < length q" and "\<not> is_group_head (q ! i)"
    and "\<forall>x \<in> set q. \<not> is_group_head x \<longrightarrow> priority x \<le> priority (q ! i)"
  using dq_victim_worst [of q] assms by (auto simp: worst_of_def in_set_conv_nth)

lemma dq_victim_None: "dq_victim q = None \<longleftrightarrow> (\<forall>x \<in> set q. is_group_head x)"
  using dq_victim_worst [of q] by (auto simp: worst_of_def all_set_conv_all_nth split: option.splits)

lemma remove_nth_subseq: "subseq (remove_nth i xs) xs"
proof (induction xs arbitrary: i)
  case (Cons x xs)
  show ?case
  proof (cases i)
    case 0
    then show ?thesis by (simp add: remove_nth_def list_emb_Cons)
  next
    case (Suc j)
    with Cons.IH [of j] show ?thesis by (simp add: remove_nth_def)
  qed
qed (simp add: remove_nth_def)

lemma mset_remove_nth: "i < length xs \<Longrightarrow> add_mset (xs ! i) (mset (remove_nth i xs)) = mset xs"
  by (metis remove_nth_def id_take_nth_drop mset.simps(2) mset_append union_mset_add_mset_right)

lemma length_remove_nth: "i < length xs \<Longrightarrow> length (remove_nth i xs) = length xs - 1"
  by (auto simp: remove_nth_def)

section \<open>Histories\<close>

datatype dq_op = DqPush moq_object | DqPop

text \<open>State of a history: the queue, what was popped, what was discarded (evicted or refused).\<close>

fun dq_step :: "drop_queue \<times> moq_object list \<times> moq_object list \<Rightarrow> dq_op \<Rightarrow>
    drop_queue \<times> moq_object list \<times> moq_object list" where
  "dq_step (dq, popped, lost) (DqPush obj) =
     (case dq_push dq obj of
        (Queued, dq') \<Rightarrow> (dq', popped, lost)
      | (Evicted x, dq') \<Rightarrow> (dq', popped, lost @ [x])
      | (DroppedSelf, dq') \<Rightarrow> (dq', popped, lost @ [obj]))"
| "dq_step (dq, popped, lost) DqPop =
     (case dq_pop dq of
        (None, dq') \<Rightarrow> (dq', popped, lost)
      | (Some x, dq') \<Rightarrow> (dq', popped @ [x], lost))"

definition dq_run :: "drop_queue \<Rightarrow> dq_op list \<Rightarrow> drop_queue \<times> moq_object list \<times> moq_object list" where
  "dq_run dq ops = fold (\<lambda>op s. dq_step s op) ops (dq, [], [])"

definition pushed :: "dq_op list \<Rightarrow> moq_object list" where
  "pushed ops = List.map_filter (\<lambda>op. case op of DqPush x \<Rightarrow> Some x | DqPop \<Rightarrow> None) ops"

definition dq_inv :: "nat \<Rightarrow> moq_object list \<Rightarrow> drop_queue \<times> moq_object list \<times> moq_object list \<Rightarrow> bool" where
  "dq_inv cap ps s = (case s of (dq, popped, lost) \<Rightarrow>
     dq_capacity dq = cap \<and> length (dq_queue dq) \<le> cap \<and> dq_dropped dq = length lost \<and>
     subseq (popped @ dq_queue dq) ps \<and> mset ps = mset popped + mset (dq_queue dq) + mset lost)"

lemma dq_step_inv:
  assumes "dq_inv cap ps s"
  shows "dq_inv cap (ps @ (case op of DqPush x \<Rightarrow> [x] | DqPop \<Rightarrow> [])) (dq_step s op)"
proof -
  obtain dq popped lost where s: "s = (dq, popped, lost)" by (cases s)
  show ?thesis
  proof (cases op)
    case DqPop
    with assms s show ?thesis
      by (cases "dq_queue dq") (auto simp: dq_inv_def dq_pop_def)
  next
    case (DqPush x)
    have sub: "subseq (popped @ dq_queue dq) ps" using assms s by (simp add: dq_inv_def)
    have keep: "subseq (popped @ remove_nth i (dq_queue dq) @ [x]) (ps @ [x])" for i
    proof -
      have "subseq (popped @ remove_nth i (dq_queue dq)) ps"
        using sub list_emb_append_mono [OF subseq_order.refl remove_nth_subseq, of popped i "dq_queue dq"]
        by (rule subseq_order.trans [rotated])
      then show ?thesis using list_emb_append_mono [of "(=)" _ _ "[x]" "[x]"] by (metis append.assoc subseq_order.refl)
    qed
    have stay: "subseq (popped @ dq_queue dq) (ps @ [x])" using list_emb_append_mono [OF sub, of "[]" "[x]"] by simp
    show ?thesis
    proof (cases "length (dq_queue dq) < dq_capacity dq")
      case True
      have "subseq (popped @ dq_queue dq @ [x]) (ps @ [x])"
        using list_emb_append_mono [OF sub, of "[x]" "[x]"] by simp
      with True DqPush assms s show ?thesis by (simp add: dq_inv_def dq_push_def)
    next
      case False
      show ?thesis
      proof (cases "dq_victim (dq_queue dq)")
        case None
        with False DqPush assms s stay show ?thesis by (simp add: dq_inv_def dq_push_def)
      next
        case (Some i)
        with mset_remove_nth [OF dq_victim_Some(1) [OF Some]] length_remove_nth [OF dq_victim_Some(1) [OF Some]]
          dq_victim_Some(1) [OF Some] False DqPush assms s stay keep [of i]
        show ?thesis by (auto simp: dq_inv_def dq_push_def)
      qed
    qed
  qed
qed

lemma pushed_snoc [simp]:
  "pushed (ops @ [op]) = pushed ops @ (case op of DqPush x \<Rightarrow> [x] | DqPop \<Rightarrow> [])"
  by (cases op) (simp_all add: pushed_def List.map_filter_def)

lemma dq_run_inv:
  assumes "dq_new cap = Some dq"
  shows "dq_inv cap (pushed ops) (dq_run dq ops)"
proof (induction ops rule: rev_induct)
  case Nil
  from assms show ?case by (auto simp: dq_run_def dq_inv_def pushed_def List.map_filter_def dq_new_def)
next
  case (snoc op ops)
  from dq_step_inv [OF snoc, of op] show ?case by (simp add: dq_run_def)
qed

lemma filter_remove_nth: "i < length xs \<Longrightarrow> \<not> P (xs ! i) \<Longrightarrow> filter P (remove_nth i xs) = filter P xs"
proof -
  assume i: "i < length xs" "\<not> P (xs ! i)"
  have "filter P xs = filter P (take i xs @ xs ! i # drop (Suc i) xs)" using id_take_nth_drop [OF i(1)] by simp
  with i(2) show ?thesis by (simp add: remove_nth_def)
qed

section \<open>Properties\<close>

text \<open>
  C36. The drop policy on every branch. A queue with room appends. A full queue evicts the least
  important non-head object (no queued non-head object has a larger priority value), and only
  for a group head or a strictly more important object; otherwise it refuses the new object,
  which then is a non-head no more important than any queued non-head object, or meets a queue of
  heads only. A queued group head is never discarded.
\<close>

theorem drop_policy:
  "case dq_push dq obj of
     (Queued, dq') \<Rightarrow> length (dq_queue dq) < dq_capacity dq \<and> dq_queue dq' = dq_queue dq @ [obj]
   | (Evicted x, dq') \<Rightarrow>
       dq_capacity dq \<le> length (dq_queue dq) \<and> x \<in> set (dq_queue dq) \<and> \<not> is_group_head x \<and>
       (is_group_head obj \<or> priority obj < priority x) \<and>
       list_all (\<lambda>y. is_group_head y \<or> priority y \<le> priority x) (dq_queue dq) \<and>
       add_mset x (mset (dq_queue dq')) = add_mset obj (mset (dq_queue dq)) \<and>
       filter is_group_head (dq_queue dq') = filter is_group_head (dq_queue dq) @ (if is_group_head obj then [obj] else [])
   | (DroppedSelf, dq') \<Rightarrow>
       dq_capacity dq \<le> length (dq_queue dq) \<and> dq_queue dq' = dq_queue dq \<and>
       (list_all is_group_head (dq_queue dq) \<or>
        (\<exists>y. y \<in> set (dq_queue dq) \<and> \<not> is_group_head obj \<and> priority y \<le> priority obj \<and> \<not> is_group_head y \<and>
           list_all (\<lambda>z. is_group_head z \<or> priority z \<le> priority y) (dq_queue dq)))"
proof (cases "length (dq_queue dq) < dq_capacity dq")
  case True
  then show ?thesis by (simp add: dq_push_def)
next
  case False
  show ?thesis
  proof (cases "dq_victim (dq_queue dq)")
    case None
    then have "list_all is_group_head (dq_queue dq)" by (simp add: dq_victim_None list_all_iff)
    with None False show ?thesis by (simp add: dq_push_def)
  next
    case (Some i)
    note v = dq_victim_Some [OF Some]
    have "add_mset (dq_queue dq ! i) (mset (remove_nth i (dq_queue dq) @ [obj])) = add_mset obj (mset (dq_queue dq))"
      using mset_remove_nth [OF v(1)] by simp
    moreover have "filter is_group_head (remove_nth i (dq_queue dq)) = filter is_group_head (dq_queue dq)"
      using v by (intro filter_remove_nth)
    moreover have "dq_queue dq ! i \<in> set (dq_queue dq)" using v(1) by simp
    moreover have "list_all (\<lambda>y. is_group_head y \<or> priority y \<le> priority (dq_queue dq ! i)) (dq_queue dq)"
      using v(3) by (auto simp: list_all_iff)
    ultimately show ?thesis
      using False Some v(2) by (auto simp: dq_push_def not_less)
  qed
qed

text \<open>
  C20. Over any history of pushes and pops from a new queue, the queue never exceeds its capacity,
  objects leave it in the order they came, nothing is duplicated, and every pushed object is
  popped, still queued, or counted as dropped.
\<close>

theorem drop_queue_conserves:
  assumes "dq_new cap = Some dq"
  shows "case dq_run dq ops of (dq', popped, lost) \<Rightarrow>
    dq_len dq' \<le> cap \<and> subseq (popped @ dq_queue dq') (pushed ops) \<and>
    mset (pushed ops) = mset popped + mset (dq_queue dq') + mset lost \<and> dq_dropped dq' = length lost"
  using dq_run_inv [OF assms, of ops] by (auto simp: dq_inv_def dq_len_def)

definition dq_sample :: "u64 \<Rightarrow> u64 \<Rightarrow> u8 \<Rightarrow> moq_object" where
  "dq_sample g i p = \<lparr>group_id = g, object_id = i, priority = p, timestamp_ms = 0, payload = []\<rparr>"

theorem drop_queue_conserves_witness:
  "\<exists>dq. dq_new 2 = Some dq \<and>
     (case dq_run dq [DqPush (dq_sample 1 0 0), DqPush (dq_sample 1 1 9), DqPush (dq_sample 1 2 5), DqPop] of
        (dq', popped, lost) \<Rightarrow> popped = [dq_sample 1 0 0] \<and> lost = [dq_sample 1 1 9] \<and>
          subseq (popped @ dq_queue dq') [dq_sample 1 0 0, dq_sample 1 1 9, dq_sample 1 2 5])"
proof -
  let ?dq = "\<lparr>dq_capacity = 2, dq_queue = [], dq_dropped = 0\<rparr>"
  let ?ops = "[DqPush (dq_sample 1 0 0), DqPush (dq_sample 1 1 9), DqPush (dq_sample 1 2 5), DqPop]"
  have new: "dq_new 2 = Some ?dq" by (simp add: dq_new_def rust_assert_def)
  have "dq_run ?dq ?ops = (\<lparr>dq_capacity = 2, dq_queue = [dq_sample 1 2 5], dq_dropped = 1\<rparr>,
      [dq_sample 1 0 0], [dq_sample 1 1 9])"
    by (simp add: dq_run_def dq_push_def dq_pop_def dq_victim_def better_victim_def remove_nth_def upt_rec
        is_group_head_def dq_sample_def)
  with drop_queue_conserves [OF new, of ?ops] new show ?thesis
    by (simp add: pushed_def List.map_filter_def)
qed

end
