(* ===== verification/Moq_Forward.thy ===== *)
theory Moq_Forward
  imports Moq_Dropq
begin

text \<open>
  The forwarder of one subscription (\<open>spawn_forwarder\<close> in \<^verbatim>\<open>crates/moq-live/src/relay.rs\<close>): a reader
  task takes live objects from the broadcast channel into the drop queue, a writer task sends
  the replay and then the queue downstream, one stream per group. The two tasks interleave at the
  lock of the queue; what the channel and the connection answer is part of each step's label.
\<close>

section \<open>The two tasks\<close>

definition DROP_QUEUE_CAPACITY :: nat where
  "DROP_QUEUE_CAPACITY = 64"

datatype recv_result = Received moq_object | Lagged nat | Closed

datatype writer_state = WReplay | WLive | WFinished

text \<open>
  \<open>fw_streams\<close> lists the streams opened downstream, the newest last, each with its group and the
  objects written to it; \<open>fw_current\<close> is the group of the stream still open.
\<close>

record forwarder =
  fw_alias :: u64
  fw_replay :: "moq_object list"
  fw_queue :: drop_queue
  fw_closed :: bool
  fw_skip :: bool
  fw_reading :: bool
  fw_writer :: writer_state
  fw_current :: "u64 option"
  fw_streams :: "(u64 \<times> moq_object list) list"

definition fw_spawn :: "u64 \<Rightarrow> moq_object list \<Rightarrow> forwarder option" where
  "fw_spawn alias rep = do {
     q \<leftarrow> dq_new DROP_QUEUE_CAPACITY;
     Some \<lparr>fw_alias = alias, fw_replay = rep, fw_queue = q, fw_closed = False, fw_skip = False, fw_reading = True,
       fw_writer = WReplay, fw_current = None, fw_streams = []\<rparr>
   }"

definition fw_read :: "forwarder \<Rightarrow> recv_result \<Rightarrow> forwarder option" where
  "fw_read f r =
     (if \<not> fw_reading f then None
      else Some (case r of
        Received obj \<Rightarrow>
          if fw_skip f \<and> \<not> is_group_head obj then f
          else f\<lparr>fw_skip := False, fw_queue := snd (dq_push (fw_queue f) obj)\<rparr>
      | Lagged n \<Rightarrow> f\<lparr>fw_skip := True\<rparr>
      | Closed \<Rightarrow> f\<lparr>fw_reading := False, fw_closed := True\<rparr>))"

definition open_stream :: "forwarder \<Rightarrow> u64 \<Rightarrow> forwarder" where
  "open_stream f g = f\<lparr>fw_current := Some g, fw_streams := fw_streams f @ [(g, [])]\<rparr>"

definition write_to_stream :: "forwarder \<Rightarrow> moq_object list \<Rightarrow> forwarder" where
  "write_to_stream f objs =
     (case last (fw_streams f) of (g, ws) \<Rightarrow> f\<lparr>fw_streams := butlast (fw_streams f) @ [(g, ws @ objs)]\<rparr>)"

definition stop_writer :: "forwarder \<Rightarrow> forwarder" where
  "stop_writer f = f\<lparr>fw_writer := WFinished, fw_current := None\<rparr>"

text \<open>
  The replay goes out on one stream of the first object's group; \<open>written\<close> is how many of its objects
  the connection accepts before an error.
\<close>

definition fw_write_replay :: "forwarder \<Rightarrow> bool \<Rightarrow> nat \<Rightarrow> forwarder" where
  "fw_write_replay f opened written =
     (case fw_replay f of
        [] \<Rightarrow> f\<lparr>fw_writer := WLive\<rparr>
      | first # _ \<Rightarrow>
          if \<not> opened then stop_writer f
          else let f1 = write_to_stream (open_stream f (group_id first)) (take written (fw_replay f)) in
               if written < length (fw_replay f) then stop_writer f1
               else f1\<lparr>fw_writer := WLive, fw_current := None\<rparr>)"

text \<open>
  One round of the live loop. An empty queue makes the writer wait (the step is not enabled) or,
  once the reader has closed the queue, finish.
\<close>

definition fw_write_live :: "forwarder \<Rightarrow> bool \<Rightarrow> bool \<Rightarrow> forwarder option" where
  "fw_write_live f opened written =
     (case dq_pop (fw_queue f) of
        (None, _) \<Rightarrow> if fw_closed f then Some (stop_writer f) else None
      | (Some obj, q) \<Rightarrow>
          let f1 = f\<lparr>fw_queue := q\<rparr> in
          if fw_current f1 \<noteq> Some (group_id obj) \<and> \<not> opened then Some (stop_writer f1)
          else let f2 = (if fw_current f1 \<noteq> Some (group_id obj) then open_stream f1 (group_id obj) else f1) in
               if written then Some (write_to_stream f2 [obj]) else Some (stop_writer f2))"

datatype fw_action = FwRead recv_result | FwWrite bool nat

fun fw_step :: "forwarder \<Rightarrow> fw_action \<Rightarrow> forwarder option" where
  "fw_step f (FwRead r) = fw_read f r"
| "fw_step f (FwWrite opened written) =
     (case fw_writer f of
        WReplay \<Rightarrow> Some (fw_write_replay f opened written)
      | WLive \<Rightarrow> fw_write_live f opened (0 < written)
      | WFinished \<Rightarrow> None)"

section \<open>What the reader lets through\<close>

text \<open>The live objects that reach the queue: after a lag nothing until the next group head.\<close>

fun let_through :: "bool \<Rightarrow> fw_action list \<Rightarrow> moq_object list" where
  "let_through skip [] = []"
| "let_through skip (FwRead (Received obj) # as) =
     (if skip \<and> \<not> is_group_head obj then let_through skip as else obj # let_through False as)"
| "let_through skip (FwRead (Lagged n) # as) = let_through True as"
| "let_through skip (a # as) = let_through skip as"

fun lagging :: "bool \<Rightarrow> fw_action list \<Rightarrow> bool" where
  "lagging skip [] = skip"
| "lagging skip (FwRead (Received obj) # as) = lagging (skip \<and> \<not> is_group_head obj) as"
| "lagging skip (FwRead (Lagged n) # as) = lagging True as"
| "lagging skip (a # as) = lagging skip as"

lemma let_through_append: "let_through skip (as @ bs) = let_through skip as @ let_through (lagging skip as) bs"
  by (induction skip as rule: let_through.induct) auto

lemma lagging_append: "lagging skip (as @ bs) = lagging (lagging skip as) bs"
  by (induction skip as rule: lagging.induct) auto

section \<open>Invariant\<close>

definition written_objects :: "forwarder \<Rightarrow> moq_object list" where
  "written_objects f = concat (map snd (fw_streams f))"

definition replay_stream :: "forwarder \<Rightarrow> (u64 \<times> moq_object list) list" where
  "replay_stream f = (if fw_replay f = [] then [] else [(group_id (hd (fw_replay f)), fw_replay f)])"

text \<open>A stream carries objects of its own group only, and a new stream means a new group.\<close>

definition one_group_each :: "(u64 \<times> moq_object list) list \<Rightarrow> bool" where
  "one_group_each ss \<longleftrightarrow> list_all (\<lambda>(g, ws). list_all (\<lambda>x. group_id x = g) ws) ss \<and> distinct_adj (map fst ss)"

lemma one_group_each_Nil [simp]: "one_group_each []"
  by (simp add: one_group_each_def)

lemma one_group_each_open:
  "one_group_each ss \<Longrightarrow> (ss \<noteq> [] \<Longrightarrow> fst (last ss) \<noteq> g) \<Longrightarrow> one_group_each (ss @ [(g, [])])"
  by (auto simp: one_group_each_def distinct_adj_append_iff last_map)

lemma one_group_each_write:
  assumes "one_group_each (ss @ [(g, ws)])" "group_id x = g"
  shows "one_group_each (ss @ [(g, ws @ [x])])"
  using assms by (simp add: one_group_each_def)

text \<open>
  After the labels \<open>as\<close>: the queue's history is one of pushes of what was let through, and the live
  streams carry what it gave out (without the last object when writing it failed).
\<close>

definition queue_ok :: "fw_action list \<Rightarrow> forwarder \<Rightarrow> moq_object list \<Rightarrow> bool" where
  "queue_ok as f popped \<longleftrightarrow> fw_skip f = lagging False as \<and>
     (\<exists>lost. dq_inv DROP_QUEUE_CAPACITY (let_through False as) (fw_queue f, popped, lost))"

definition writer_ok :: "forwarder \<Rightarrow> moq_object list \<Rightarrow> (u64 \<times> moq_object list) list \<Rightarrow> bool" where
  "writer_ok f popped live \<longleftrightarrow>
     (case fw_writer f of
        WReplay \<Rightarrow> fw_streams f = [] \<and> popped = [] \<and> live = [] \<and> fw_current f = None
      | WLive \<Rightarrow> fw_streams f = replay_stream f @ live \<and> concat (map snd live) = popped \<and>
          fw_current f = (if live = [] then None else Some (fst (last live)))
      | WFinished \<Rightarrow>
          (fw_streams f = replay_stream f @ live \<and> prefix (concat (map snd live)) popped) \<or>
          (popped = [] \<and> live = [] \<and> fw_replay f \<noteq> [] \<and>
            (fw_streams f = [] \<or> (\<exists>k. fw_streams f = [(group_id (hd (fw_replay f)), take k (fw_replay f))]))))"

definition fw_inv :: "fw_action list \<Rightarrow> forwarder \<Rightarrow> bool" where
  "fw_inv as f \<longleftrightarrow> (\<exists>popped live. queue_ok as f popped \<and> one_group_each live \<and> writer_ok f popped live)"

lemma fw_inv_spawn: "fw_spawn alias rep = Some f \<Longrightarrow> fw_inv [] f"
  by (auto simp: fw_spawn_def bind_eq_Some_conv dq_new_def fw_inv_def queue_ok_def dq_inv_def writer_ok_def
      intro!: exI [of _ "[]"])

lemma queue_ok_push:
  assumes "queue_ok as f popped"
  shows "\<exists>lost. dq_inv DROP_QUEUE_CAPACITY (let_through False as @ [obj]) (snd (dq_push (fw_queue f) obj), popped, lost)"
proof -
  from assms obtain lost where "dq_inv DROP_QUEUE_CAPACITY (let_through False as) (fw_queue f, popped, lost)"
    by (auto simp: queue_ok_def)
  from dq_step_inv [OF this, of "DqPush obj"] show ?thesis
    by (auto split: prod.splits push_outcome.splits)
qed

lemma fw_read_inv:
  assumes "fw_inv as f" "fw_read f r = Some f'"
  shows "fw_inv (as @ [FwRead r]) f'"
proof -
  from assms(1) obtain popped live where q: "queue_ok as f popped" and l: "one_group_each live" "writer_ok f popped live"
    by (auto simp: fw_inv_def)
  from q have skip: "fw_skip f = lagging False as" by (simp add: queue_ok_def)
  from assms(2) have "fw_writer f' = fw_writer f" "fw_streams f' = fw_streams f" "fw_replay f' = fw_replay f" "fw_current f' = fw_current f"
    by (auto simp: fw_read_def split: recv_result.splits if_splits)
  with l(2) have "writer_ok f' popped live" by (simp only: writer_ok_def replay_stream_def)
  moreover have "queue_ok (as @ [FwRead r]) f' popped"
    using q skip assms(2) queue_ok_push [OF q]
    by (auto simp: queue_ok_def fw_read_def let_through_append lagging_append split: recv_result.splits if_splits)
  ultimately show ?thesis using l(1) by (auto simp: fw_inv_def)
qed

lemma queue_ok_write: "queue_ok (as @ [FwWrite b n]) f popped = queue_ok as f popped"
  by (simp add: queue_ok_def let_through_append lagging_append)

lemma fw_write_replay_inv:
  assumes "fw_inv as f" "fw_writer f = WReplay"
  shows "fw_inv (as @ [FwWrite b n]) (fw_write_replay f b n)"
proof -
  from assms have q: "queue_ok as f []" and s: "fw_streams f = []" "fw_current f = None"
    by (auto simp: fw_inv_def writer_ok_def)
  have "writer_ok (fw_write_replay f b n) [] []"
    using s by (auto simp: fw_write_replay_def writer_ok_def replay_stream_def stop_writer_def write_to_stream_def
        open_stream_def Let_def split: list.splits)
  moreover have "queue_ok as (fw_write_replay f b n) []"
    using q by (auto simp: queue_ok_def fw_write_replay_def stop_writer_def write_to_stream_def open_stream_def Let_def
        split: list.splits prod.splits)
  ultimately show ?thesis by (auto simp: fw_inv_def queue_ok_write intro!: exI [of _ "[]"])
qed

lemma queue_ok_pop:
  assumes "queue_ok as f popped" "dq_pop (fw_queue f) = (Some obj, q)" "fw_queue f' = q" "fw_skip f' = fw_skip f"
  shows "queue_ok as f' (popped @ [obj])"
proof -
  from assms(1) obtain lost where "dq_inv DROP_QUEUE_CAPACITY (let_through False as) (fw_queue f, popped, lost)"
    by (auto simp: queue_ok_def)
  from dq_step_inv [OF this, of DqPop] assms show ?thesis by (auto simp: queue_ok_def)
qed

text \<open>The live streams after opening a stream for the popped object, and after writing it.\<close>

definition opened_for :: "moq_object \<Rightarrow> u64 option \<Rightarrow> (u64 \<times> moq_object list) list \<Rightarrow> (u64 \<times> moq_object list) list" where
  "opened_for obj current live = (if current = Some (group_id obj) then live else live @ [(group_id obj, [])])"

definition written_to :: "moq_object \<Rightarrow> (u64 \<times> moq_object list) list \<Rightarrow> (u64 \<times> moq_object list) list" where
  "written_to obj live = butlast live @ [(group_id obj, snd (last live) @ [obj])]"

definition current_of :: "(u64 \<times> moq_object list) list \<Rightarrow> u64 option" where
  "current_of live = (if live = [] then None else Some (fst (last live)))"

lemma opened_for_ok: "one_group_each live \<Longrightarrow> one_group_each (opened_for obj (current_of live) live)"
  by (cases "live = []")
    (auto simp: opened_for_def current_of_def intro!: one_group_each_open one_group_each_open [where ss = "[]", simplified])

lemma opened_for_last:
  "opened_for obj (current_of live) live =
     butlast (opened_for obj (current_of live) live) @ [(group_id obj, snd (last (opened_for obj (current_of live) live)))]"
  by (cases live rule: rev_cases) (auto simp: opened_for_def current_of_def butlast_append)

lemma opened_for_contents: "concat (map snd (opened_for obj c live)) = concat (map snd live)"
  by (simp add: opened_for_def)

lemma written_to_ok:
  assumes "one_group_each ss" "ss = butlast ss @ [(group_id obj, snd (last ss))]"
  shows "one_group_each (written_to obj ss)" and "concat (map snd (written_to obj ss)) = concat (map snd ss) @ [obj]"
proof -
  from assms show "one_group_each (written_to obj ss)"
    using one_group_each_write [of "butlast ss" "group_id obj" "snd (last ss)" obj] by (simp add: written_to_def)
  from arg_cong [OF assms(2), of "\<lambda>s. concat (map snd s)"]
  show "concat (map snd (written_to obj ss)) = concat (map snd ss) @ [obj]" by (simp add: written_to_def)
qed

lemma fw_write_live_frame:
  assumes "fw_write_live f b ok = Some f'" "dq_pop (fw_queue f) = (Some obj, q)"
  shows "fw_queue f' = q" "fw_skip f' = fw_skip f" "fw_replay f' = fw_replay f"
  using assms
  by (auto simp: fw_write_live_def Let_def open_stream_def stop_writer_def write_to_stream_def split: if_splits prod.splits)

lemma fw_write_live_streams:
  assumes "fw_write_live f b ok = Some f'" "dq_pop (fw_queue f) = (Some obj, q)" "fw_streams f = rs @ live"
    "fw_current f = current_of live" "fw_writer f = WLive"
  shows "(fw_writer f' = WFinished \<and> fw_streams f' \<in> {rs @ live, rs @ opened_for obj (current_of live) live}) \<or>
    (fw_writer f' = WLive \<and> fw_streams f' = rs @ written_to obj (opened_for obj (current_of live) live) \<and>
     fw_current f' = Some (group_id obj))"
proof (cases "current_of live = Some (group_id obj)")
  case True
  then obtain ss ws where "live = ss @ [(group_id obj, ws)]"
    by (cases live rule: rev_cases) (auto simp: current_of_def)
  with True assms show ?thesis
    by (auto simp: fw_write_live_def Let_def stop_writer_def write_to_stream_def opened_for_def written_to_def
        butlast_append split: if_splits)
next
  case False
  with assms show ?thesis
    by (auto simp: fw_write_live_def Let_def open_stream_def stop_writer_def write_to_stream_def opened_for_def
        written_to_def butlast_append split: if_splits)
qed

lemma fw_write_live_inv:
  assumes inv: "fw_inv as f" and w: "fw_writer f = WLive" and step: "fw_write_live f b ok = Some f'"
  shows "fw_inv (as @ [FwWrite b n]) f'"
proof -
  from inv w obtain popped live where q: "queue_ok as f popped" and l: "one_group_each live"
    and s: "fw_streams f = replay_stream f @ live" "concat (map snd live) = popped" "fw_current f = current_of live"
    by (auto simp: fw_inv_def writer_ok_def current_of_def)
  obtain r qq where pop: "dq_pop (fw_queue f) = (r, qq)" by fastforce
  show ?thesis
  proof (cases r)
    case None
    with step pop have "f' = stop_writer f" by (auto simp: fw_write_live_def split: if_splits)
    then have "writer_ok f' popped live" "queue_ok as f' popped"
      using s q by (auto simp: writer_ok_def stop_writer_def replay_stream_def queue_ok_def)
    with l show ?thesis by (auto simp: fw_inv_def queue_ok_write)
  next
    case (Some obj)
    note st = fw_write_live_streams [OF step pop [unfolded Some] s(1,3) w] fw_write_live_frame [OF step pop [unfolded Some]]
    let ?open = "opened_for obj (current_of live) live"
    have ok: "queue_ok as f' (popped @ [obj])" using st by (intro queue_ok_pop [OF q pop [unfolded Some]]) auto
    have rs: "replay_stream f' = replay_stream f" using st(4) by (simp add: replay_stream_def)
    note l1 = opened_for_ok [OF l, of obj]
    note l2 = written_to_ok [OF l1 opened_for_last]
    from st(1) consider "fw_writer f' = WFinished" "fw_streams f' = replay_stream f @ live"
      | "fw_writer f' = WFinished" "fw_streams f' = replay_stream f @ ?open"
      | "fw_writer f' = WLive" "fw_streams f' = replay_stream f @ written_to obj ?open" "fw_current f' = Some (group_id obj)"
      by auto
    then have "\<exists>live'. one_group_each live' \<and> writer_ok f' (popped @ [obj]) live'"
    proof cases
      case 1
      with l s rs show ?thesis by (auto simp: writer_ok_def intro!: exI [of _ live])
    next
      case 2
      with l1 s rs show ?thesis by (auto simp: writer_ok_def opened_for_contents intro!: exI [of _ ?open])
    next
      case 3
      with l2 s rs show ?thesis
        by (auto simp: writer_ok_def opened_for_contents written_to_def intro!: exI [of _ "written_to obj ?open"])
    qed
    with ok show ?thesis by (auto simp: fw_inv_def queue_ok_write)
  qed
qed

lemma fw_step_inv: "fw_inv as f \<Longrightarrow> fw_step f a = Some f' \<Longrightarrow> fw_inv (as @ [a]) f'"
  by (cases a) (auto intro: fw_read_inv fw_write_replay_inv fw_write_live_inv split: writer_state.splits)

lemma fw_run_inv: "run_steps fw_step f as = Some f' \<Longrightarrow> fw_inv as0 f \<Longrightarrow> fw_inv (as0 @ as) f'"
proof (induction as arbitrary: f as0)
  case (Cons a as)
  then obtain f1 where "fw_step f a = Some f1" "run_steps fw_step f1 as = Some f'" by (auto split: option.splits)
  with Cons.IH [OF _ fw_step_inv [OF Cons.prems(2)]] show ?case by simp
qed simp

lemma fw_step_replay: "fw_step f a = Some f' \<Longrightarrow> fw_replay f' = fw_replay f"
  by (cases a) (auto simp: fw_read_def fw_write_replay_def fw_write_live_def open_stream_def write_to_stream_def
      stop_writer_def Let_def split: recv_result.splits if_splits writer_state.splits list.splits prod.splits option.splits)

lemma fw_run_replay: "run_steps fw_step f as = Some f' \<Longrightarrow> fw_replay f' = fw_replay f"
  by (induction as arbitrary: f) (auto split: option.splits simp: fw_step_replay)

section \<open>Properties\<close>

text \<open>
  C12. Whatever the interleaving of the two tasks, the lags of the channel and the failures of the
  connection, a subscriber receives its replay followed by live objects in their order, with
  nothing repeated: what was written is a prefix of the replay and a subsequence of the live
  objects outside lag gaps. After the replay each stream carries one group. While the writer
  is live, the queue is drained and nothing was dropped, the subscriber has everything.
\<close>

theorem forwarder_delivers_in_order:
  assumes "fw_spawn alias rep = Some f0" "run_steps fw_step f0 as = Some f"
  shows "\<exists>sent live. prefix (written_objects f) (rep @ sent) \<and> subseq sent (let_through False as) \<and>
    one_group_each live \<and> suffix live (fw_streams f) \<and> length (fw_streams f) \<le> Suc (length live) \<and>
    (fw_writer f = WLive \<and> dq_queue (fw_queue f) = [] \<and> dq_dropped (fw_queue f) = 0 \<longrightarrow>
       written_objects f = rep @ let_through False as)"
proof -
  have rep: "fw_replay f = rep"
    using fw_run_replay [OF assms(2)] assms(1) by (auto simp: fw_spawn_def bind_eq_Some_conv)
  from fw_run_inv [OF assms(2) fw_inv_spawn [OF assms(1)]] obtain popped live lost where
    inv: "dq_inv DROP_QUEUE_CAPACITY (let_through False as) (fw_queue f, popped, lost)" "one_group_each live"
      and w: "writer_ok f popped live"
    by (auto simp: fw_inv_def queue_ok_def)
  from inv(1) have sub: "subseq popped (let_through False as)"
    using list_emb_append_mono [OF subseq_order.refl list_emb_Nil, of popped "dq_queue (fw_queue f)"]
    by (auto simp: dq_inv_def intro: subseq_order.trans)
  have all: "popped = let_through False as" if "dq_queue (fw_queue f) = []" "dq_dropped (fw_queue f) = 0"
  proof -
    from inv(1) that have "mset (let_through False as) = mset popped" by (simp add: dq_inv_def)
    then show ?thesis using sub subseq_same_length [of popped] by (metis mset_eq_length)
  qed
  have contents: "written_objects f = rep @ concat (map snd live)" if "fw_streams f = replay_stream f @ live"
    using that rep by (simp add: written_objects_def replay_stream_def)
  have "prefix (written_objects f) (rep @ popped) \<and> suffix live (fw_streams f) \<and> length (fw_streams f) \<le> Suc (length live)"
  proof (cases "fw_streams f = replay_stream f @ live")
    case True
    with w contents [OF True] show ?thesis
      by (auto simp: writer_ok_def replay_stream_def suffix_def split: writer_state.splits)
  next
    case False
    with w rep show ?thesis
      by (auto simp: writer_ok_def written_objects_def take_is_prefix split: writer_state.splits
          intro: prefix_order.trans [OF take_is_prefix])
  qed
  moreover have "written_objects f = rep @ let_through False as"
    if "fw_writer f = WLive" "dq_queue (fw_queue f) = []" "dq_dropped (fw_queue f) = 0"
    using that w all contents by (simp add: writer_ok_def)
  ultimately show ?thesis using sub inv(2) by (intro exI [of _ popped] exI [of _ live] conjI impI) auto
qed

theorem forwarder_delivers_in_order_witness:
  "\<exists>f0 f. fw_spawn 7 [dq_sample 1 0 0] = Some f0 \<and>
     run_steps fw_step f0 [FwRead (Received (dq_sample 1 1 0)), FwWrite True 1, FwWrite True 1, FwRead (Lagged 3),
       FwRead (Received (dq_sample 1 5 0)), FwRead (Received (dq_sample 2 0 0)), FwWrite True 1] = Some f \<and>
     written_objects f = [dq_sample 1 0 0, dq_sample 1 1 0, dq_sample 2 0 0] \<and>
     fw_streams f = [(1, [dq_sample 1 0 0]), (1, [dq_sample 1 1 0]), (2, [dq_sample 2 0 0])]"
proof -
  let ?as = "[FwRead (Received (dq_sample 1 1 0)), FwWrite True 1, FwWrite True 1, FwRead (Lagged 3),
    FwRead (Received (dq_sample 1 5 0)), FwRead (Received (dq_sample 2 0 0)), FwWrite True 1]"
  let ?q = "\<lparr>dq_capacity = 64, dq_queue = [], dq_dropped = 0\<rparr>"
  let ?init = "\<lparr>fw_alias = 7, fw_replay = [dq_sample 1 0 0], fw_queue = ?q, fw_closed = False, fw_skip = False, fw_reading = True,
    fw_writer = WReplay, fw_current = None, fw_streams = []\<rparr>"
  let ?final = "?init\<lparr>fw_writer := WLive, fw_current := Some 2,
    fw_streams := [(1, [dq_sample 1 0 0]), (1, [dq_sample 1 1 0]), (2, [dq_sample 2 0 0])]\<rparr>"
  have new: "fw_spawn 7 [dq_sample 1 0 0] = Some ?init"
    by (simp add: fw_spawn_def dq_new_def DROP_QUEUE_CAPACITY_def rust_assert_def)
  have run: "run_steps fw_step ?init ?as = Some ?final"
    by (simp add: fw_read_def fw_write_replay_def fw_write_live_def dq_push_def dq_pop_def dq_sample_def is_group_head_def
        write_to_stream_def open_stream_def Let_def)
  have "let_through False ?as = [dq_sample 1 1 0, dq_sample 2 0 0]" by (simp add: is_group_head_def dq_sample_def)
  with forwarder_delivers_in_order [OF new run] have "written_objects ?final = [dq_sample 1 0 0, dq_sample 1 1 0, dq_sample 2 0 0]"
    by auto
  with new run show ?thesis by auto
qed

end
