(* ===== verification/Moq_Relay.thy ===== *)
theory Moq_Relay
  imports Moq_Hub Moq_Forward
begin

text \<open>
  The relay (\<^verbatim>\<open>crates/moq-live/src/relay.rs\<close>): set-up of a connection, the control loop, the
  negotiation of track aliases and the ingestion of group streams. A connection is named by its
  stable id; what a peer sends and whether a control message can be sent (\<open>send\<close>) are inputs. The
  messages the relay sends are returned next to the new state.
\<close>

section \<open>State\<close>

type_synonym conn_id = nat

type_synonym outbox = "(conn_id \<times> message) list"

type_synonym sender = "conn_id \<Rightarrow> message \<Rightarrow> unit result"

record publisher_reg =
  pr_control :: conn_id
  pr_alias :: "u64 option"

record relay =
  rl_hub :: hub
  rl_conns :: "conn_id list"
  rl_publishers :: "(track_id, publisher_reg) hmap"
  rl_next_alias :: u64

text \<open>A running forwarder and the position of its receiver in the track's broadcast.\<close>

type_synonym forwarders = "(u64, forwarder \<times> nat) hmap"

definition relay_new :: "hub \<Rightarrow> relay" where
  "relay_new h = \<lparr>rl_hub = h, rl_conns = [], rl_publishers = [], rl_next_alias = 1\<rparr>"

section \<open>Set-up and shutdown\<close>

definition conn_setup :: "sender \<Rightarrow> conn_id \<Rightarrow> relay \<Rightarrow> message option result \<Rightarrow> relay \<times> outbox \<times> role result" where
  "conn_setup send c rl first =
     (case first of
        Err e \<Rightarrow> (rl, [], Err e)
      | Ok (Some (Setup version role)) \<Rightarrow>
          if version \<noteq> PROTO_VERSION then (rl, [], Err InvalidData)
          else let reply = Setup PROTO_VERSION Both in
               (case send c reply of
                  Err e \<Rightarrow> (rl, [(c, reply)], Err e)
                | Ok _ \<Rightarrow> (rl\<lparr>rl_conns := List.insert c (rl_conns rl)\<rparr>, [(c, reply)], Ok role))
      | Ok _ \<Rightarrow> (rl, [], Err InvalidData))"

definition conn_cleanup :: "conn_id \<Rightarrow> relay \<Rightarrow> relay" where
  "conn_cleanup c rl = rl\<lparr>rl_conns := removeAll c (rl_conns rl)\<rparr>"

definition shutdown_reason :: bytes where
  "shutdown_reason = [114, 101, 108, 97, 121, 32, 228, 188, 152, 233, 155, 133, 229, 133, 179, 233, 151, 173]"

definition relay_shutdown :: "(conn_id list \<Rightarrow> conn_id list) \<Rightarrow> relay \<Rightarrow> outbox" where
  "relay_shutdown iter rl = map (\<lambda>c. (c, Goaway shutdown_reason)) (iter (rl_conns rl))"

section \<open>Track aliases\<close>

definition maybe_bind_upstream_alias :: "sender \<Rightarrow> relay \<Rightarrow> track_id \<Rightarrow> relay \<times> outbox" where
  "maybe_bind_upstream_alias send rl t =
     (case hm_get (rl_publishers rl) t of
        None \<Rightarrow> (rl, [])
      | Some reg \<Rightarrow>
          if pr_alias reg \<noteq> None then (rl, [])
          else
            let alias = rl_next_alias rl;
                msg = Subscribe alias alias t NextObject 0;
                rl1 = rl\<lparr>rl_next_alias := alias + 1\<rparr>
            in (case send (pr_control reg) msg of
                  Ok _ \<Rightarrow> (rl1\<lparr>rl_publishers := hm_insert t (reg\<lparr>pr_alias := Some alias\<rparr>) (rl_publishers rl1)\<rparr>,
                            [(pr_control reg, msg)])
                | Err _ \<Rightarrow> (rl1, [(pr_control reg, msg)])))"

text \<open>The table is searched in the map's iteration order \<open>iter\<close>.\<close>

type_synonym pub_order = "(track_id, publisher_reg) hmap \<Rightarrow> (track_id, publisher_reg) hmap"

definition resolve_track_ref :: "pub_order \<Rightarrow> relay \<Rightarrow> conn_id \<Rightarrow> track_ref \<Rightarrow> relay \<times> track_id result" where
  "resolve_track_ref iter rl c r =
     (case r of
        RefFull t \<Rightarrow>
          ((case hm_get (rl_publishers rl) t of
              Some _ \<Rightarrow> rl
            | None \<Rightarrow> rl\<lparr>rl_publishers := hm_insert t \<lparr>pr_control = c, pr_alias = None\<rparr> (rl_publishers rl)\<rparr>),
           Ok t)
      | RefAlias a \<Rightarrow>
          (rl, case find (\<lambda>(t, reg). pr_alias reg = Some a) (iter (rl_publishers rl)) of
                 Some (t, _) \<Rightarrow> Ok t
               | None \<Rightarrow> Err InvalidData))"

section \<open>Group streams\<close>

text \<open>
  The objects of a stream get the group of its header and go to the hub; other messages are ignored.
  A panic in the hub ends the task (\<^term>\<open>None\<close>).
\<close>

fun publish_objects :: "hub \<Rightarrow> track_id \<Rightarrow> u64 \<Rightarrow> message list \<Rightarrow> hub \<times> unit option" where
  "publish_objects h t g [] = (h, Some ())"
| "publish_objects h t g (Object obj # msgs) =
     (case hub_publish h t (obj\<lparr>group_id := g\<rparr>) of
        (h', None) \<Rightarrow> (h', None)
      | (h', Some _) \<Rightarrow> publish_objects h' t g msgs)"
| "publish_objects h t g (_ # msgs) = publish_objects h t g msgs"

text \<open>A stream that delivers the messages \<open>msgs\<close> and then ends cleanly or with an error (\<open>fin\<close>).\<close>

definition handle_group_stream :: "pub_order \<Rightarrow> relay \<Rightarrow> conn_id \<Rightarrow> message list \<Rightarrow> unit result \<Rightarrow> relay \<times> unit result option" where
  "handle_group_stream iter rl c msgs fin =
     (case msgs of
        [] \<Rightarrow> (rl, Some (case fin of Ok _ \<Rightarrow> Err InvalidData | Err e \<Rightarrow> Err e))
      | GroupHeader r g # rest \<Rightarrow>
          (case resolve_track_ref iter rl c r of
             (rl1, Err e) \<Rightarrow> (rl1, Some (Err e))
           | (rl1, Ok t) \<Rightarrow>
               (case publish_objects (rl_hub rl1) t g rest of
                  (h, None) \<Rightarrow> (rl1\<lparr>rl_hub := h\<rparr>, None)
                | (h, Some _) \<Rightarrow> (rl1\<lparr>rl_hub := h\<rparr>, Some fin)))
      | _ \<Rightarrow> (rl, Some (Err InvalidData)))"

text \<open>The other end: what \<open>open_group_stream\<close> and \<open>write_object\<close> put on a stream.\<close>

definition open_group_stream :: "u64 \<Rightarrow> u64 \<Rightarrow> bytes option" where
  "open_group_stream alias g = msg_encode (GroupHeader (RefAlias alias) g)"

definition write_object :: "moq_object \<Rightarrow> bytes option" where
  "write_object obj = msg_encode (Object obj)"

fun stream_bytes :: "bytes \<Rightarrow> moq_object list \<Rightarrow> bytes option" where
  "stream_bytes s [] = Some s"
| "stream_bytes s (obj # objs) = do { b \<leftarrow> write_object obj; stream_bytes (s @ b) objs }"

section \<open>The control loop\<close>

datatype flow = Continue | Return "unit result" | Crash

definition not_announced_reason :: "bytes \<Rightarrow> bytes" where
  "not_announced_reason n =
     [229, 145, 189, 229, 144, 141, 231, 169, 186, 233, 151, 180, 230, 156, 170, 229, 143, 145, 229, 184, 131, 58, 32] @ n"

text \<open>Sending with \<open>?\<close>: an error ends the loop.\<close>

definition send_or_return :: "sender \<Rightarrow> conn_id \<Rightarrow> message \<Rightarrow> flow" where
  "send_or_return send c msg = (case send c msg of Ok _ \<Rightarrow> Continue | Err e \<Rightarrow> Return (Err e))"

definition handle_subscribe :: "sender \<Rightarrow> conn_id \<Rightarrow> relay \<Rightarrow> forwarders \<Rightarrow> u64 \<Rightarrow> u64 \<Rightarrow> track_id \<Rightarrow> start_mode \<Rightarrow>
    relay \<times> forwarders \<times> outbox \<times> flow" where
  "handle_subscribe send c rl fws sid alias t start =
     (if \<not> namespace_announced (rl_hub rl) (ns t) then
        let msg = SubscribeError sid ERR_NAMESPACE_NOT_FOUND (not_announced_reason (ns t)) in
        (rl, fws, [(c, msg)], send_or_return send c msg)
      else if send_or_return send c (SubscribeOk sid) \<noteq> Continue then
        (rl, fws, [(c, SubscribeOk sid)], send_or_return send c (SubscribeOk sid))
      else
        case maybe_bind_upstream_alias send rl t of (rl1, out) \<Rightarrow>
          (case hub_subscribe (rl_hub rl1) t start of
             (h, None) \<Rightarrow> (rl1\<lparr>rl_hub := h\<rparr>, fws, (c, SubscribeOk sid) # out, Crash)
           | (h, Some sub) \<Rightarrow>
               (case fw_spawn alias (replay sub) of
                  None \<Rightarrow> (rl1\<lparr>rl_hub := h\<rparr>, fws, (c, SubscribeOk sid) # out, Crash)
                | Some f \<Rightarrow>
                    (rl1\<lparr>rl_hub := h\<rparr>, hm_insert sid (f, live_from sub) fws, (c, SubscribeOk sid) # out, Continue))))"

fun control_msg :: "sender \<Rightarrow> conn_id \<Rightarrow> relay \<Rightarrow> forwarders \<Rightarrow> message \<Rightarrow> relay \<times> forwarders \<times> outbox \<times> flow" where
  "control_msg send c rl fws (Announce n) =
     (rl\<lparr>rl_hub := announce_namespace (rl_hub rl) n\<rparr>, fws, [(c, AnnounceOk n)], send_or_return send c (AnnounceOk n))"
| "control_msg send c rl fws (Subscribe sid alias t start prio) = handle_subscribe send c rl fws sid alias t start"
| "control_msg send c rl fws (Unsubscribe sid) = (rl, hm_remove sid fws, [], Continue)"
| "control_msg send c rl fws (Goaway reason) = (rl, fws, [], Return (Ok ()))"
| "control_msg send c rl fws _ = (rl, fws, [], Continue)"

text \<open>
  The loop on the messages a connection delivers. When they end with an error the loop returns
  \<open>Ok\<close>; when the peer closes its half cleanly (\<open>fin = Ok ()\<close>) it polls until every forwarder is
  finished, \<open>polls\<close> giving what each poll sees.
\<close>

fun wait_forwarders :: "forwarders \<Rightarrow> (u64 \<Rightarrow> bool) list \<Rightarrow> forwarders \<times> flow" where
  "wait_forwarders [] polls = ([], Return (Ok ()))"
| "wait_forwarders fws [] = (fws, Continue)"
| "wait_forwarders fws (finished # polls) = wait_forwarders (filter (\<lambda>(sid, h). \<not> finished sid) fws) polls"

fun control_loop :: "sender \<Rightarrow> conn_id \<Rightarrow> relay \<Rightarrow> forwarders \<Rightarrow> message list \<Rightarrow> unit result \<Rightarrow> (u64 \<Rightarrow> bool) list \<Rightarrow>
    relay \<times> forwarders \<times> outbox \<times> flow" where
  "control_loop send c rl fws [] fin polls =
     (case fin of
        Err e \<Rightarrow> (rl, fws, [], Return (Ok ()))
      | Ok _ \<Rightarrow> (case wait_forwarders fws polls of (fws', fl) \<Rightarrow> (rl, fws', [], fl)))"
| "control_loop send c rl fws (msg # msgs) fin polls =
     (case control_msg send c rl fws msg of
        (rl1, fws1, out, Continue) \<Rightarrow>
          (case control_loop send c rl1 fws1 msgs fin polls of (rl2, fws2, out2, fl) \<Rightarrow> (rl2, fws2, out @ out2, fl))
      | (rl1, fws1, out, fl) \<Rightarrow> (rl1, fws1, out, fl))"

definition handle_connection :: "sender \<Rightarrow> conn_id \<Rightarrow> relay \<Rightarrow> message option result \<Rightarrow> message list \<Rightarrow> unit result \<Rightarrow>
    (u64 \<Rightarrow> bool) list \<Rightarrow> relay \<times> outbox \<times> flow" where
  "handle_connection send c rl first msgs fin polls =
     (case conn_setup send c rl first of
        (rl1, out, Err e) \<Rightarrow> (rl1, out, Return (Err e))
      | (rl1, out, Ok role) \<Rightarrow>
          (case control_loop send c rl1 [] msgs fin polls of
             (rl2, fws, out2, Return r) \<Rightarrow> (conn_cleanup c rl2, out @ out2, Return r)
           | (rl2, fws, out2, fl) \<Rightarrow> (rl2, out @ out2, fl)))"

section \<open>Events of the whole relay\<close>

datatype event =
    EvSetup conn_id "message option result"
  | EvControl conn_id forwarders message
  | EvGroup conn_id "message list" "unit result"
  | EvClose conn_id

fun relay_step :: "sender \<Rightarrow> pub_order \<Rightarrow> relay \<Rightarrow> event \<Rightarrow> relay" where
  "relay_step send iter rl (EvSetup c first) = fst (conn_setup send c rl first)"
| "relay_step send iter rl (EvControl c fws msg) = fst (control_msg send c rl fws msg)"
| "relay_step send iter rl (EvGroup c msgs fin) = fst (handle_group_stream iter rl c msgs fin)"
| "relay_step send iter rl (EvClose c) = conn_cleanup c rl"

definition relay_run :: "sender \<Rightarrow> pub_order \<Rightarrow> relay \<Rightarrow> event list \<Rightarrow> relay" where
  "relay_run send iter = foldl (relay_step send iter)"

section \<open>Aliases are unique\<close>

text \<open>\<open>aliases_ok n rl\<close>: at most \<open>n\<close> aliases were drawn, and those in use are old and distinct.\<close>

definition aliases_ok :: "nat \<Rightarrow> relay \<Rightarrow> bool" where
  "aliases_ok n rl \<longleftrightarrow> hm_wf (rl_publishers rl) \<and> unat (rl_next_alias rl) \<le> Suc n \<and>
     (\<forall>t reg a. hm_get (rl_publishers rl) t = Some reg \<and> pr_alias reg = Some a \<longrightarrow>
        a < rl_next_alias rl \<and>
        (\<forall>t' reg'. hm_get (rl_publishers rl) t' = Some reg' \<and> pr_alias reg' = Some a \<longrightarrow> t' = t))"

lemma aliases_ok_Suc: "aliases_ok n rl \<Longrightarrow> aliases_ok (Suc n) rl"
  by (auto simp: aliases_ok_def)

lemma next_alias_Suc: "unat (a :: u64) \<le> Suc n \<Longrightarrow> Suc n < u64_max \<Longrightarrow> unat (a + 1) = Suc (unat a)"
  by (simp add: unat_word_ariths)

lemma bind_alias_ok:
  assumes ok: "aliases_ok n rl" and n: "Suc n < u64_max"
  shows "aliases_ok (Suc n) (fst (maybe_bind_upstream_alias send rl t))"
proof (cases "hm_get (rl_publishers rl) t")
  case None
  with ok show ?thesis by (simp add: maybe_bind_upstream_alias_def aliases_ok_Suc)
next
  case (Some reg)
  from ok have le: "unat (rl_next_alias rl) \<le> Suc n" by (simp add: aliases_ok_def)
  have up: "unat (rl_next_alias rl + 1) = Suc (unat (rl_next_alias rl))" by (rule next_alias_Suc [OF le n])
  have less: "a < rl_next_alias rl + 1" if "a \<le> rl_next_alias rl" for a
    using that up by (simp add: word_less_nat_alt word_le_nat_alt)
  have draw: "aliases_ok (Suc n) (rl\<lparr>rl_next_alias := rl_next_alias rl + 1\<rparr>)"
    using ok up less by (fastforce simp: aliases_ok_def less_imp_le)
  have bind: "aliases_ok (Suc n) (rl\<lparr>rl_next_alias := rl_next_alias rl + 1,
      rl_publishers := hm_insert t (reg\<lparr>pr_alias := Some (rl_next_alias rl)\<rparr>) (rl_publishers rl)\<rparr>)"
    using ok up less by (fastforce simp: aliases_ok_def less_imp_le)
  show ?thesis
  proof (cases "pr_alias reg")
    case None
    with Some draw bind show ?thesis
      by (cases "send (pr_control reg) (Subscribe (rl_next_alias rl) (rl_next_alias rl) t NextObject 0)")
        (simp_all add: maybe_bind_upstream_alias_def Let_def)
  next
    case (Some a)
    with \<open>hm_get (rl_publishers rl) t = Some reg\<close> ok show ?thesis
      by (simp add: maybe_bind_upstream_alias_def aliases_ok_Suc)
  qed
qed

lemma resolve_ok: "aliases_ok n rl \<Longrightarrow> aliases_ok n (fst (resolve_track_ref iter rl c r))"
  by (auto simp: resolve_track_ref_def aliases_ok_def split: track_ref.splits option.splits)

lemma aliases_ok_hub [simp]: "aliases_ok n (rl_hub_update h rl) = aliases_ok n rl"
  by (simp add: aliases_ok_def)

lemma aliases_ok_conns [simp]: "aliases_ok n (rl_conns_update h rl) = aliases_ok n rl"
  by (simp add: aliases_ok_def)

lemma handle_group_stream_other:
  "\<not> (\<exists>r g rest. msgs = GroupHeader r g # rest) \<Longrightarrow> fst (handle_group_stream iter rl c msgs fin) = rl"
  by (cases msgs) (auto simp: handle_group_stream_def split: message.split)

lemma handle_group_stream_header:
  "\<exists>h. fst (handle_group_stream iter rl c (GroupHeader r g # rest) fin) = (fst (resolve_track_ref iter rl c r))\<lparr>rl_hub := h\<rparr>"
proof -
  obtain rl1 t where r: "resolve_track_ref iter rl c r = (rl1, t)" by fastforce
  show ?thesis
  proof (cases t)
    case (Err e)
    have "fst (handle_group_stream iter rl c (GroupHeader r g # rest) fin) = rl1\<lparr>rl_hub := rl_hub rl1\<rparr>"
      using r Err by (simp add: handle_group_stream_def)
    then show ?thesis using r by (intro exI [of _ "rl_hub rl1"]) simp
  next
    case (Ok t')
    with r show ?thesis by (auto simp: handle_group_stream_def split: prod.split option.split)
  qed
qed

lemma group_stream_ok: "aliases_ok n rl \<Longrightarrow> aliases_ok n (fst (handle_group_stream iter rl c msgs fin))"
proof (cases "\<exists>r g rest. msgs = GroupHeader r g # rest")
  case True
  then obtain r g rest where "msgs = GroupHeader r g # rest" by blast
  moreover obtain h where "fst (handle_group_stream iter rl c (GroupHeader r g # rest) fin) = (fst (resolve_track_ref iter rl c r))\<lparr>rl_hub := h\<rparr>"
    using handle_group_stream_header by blast
  moreover assume "aliases_ok n rl"
  ultimately show ?thesis by (simp add: resolve_ok)
qed (simp add: handle_group_stream_other)

lemma subscribe_ok:
  assumes "aliases_ok n rl" "Suc n < u64_max"
  shows "aliases_ok (Suc n) (fst (handle_subscribe send c rl fws sid alias t start))"
  using assms bind_alias_ok [OF assms, of send t]
  by (auto simp: handle_subscribe_def Let_def aliases_ok_Suc split: prod.split option.split)

lemma control_msg_ok:
  assumes "aliases_ok n rl" "Suc n < u64_max"
  shows "aliases_ok (Suc n) (fst (control_msg send c rl fws msg))"
  using assms subscribe_ok [OF assms] by (cases msg) (auto simp: aliases_ok_Suc)

lemma relay_step_ok:
  assumes "aliases_ok n rl" "Suc n < u64_max"
  shows "aliases_ok (Suc n) (relay_step send iter rl ev)"
proof (cases ev)
  case (EvSetup c first)
  with assms show ?thesis
    by (auto simp: conn_setup_def Let_def aliases_ok_Suc split: result.split option.split message.split)
next
  case (EvControl c fws msg)
  with control_msg_ok [OF assms] show ?thesis by simp
next
  case (EvGroup c msgs fin)
  with group_stream_ok [OF assms(1)] show ?thesis by (simp add: aliases_ok_Suc)
next
  case (EvClose c)
  with assms show ?thesis by (simp add: conn_cleanup_def aliases_ok_Suc)
qed

lemma relay_run_ok: "length evs + 1 < u64_max \<Longrightarrow> aliases_ok (length evs) (relay_run send iter (relay_new h) evs)"
proof (induction evs rule: rev_induct)
  case Nil
  then show ?case by (simp add: relay_run_def relay_new_def aliases_ok_def)
next
  case (snoc ev evs)
  then show ?case using relay_step_ok [of "length evs" _ send iter ev] by (simp add: relay_run_def)
qed

text \<open>Looking an alias up in any order finds the one track that has it.\<close>

lemma resolve_alias_iff:
  assumes ok: "aliases_ok n rl" and iter: "set (iter (rl_publishers rl)) = set (rl_publishers rl)"
  shows "snd (resolve_track_ref iter rl c (RefAlias a)) = Ok t \<longleftrightarrow>
    (\<exists>reg. hm_get (rl_publishers rl) t = Some reg \<and> pr_alias reg = Some a)"
proof -
  let ?P = "\<lambda>(t, reg). pr_alias reg = Some a"
  from ok have wf: "hm_wf (rl_publishers rl)" by (simp add: aliases_ok_def)
  have mem: "(t', reg) \<in> set (iter (rl_publishers rl)) \<longleftrightarrow> hm_get (rl_publishers rl) t' = Some reg" for t' reg
    using iter hm_get_mem [OF wf] by simp
  show ?thesis
  proof (cases "find ?P (iter (rl_publishers rl))")
    case None
    then have "\<forall>t' reg. hm_get (rl_publishers rl) t' = Some reg \<longrightarrow> pr_alias reg \<noteq> Some a"
      using mem by (auto simp: find_None_iff)
    with None show ?thesis by (auto simp: resolve_track_ref_def)
  next
    case (Some e)
    then have "e \<in> set (iter (rl_publishers rl))" "?P e" by (metis find_Some_iff nth_mem)+
    then obtain t' reg where e: "e = (t', reg)" "hm_get (rl_publishers rl) t' = Some reg" "pr_alias reg = Some a"
      using mem by (cases e) auto
    with ok have "hm_get (rl_publishers rl) t = Some reg' \<Longrightarrow> pr_alias reg' = Some a \<Longrightarrow> t = t'" for reg'
      by (auto simp: aliases_ok_def)
    with Some e show ?thesis by (auto simp: resolve_track_ref_def)
  qed
qed

section \<open>Streams survive the relay\<close>

fun publish_all :: "hub \<Rightarrow> track_id \<Rightarrow> moq_object list \<Rightarrow> hub \<times> unit option" where
  "publish_all h t [] = (h, Some ())"
| "publish_all h t (obj # objs) =
     (case hub_publish h t obj of
        (h', None) \<Rightarrow> (h', None)
      | (h', Some _) \<Rightarrow> publish_all h' t objs)"

definition on_wire :: "moq_object \<Rightarrow> message" where
  "on_wire obj = Object (obj\<lparr>group_id := 0\<rparr>)"

lemma write_object_on_wire: "wire_msg (on_wire obj) \<Longrightarrow> write_object obj = Some (frame_of (on_wire obj))"
  using frame_of_encode [of "on_wire obj"] by (simp add: write_object_def on_wire_def msg_encode_def)

lemma stream_bytes_frames:
  "\<forall>x\<in>set objs. wire_msg (on_wire x) \<Longrightarrow> stream_bytes s objs = Some (s @ concat (map frame_of (map on_wire objs)))"
  by (induction objs arbitrary: s) (auto simp: write_object_on_wire)

lemma publish_objects_on_wire:
  "\<forall>x\<in>set objs. group_id x = g \<Longrightarrow> publish_objects h t g (map on_wire objs) = publish_all h t objs"
proof (induction objs arbitrary: h)
  case (Cons x objs)
  then have "x\<lparr>group_id := g\<rparr> = x" by (cases x) simp
  with Cons show ?case by (auto simp: on_wire_def split: prod.split option.split)
qed simp

section \<open>Properties\<close>

text \<open>
  C38. Track aliases are unambiguous. As long as fewer than \<open>2 ^ 64 - 2\<close> events have happened, an alias
  in a stream header resolves to a track exactly when that track negotiated it, whatever
  order the publisher table is searched in.
\<close>

theorem alias_resolves_to_its_track:
  assumes "length evs + 1 < u64_max" "rl = relay_run send iter (relay_new h) evs"
    "set (iter' (rl_publishers rl)) = set (rl_publishers rl)"
  shows "snd (resolve_track_ref iter' rl c (RefAlias a)) = Ok t \<longleftrightarrow>
    (\<exists>reg. hm_get (rl_publishers rl) t = Some reg \<and> pr_alias reg = Some a)"
  using resolve_alias_iff [OF relay_run_ok [OF assms(1), of send iter h]] assms(2,3) by simp

text \<open>
  C15. A group stream survives the network and the relay. The bytes written for a group by
  \<open>open_group_stream\<close> and \<open>write_object\<close>, cut into any chunks, are read back as one header and the
  objects, and the relay publishes exactly those objects, in order and with their group, on the
  track the alias stands for.
\<close>

theorem group_stream_is_republished:
  assumes "open_group_stream a g = Some s" "stream_bytes s objs = Some bs" "concat cs = bs"
    "wire_msg (GroupHeader (RefAlias a) g)" "\<forall>x\<in>set objs. wire_msg (on_wire x) \<and> group_id x = g"
    "resolve_track_ref iter rl c (RefAlias a) = (rl', Ok t)"
  shows "\<exists>msgs. fr_drain [] cs = Some (Ok msgs) \<and>
    handle_group_stream iter rl c msgs (Ok ()) =
      (rl\<lparr>rl_hub := fst (publish_all (rl_hub rl) t objs)\<rparr>, map_option Ok (snd (publish_all (rl_hub rl) t objs)))"
proof -
  let ?msgs = "GroupHeader (RefAlias a) g # map on_wire objs"
  have "bs = concat (map frame_of ?msgs)"
    using assms(1,2,5) frame_of_encode [OF assms(4)] stream_bytes_frames [of objs s] by (simp add: open_group_stream_def)
  then have "fr_drain [] cs = Some (Ok ?msgs)" using assms(3,4,5) by (intro fr_drain_stream) auto
  moreover have "rl' = rl" using assms(6) by (auto simp: resolve_track_ref_def)
  ultimately show ?thesis
    using assms(5,6) publish_objects_on_wire [of objs g "rl_hub rl" t]
    by (auto simp: handle_group_stream_def split: prod.split option.split)
qed

theorem alias_resolves_to_its_track_witness:
  "let rl = relay_run (\<lambda>c m. Ok ()) id (relay_new (hub_new 2))
     [EvGroup 5 [GroupHeader (RefFull sample_track) 1] (Ok ()), EvControl 6 [] (Announce [108]),
      EvControl 6 [] (Subscribe 3 4 sample_track LatestGroup 0)]
   in snd (resolve_track_ref rev rl 5 (RefAlias 1)) = Ok sample_track"
proof -
  let ?evs = "[EvGroup 5 [GroupHeader (RefFull sample_track) 1] (Ok ()), EvControl 6 [] (Announce [108]),
      EvControl 6 [] (Subscribe 3 4 sample_track LatestGroup 0)]"
  let ?rl = "relay_run (\<lambda>c m. Ok ()) id (relay_new (hub_new 2)) ?evs"
  have "hm_get (rl_publishers ?rl) sample_track = Some \<lparr>pr_control = 5, pr_alias = Some 1\<rparr>"
    by (simp add: relay_run_def relay_new_def handle_group_stream_def resolve_track_ref_def handle_subscribe_def
        namespace_announced_def maybe_bind_upstream_alias_def send_or_return_def Let_def hub_eval
        fw_spawn_def dq_new_def DROP_QUEUE_CAPACITY_def)
  with alias_resolves_to_its_track [of ?evs ?rl "\<lambda>c m. Ok ()" id "hub_new 2" rev 5 1 sample_track]
  show ?thesis by (simp add: Let_def)
qed

theorem group_stream_is_republished_witness:
  "\<exists>s bs msgs rl.
     open_group_stream 1 2 = Some s \<and> stream_bytes s [sample_object 2 0, sample_object 2 1] = Some bs \<and>
     fr_drain [] (map (\<lambda>b. [b]) bs) = Some (Ok msgs) \<and>
     rl_publishers rl = [(sample_track, \<lparr>pr_control = 5, pr_alias = Some 1\<rparr>)] \<and>
     (\<exists>st. track_view (rl_hub (fst (handle_group_stream id rl 5 msgs (Ok ())))) sample_track = Some st \<and>
        ts_sent st = [sample_object 2 0, sample_object 2 1])"
proof -
  let ?rl = "(relay_new (hub_new 2))\<lparr>rl_publishers := [(sample_track, \<lparr>pr_control = 5, pr_alias = Some 1\<rparr>)]\<rparr>"
  let ?objs = "[sample_object 2 0, sample_object 2 1]"
  have h: "wire_msg (GroupHeader (RefAlias 1) 2)"
    by (simp add: wire_msg_def wire_int_def VARINT_MAX_def wire_len_def vi_encode_def encoded_len_def)
  have o: "\<forall>x\<in>set ?objs. wire_msg (on_wire x) \<and> group_id x = 2"
    by (simp add: wire_msg_def wire_int_def VARINT_MAX_def wire_len_def vi_encode_def encoded_len_def on_wire_def sample_object_def)
  have open1: "open_group_stream 1 2 = Some (frame_of (GroupHeader (RefAlias 1) 2))"
    using frame_of_encode [OF h] by (simp add: open_group_stream_def)
  obtain bs where bs: "stream_bytes (frame_of (GroupHeader (RefAlias 1) 2)) ?objs = Some bs"
    using stream_bytes_frames [of ?objs] o by blast
  have chunks: "concat (map (\<lambda>b. [b]) bs) = bs" by simp
  have res: "resolve_track_ref id ?rl 5 (RefAlias 1) = (?rl, Ok sample_track)"
    by (simp add: resolve_track_ref_def)
  have pub: "\<exists>st. track_view (fst (publish_all (hub_new 2) sample_track ?objs)) sample_track = Some st \<and> ts_sent st = ?objs"
    by (simp add: hub_eval)
  from group_stream_is_republished [OF open1 bs chunks h o res] obtain msgs where
    "fr_drain [] (map (\<lambda>b. [b]) bs) = Some (Ok msgs)"
    "rl_hub (fst (handle_group_stream id ?rl 5 msgs (Ok ()))) = fst (publish_all (hub_new 2) sample_track ?objs)"
    by (auto simp: relay_new_def)
  moreover from this(2) pub have "\<exists>st. track_view (rl_hub (fst (handle_group_stream id ?rl 5 msgs (Ok ())))) sample_track = Some st \<and>
      ts_sent st = ?objs" by (simp only:)
  ultimately show ?thesis
    using open1 bs
    by (intro exI [of _ "frame_of (GroupHeader (RefAlias 1) 2)"] exI [of _ bs] exI [of _ msgs] exI [of _ ?rl] conjI)
      (assumption | simp)+
qed

end
