(* ===== verification/Homa_Packet.thy ===== *)
theory Homa_Packet
  imports Wire
begin

text \<open>
  The wire format of the message transport (\<^verbatim>\<open>crates/homa-rpc/src/transport/packet.rs\<close>) and
  the mapping of message lengths to priorities (\<^verbatim>\<open>priority.rs\<close>).
\<close>

section \<open>Packets\<close>

definition HEADER_LEN :: nat where
  "HEADER_LEN = 22"

datatype packet_type = Data | Grant | Resend | Busy

fun type_byte :: "packet_type \<Rightarrow> u8" where
  "type_byte Data = 0"
| "type_byte Grant = 1"
| "type_byte Resend = 2"
| "type_byte Busy = 3"

definition packet_type_from_u8 :: "u8 \<Rightarrow> packet_type option" where
  "packet_type_from_u8 v =
     (if v = 0 then Some Data else if v = 1 then Some Grant else if v = 2 then Some Resend
      else if v = 3 then Some Busy else None)"

record packet =
  pk_typ :: packet_type
  pk_priority :: u8
  msg_id :: u64
  msg_len :: u32
  offset :: u32
  pk_length :: u32

definition packet_new :: "packet_type \<Rightarrow> u8 \<Rightarrow> u64 \<Rightarrow> u32 \<Rightarrow> u32 \<Rightarrow> u32 \<Rightarrow> packet" where
  "packet_new t prio mid len off n =
     \<lparr>pk_typ = t, pk_priority = prio, msg_id = mid, msg_len = len, offset = off, pk_length = n\<rparr>"

definition pk_encode :: "packet \<Rightarrow> bytes \<Rightarrow> bytes" where
  "pk_encode p body =
     [type_byte (pk_typ p), pk_priority p] @ le_bytes 8 (msg_id p) @ le_bytes 4 (msg_len p) @
     le_bytes 4 (offset p) @ le_bytes 4 (pk_length p) @ body"

definition pk_decode :: "bytes \<Rightarrow> (packet \<times> bytes) result" where
  "pk_decode datagram =
     (if length datagram < HEADER_LEN then Err InvalidData
      else case packet_type_from_u8 (datagram ! 0) of
        None \<Rightarrow> Err InvalidData
      | Some t \<Rightarrow>
          let p = \<lparr>pk_typ = t, pk_priority = datagram ! 1,
                msg_id = le_val (take 8 (drop 2 datagram)), msg_len = le_val (take 4 (drop 10 datagram)),
                offset = le_val (take 4 (drop 14 datagram)), pk_length = le_val (take 4 (drop 18 datagram))\<rparr>;
              body = drop HEADER_LEN datagram
          in if pk_typ p = Data \<and> length body \<noteq> unat (pk_length p) then Err InvalidData else Ok (p, body))"

section \<open>Priorities\<close>

definition NUM_PRIORITIES :: nat where
  "NUM_PRIORITIES = 8"

definition THRESHOLDS :: "nat list" where
  "THRESHOLDS = [100, 1000, 10000, 100000, 1000000, 10000000, 100000000, u64_max]"

fun priority_loop :: "nat \<Rightarrow> nat \<Rightarrow> nat list \<Rightarrow> u8" where
  "priority_loop i len [] = of_nat (NUM_PRIORITIES - 1)"
| "priority_loop i len (upper # us) = (if len \<le> upper then of_nat i else priority_loop (Suc i) len us)"

definition priority_for_len :: "nat \<Rightarrow> u8" where
  "priority_for_len len = priority_loop 0 len THRESHOLDS"

section \<open>The round trip\<close>

text \<open>A DATA packet announces the length of its body; other packets carry no constraint.\<close>

definition pk_wf :: "packet \<Rightarrow> bytes \<Rightarrow> bool" where
  "pk_wf p body \<longleftrightarrow> (pk_typ p = Data \<longrightarrow> length body = unat (pk_length p))"

lemma packet_type_round [simp]: "packet_type_from_u8 (type_byte t) = Some t"
  by (cases t) (simp_all add: packet_type_from_u8_def)

lemma le_val_le_bytes [simp]: "le_val (le_bytes 8 (w :: u64)) = w" "le_val (le_bytes 4 (v :: u32)) = v"
  by (simp_all add: le_val_bytes)

lemma pk_fields:
  "take 8 (drop 2 (pk_encode p body)) = le_bytes 8 (msg_id p)"
  "take 4 (drop 10 (pk_encode p body)) = le_bytes 4 (msg_len p)"
  "take 4 (drop 14 (pk_encode p body)) = le_bytes 4 (offset p)"
  "take 4 (drop 18 (pk_encode p body)) = le_bytes 4 (pk_length p)"
  "drop 22 (pk_encode p body) = body"
  "pk_encode p body ! 0 = type_byte (pk_typ p)" "pk_encode p body ! 1 = pk_priority p"
  "length (pk_encode p body) = HEADER_LEN + length body"
  by (simp_all add: pk_encode_def HEADER_LEN_def numeral_2_eq_2)

lemma pk_round: "pk_wf p body \<Longrightarrow> pk_decode (pk_encode p body) = Ok (p, body)"
  using pk_fields [of p body] by (auto simp: pk_decode_def pk_wf_def Let_def HEADER_LEN_def)

lemma type_byte_from: "packet_type_from_u8 v = Some t \<Longrightarrow> type_byte t = v"
  by (auto simp: packet_type_from_u8_def split: if_splits)

lemma pk_decode_Ok:
  assumes "pk_decode d = Ok (p, body)"
  shows "pk_encode p body = d" and "pk_wf p body"
proof -
  from assms obtain t where d: "HEADER_LEN \<le> length d" "packet_type_from_u8 (d ! 0) = Some t"
    and p: "p = \<lparr>pk_typ = t, pk_priority = d ! 1, msg_id = le_val (take 8 (drop 2 d)), msg_len = le_val (take 4 (drop 10 d)),
      offset = le_val (take 4 (drop 14 d)), pk_length = le_val (take 4 (drop 18 d))\<rparr>" "body = drop 22 d" "pk_wf p body"
    by (auto simp: pk_decode_def pk_wf_def Let_def HEADER_LEN_def split: if_splits option.splits)
  from d(1) have len: "22 \<le> length d" by (simp add: HEADER_LEN_def)
  have split: "drop i d = take k (drop i d) @ drop (i + k) d" for i k
    by (metis append_take_drop_id drop_drop add.commute)
  have "d = d ! 0 # d ! 1 # drop 2 d"
    using len by (metis Cons_nth_drop_Suc Suc_1 drop0 le_trans less_le_trans numeral_le_iff one_less_numeral_iff semiring_norm(76)
        One_nat_def zero_less_numeral)
  also have "drop 2 d = take 8 (drop 2 d) @ take 4 (drop 10 d) @ take 4 (drop 14 d) @ take 4 (drop 18 d) @ drop 22 d"
    using split [of 2 8] split [of 10 4] split [of 14 4] split [of 18 4] by simp
  finally show "pk_encode p body = d"
    using len p type_byte_from [OF d(2)] by (simp add: pk_encode_def le_bytes_le_val)
  show "pk_wf p body" by (rule p(3))
qed

section \<open>Properties\<close>

text \<open>
  C25. The packet codec is a bijection between well-formed packets and accepted datagrams: what is
  encoded decodes to itself, and a datagram that decodes is the encoding of the result.
\<close>

theorem homa_packet_bijection: "pk_decode d = Ok (p, body) \<longleftrightarrow> pk_encode p body = d \<and> pk_wf p body"
  using pk_round pk_decode_Ok by blast

end
