(* ===== verification/Homa_Sender.thy ===== *)
theory Homa_Sender
  imports Homa_Packet
begin

text \<open>
  The sending half of the transport (\<^verbatim>\<open>crates/homa-rpc/src/transport/sender.rs\<close>) with the
  configuration and the actions of \<^verbatim>\<open>transport/mod.rs\<close>. Time stamps and durations are
  nanoseconds; \<open>duration_since\<close> saturates at zero like subtraction on \<^typ>\<open>nat\<close>.
\<close>

section \<open>Configuration and actions\<close>

type_synonym msg_key = "sock_addr \<times> u64"

datatype tp_action = Send sock_addr bytes | Deliver sock_addr u64 bytes

record transport_config =
  packet_size :: nat
  unscheduled_bytes :: nat
  grant_increment :: nat
  resend_timeout :: nat
  grant_timeout :: nat
  poke_timeout :: nat
  retransmit_timeout :: nat
  linger :: nat
  send_timeout :: nat
  max_incoming :: nat
  overcommit :: nat
  starve_threshold :: nat
  socket_buf :: nat

definition millis :: "nat \<Rightarrow> nat" where
  "millis n = n * 1000000"

definition transport_config_default :: transport_config where
  "transport_config_default =
     \<lparr>packet_size = 1200, unscheduled_bytes = 10240, grant_increment = 262144,
      resend_timeout = millis 20, grant_timeout = millis 40, poke_timeout = millis 50, retransmit_timeout = millis 500,
      linger = millis 5000, send_timeout = millis 30000, max_incoming = 1024, overcommit = 2,
      starve_threshold = millis 200, socket_buf = 16777216\<rparr>"

section \<open>Messages being sent\<close>

record out_msg =
  om_data :: bytes
  om_granted_to :: nat
  om_next_send :: nat
  om_done_at :: "nat option"
  om_last_progress :: nat
  om_retransmit :: bool

definition chunk_range :: "out_msg \<Rightarrow> nat \<Rightarrow> nat \<Rightarrow> (nat \<times> nat) option" where
  "chunk_range m off ps =
     (if ps = 0 then None
      else let start = (off div ps) * ps in Some (start, min (start + ps) (length (om_data m))))"

record sender_core =
  sc_cfg :: transport_config
  sc_out :: "(msg_key, out_msg) hmap"
  sc_retransmits :: nat

definition data_packet :: "bytes \<Rightarrow> u64 \<Rightarrow> nat \<Rightarrow> nat \<Rightarrow> bytes option" where
  "data_packet data mid start stop = do {
     body \<leftarrow> vec_slice data start stop;
     Some (pk_encode (packet_new Data (priority_for_len (length data)) mid (of_nat (length data)) (of_nat start)
       (of_nat (length body))) body)
   }"

definition sc_new :: "transport_config \<Rightarrow> sender_core" where
  "sc_new cfg = \<lparr>sc_cfg = cfg, sc_out = [], sc_retransmits = 0\<rparr>"

section \<open>Operations\<close>

text \<open>The loop of \<open>pump\<close>; it does not return when the packet size is zero.\<close>

partial_function (option) pump_loop ::
    "nat \<Rightarrow> bytes \<Rightarrow> msg_key \<Rightarrow> nat \<Rightarrow> nat \<Rightarrow> tp_action list \<Rightarrow> (nat \<times> tp_action list) option" where
  "pump_loop ps data key limit next acts =
     (if next < limit
      then Option.bind (data_packet data (snd key) next (min (next + ps) (length data))) (\<lambda>b.
             pump_loop ps data key limit (min (next + ps) (length data)) (acts @ [Send (fst key) b]))
      else Some (next, acts))"

definition sc_put :: "sender_core \<Rightarrow> msg_key \<Rightarrow> out_msg \<Rightarrow> sender_core" where
  "sc_put sc key m = sc\<lparr>sc_out := hm_insert key m (sc_out sc)\<rparr>"

definition pump :: "sender_core \<Rightarrow> msg_key \<Rightarrow> nat \<Rightarrow> nat \<Rightarrow> tp_action list \<Rightarrow> (sender_core \<times> tp_action list) option" where
  "pump sc key limit now acts =
     (case hm_get (sc_out sc) key of
        None \<Rightarrow> Some (sc, acts)
      | Some m \<Rightarrow>
          if om_done_at m \<noteq> None then Some (sc, acts)
          else let lim = min limit (length (om_data m)) in
            Option.bind (pump_loop (packet_size (sc_cfg sc)) (om_data m) key lim (om_next_send m) acts) (\<lambda>(next, acts').
              Some (sc_put sc key (m\<lparr>om_next_send := next, om_granted_to := max (om_granted_to m) lim, om_last_progress := now,
                      om_done_at := (if next \<ge> length (om_data m) then Some now else om_done_at m)\<rparr>), acts')))"

definition start_inner :: "sender_core \<Rightarrow> sock_addr \<Rightarrow> u64 \<Rightarrow> bytes \<Rightarrow> nat \<Rightarrow> bool \<Rightarrow> (sender_core \<times> tp_action list) option" where
  "start_inner sc dest mid data now retransmit =
     (let unscheduled = min (unscheduled_bytes (sc_cfg sc)) (length data);
          m = \<lparr>om_data = data, om_granted_to = unscheduled, om_next_send = 0, om_done_at = None,
               om_last_progress = now, om_retransmit = retransmit\<rparr>
      in pump (sc_put sc (dest, mid) m) (dest, mid) unscheduled now [])"

definition sc_start :: "sender_core \<Rightarrow> sock_addr \<Rightarrow> u64 \<Rightarrow> bytes \<Rightarrow> nat \<Rightarrow> (sender_core \<times> tp_action list) option" where
  "sc_start sc dest mid data now = start_inner sc dest mid data now False"

definition start_retransmit :: "sender_core \<Rightarrow> sock_addr \<Rightarrow> u64 \<Rightarrow> bytes \<Rightarrow> nat \<Rightarrow> (sender_core \<times> tp_action list) option" where
  "start_retransmit sc dest mid data now = start_inner sc dest mid data now True"

definition handle_grant :: "sender_core \<Rightarrow> sock_addr \<Rightarrow> packet \<Rightarrow> nat \<Rightarrow> tp_action list \<Rightarrow> (sender_core \<times> tp_action list) option" where
  "handle_grant sc src p now acts =
     (let key = (src, msg_id p);
          new_limit = min (unat (offset p)) (case hm_get (sc_out sc) key of None \<Rightarrow> 0 | Some m \<Rightarrow> length (om_data m))
      in case hm_get (sc_out sc) key of
           None \<Rightarrow> Some (sc, acts)
         | Some m \<Rightarrow> if new_limit \<le> om_granted_to m then Some (sc, acts) else pump sc key new_limit now acts)"

partial_function (option) resend_loop ::
    "nat \<Rightarrow> out_msg \<Rightarrow> msg_key \<Rightarrow> nat \<Rightarrow> nat \<Rightarrow> tp_action list \<Rightarrow> tp_action list option" where
  "resend_loop ps m key stop off acts =
     (if off < stop
      then Option.bind (chunk_range m off ps) (\<lambda>(s, e).
             Option.bind (data_packet (om_data m) (snd key) s e) (\<lambda>b.
               resend_loop ps m key stop (max e (s + 1)) (acts @ [Send (fst key) b])))
      else Some acts)"

definition handle_resend :: "sender_core \<Rightarrow> sock_addr \<Rightarrow> packet \<Rightarrow> nat \<Rightarrow> tp_action list \<Rightarrow> (sender_core \<times> tp_action list) option" where
  "handle_resend sc src p now acts =
     (let key = (src, msg_id p) in
      case hm_get (sc_out sc) key of
        None \<Rightarrow> Some (sc, acts)
      | Some m \<Rightarrow>
          let start = min (unat (offset p)) (length (om_data m));
              stop = min (start + unat (pk_length p)) (length (om_data m))
          in Option.bind (resend_loop (packet_size (sc_cfg sc)) m key stop start acts) (\<lambda>acts'.
               let m1 = m\<lparr>om_granted_to := max (om_granted_to m) stop\<rparr>;
                   m2 = (if om_next_send m1 < stop
                         then m1\<lparr>om_next_send := stop,
                                 om_done_at := (if stop \<ge> length (om_data m1) \<and> om_done_at m1 = None then Some now else om_done_at m1)\<rparr>
                         else m1)
               in Some (sc_put sc key (m2\<lparr>om_last_progress := now\<rparr>), acts')))"

definition handle_busy :: "sender_core \<Rightarrow> sock_addr \<Rightarrow> packet \<Rightarrow> nat \<Rightarrow> sender_core" where
  "handle_busy sc src p now =
     (case hm_get (sc_out sc) (src, msg_id p) of
        None \<Rightarrow> sc
      | Some m \<Rightarrow> sc_put sc (src, msg_id p) (m\<lparr>om_last_progress := now\<rparr>))"

text \<open>One round of the loop of \<open>tick\<close>; the order in which the keys are visited is \<open>iter\<close>.\<close>

definition sc_tick_one :: "nat \<Rightarrow> msg_key \<Rightarrow> sender_core \<times> tp_action list \<Rightarrow> (sender_core \<times> tp_action list) option" where
  "sc_tick_one now key = (\<lambda>(sc, acts).
     case hm_get (sc_out sc) key of
       None \<Rightarrow> Some (sc, acts)
     | Some m \<Rightarrow>
         let ps = packet_size (sc_cfg sc) in
         if om_done_at m \<noteq> None then
           if om_retransmit m \<and> now - om_last_progress m \<ge> retransmit_timeout (sc_cfg sc)
           then Option.bind (data_packet (om_data m) (snd key) 0 (min ps (length (om_data m)))) (\<lambda>b.
                  Some ((sc_put sc key (m\<lparr>om_last_progress := now\<rparr>))\<lparr>sc_retransmits := sc_retransmits sc + 1\<rparr>,
                        acts @ [Send (fst key) b]))
           else Some (sc, acts)
         else if now - om_last_progress m < poke_timeout (sc_cfg sc) then Some (sc, acts)
         else
           Option.bind (if om_next_send m = 0 then Some 0
                        else if ps = 0 then None else Some (((om_next_send m - 1) div ps) * ps)) (\<lambda>last_off.
             Option.bind (chunk_range m last_off ps) (\<lambda>(s, e).
               Option.bind (data_packet (om_data m) (snd key) s e) (\<lambda>b.
                 Some (sc_put sc key (m\<lparr>om_last_progress := now\<rparr>), acts @ [Send (fst key) b])))))"

definition keep_lingering :: "transport_config \<Rightarrow> nat \<Rightarrow> msg_key \<times> out_msg \<Rightarrow> bool" where
  "keep_lingering cfg now = (\<lambda>(key, m). case om_done_at m of None \<Rightarrow> True | Some t \<Rightarrow> now - t < linger cfg)"

definition sc_tick :: "((msg_key, out_msg) hmap \<Rightarrow> msg_key list) \<Rightarrow> sender_core \<Rightarrow> nat \<Rightarrow> tp_action list \<Rightarrow>
    (sender_core \<times> tp_action list) option" where
  "sc_tick iter sc now acts =
     (let sc1 = sc\<lparr>sc_out := filter (keep_lingering (sc_cfg sc) now) (sc_out sc)\<rparr>
      in foldM (sc_tick_one now) (iter (sc_out sc1)) (sc1, acts))"

definition is_done :: "sender_core \<Rightarrow> sock_addr \<Rightarrow> u64 \<Rightarrow> bool" where
  "is_done sc dest mid = (case hm_get (sc_out sc) (dest, mid) of None \<Rightarrow> True | Some m \<Rightarrow> om_done_at m \<noteq> None)"

definition sc_finish :: "sender_core \<Rightarrow> sock_addr \<Rightarrow> u64 \<Rightarrow> sender_core" where
  "sc_finish sc dest mid = sc\<lparr>sc_out := hm_remove (dest, mid) (sc_out sc)\<rparr>"

definition sc_confirm :: "sender_core \<Rightarrow> sock_addr \<Rightarrow> u64 \<Rightarrow> sender_core" where
  "sc_confirm sc dest mid =
     (case hm_get (sc_out sc) (dest, mid) of
        None \<Rightarrow> sc
      | Some m \<Rightarrow>
          if om_done_at m \<noteq> None then sc\<lparr>sc_out := hm_remove (dest, mid) (sc_out sc)\<rparr>
          else sc_put sc (dest, mid) (m\<lparr>om_retransmit := False\<rparr>))"

section \<open>What the loops send\<close>

text \<open>The DATA packet for the bytes from \<open>s\<close> to \<open>e\<close>, and the one for up to a packet's worth from \<open>s\<close>.\<close>

definition seg_packet :: "bytes \<Rightarrow> u64 \<Rightarrow> nat \<Rightarrow> nat \<Rightarrow> bytes" where
  "seg_packet data mid s e =
     pk_encode (packet_new Data (priority_for_len (length data)) mid (of_nat (length data)) (of_nat s) (of_nat (e - s)))
       (take (e - s) (drop s data))"

definition seg_act :: "nat \<Rightarrow> bytes \<Rightarrow> msg_key \<Rightarrow> nat \<Rightarrow> tp_action" where
  "seg_act ps data key s = Send (fst key) (seg_packet data (snd key) s (min (s + ps) (length data)))"

lemma data_packet_seg: "s \<le> e \<Longrightarrow> e \<le> length data \<Longrightarrow> data_packet data mid s e = Some (seg_packet data mid s e)"
  by (simp add: data_packet_def vec_slice_def seg_packet_def)

abbreviation div_ceil :: "nat \<Rightarrow> nat \<Rightarrow> nat" where
  "div_ceil n ps \<equiv> (n + ps - 1) div ps"

lemma pump_loop_sends:
  assumes "0 < ps" "limit \<le> length data"
  shows "n = div_ceil (limit - next) ps \<Longrightarrow> next \<le> length data \<Longrightarrow>
    pump_loop ps data key limit next acts =
      Some (min (next + n * ps) (length data), acts @ map (\<lambda>i. seg_act ps data key (next + i * ps)) [0..<n])"
proof (induction n arbitrary: "next" acts)
  case 0
  then have "limit \<le> next" using assms(1) by (simp add: div_eq_0_iff)
  with 0 show ?case by (simp add: pump_loop.simps)
next
  case (Suc n)
  have less: "next < limit" using Suc.prems(1) assms(1) by (cases "next < limit") (auto simp: div_eq_0_iff)
  let ?e = "min (next + ps) (length data)"
  have n: "n = div_ceil (limit - ?e) ps"
  proof (cases "next + ps \<le> limit")
    case True
    then have eq: "limit - next + ps - 1 = (limit - ?e + ps - 1) + ps" using assms by auto
    have "ps \<noteq> 0" using assms(1) by simp
    then have "div_ceil (limit - next) ps = div_ceil (limit - ?e) ps + 1" unfolding eq by (rule div_add_self2)
    with Suc.prems(1) show ?thesis by simp
  next
    case False
    then have "limit - ?e = 0" using assms(2) by auto
    moreover have "limit - next + ps - 1 < 2 * ps" "ps \<le> limit - next + ps - 1" using False less by auto
    then have "div_ceil (limit - next) ps = 1" by (metis One_nat_def Suc_1 div_nat_eqI mult.commute mult_2 nat_mult_1)
    ultimately show ?thesis using Suc.prems(1) assms(1) by simp
  qed
  have "map (\<lambda>i. seg_act ps data key (?e + i * ps)) [0..<n] = map (\<lambda>i. seg_act ps data key (next + Suc i * ps)) [0..<n]"
  proof (cases "next + ps \<le> length data")
    case False
    then have "limit \<le> ?e" using assms(2) by auto
    then have "n = 0" using n assms(1) by simp
    then show ?thesis by simp
  qed (simp add: algebra_simps)
  then have rest: "seg_act ps data key next # map (\<lambda>i. seg_act ps data key (?e + i * ps)) [0..<n] =
      map (\<lambda>i. seg_act ps data key (next + i * ps)) [0..<Suc n]"
    by (simp add: upt_conv_Cons map_Suc_upt [symmetric] o_def del: upt_Suc)
  have fin: "min (?e + n * ps) (length data) = min (next + Suc n * ps) (length data)" by auto
  have "pump_loop ps data key limit next acts = pump_loop ps data key limit ?e (acts @ [seg_act ps data key next])"
    using less assms Suc.prems(2)
    by (subst pump_loop.simps) (simp add: data_packet_seg seg_act_def)
  also have "\<dots> = Some (min (?e + n * ps) (length data),
      (acts @ [seg_act ps data key next]) @ map (\<lambda>i. seg_act ps data key (?e + i * ps)) [0..<n])"
    using n by (intro Suc.IH) auto
  finally show ?case using rest fin by simp
qed

lemma div_ceil_gt: "0 < ps \<Longrightarrow> off < stop \<Longrightarrow> off div ps < div_ceil stop ps"
proof -
  assume "0 < ps" "off < stop"
  then have "(off div ps) * ps + ps \<le> stop + ps - 1" using div_mult_mod_eq [of off ps] by linarith
  then have "(off div ps + 1) * ps \<le> stop + ps - 1" by simp
  then show ?thesis using \<open>0 < ps\<close> by (simp add: less_eq_div_iff_mult_less_eq Suc_le_eq [symmetric])
qed

lemma resend_loop_sends:
  assumes "0 < ps" "stop \<le> length (om_data m)"
  shows "n = div_ceil stop ps - off div ps \<Longrightarrow>
    resend_loop ps m key stop off acts =
      Some (acts @ (if off < stop then map (\<lambda>i. seg_act ps (om_data m) key ((off div ps + i) * ps)) [0..<n] else []))"
proof (induction n arbitrary: off acts)
  case 0
  then have "\<not> off < stop" using div_ceil_gt [OF assms(1), of off stop] by auto
  then show ?case by (simp add: resend_loop.simps)
next
  case (Suc n)
  show ?case
  proof (cases "off < stop")
    case False
    then show ?thesis by (simp add: resend_loop.simps)
  next
    case True
    let ?s = "off div ps * ps" and ?e = "min (off div ps * ps + ps) (length (om_data m))"
    have s: "?s \<le> off" "off < ?s + ps" using assms(1) div_mult_mod_eq [of off ps] mod_less_divisor [of ps off] by linarith+
    have "?s < length (om_data m)" using s(1) True assms(2) by linarith
    then have e: "?s < ?e" "?s \<le> ?e" using assms(1) by auto
    then have step: "resend_loop ps m key stop off acts = resend_loop ps m key stop ?e (acts @ [seg_act ps (om_data m) key ?s])"
      using True assms(1)
      by (subst resend_loop.simps) (simp add: chunk_range_def Let_def data_packet_seg seg_act_def max_absorb1)
    show ?thesis
    proof (cases "?e < stop")
      case False
      have "stop \<le> ?s + ps" using False by auto
      then have "stop + ps - 1 < (off div ps + 2) * ps" using assms(1) by (simp add: algebra_simps)
      then have "div_ceil stop ps < off div ps + 2" by (simp add: less_mult_imp_div_less)
      with Suc.prems have "n = 0" by simp
      with False True step show ?thesis by (simp add: resend_loop.simps)
    next
      case lt: True
      then have eq: "?e = (off div ps + 1) * ps" using assms(2) by auto
      then have ediv: "?e div ps = off div ps + 1" using assms(1) by simp
      then have "n = div_ceil stop ps - ?e div ps" using Suc.prems by simp
      note IH = Suc.IH [OF this, of "acts @ [seg_act ps (om_data m) key ?s]"]
      have "seg_act ps (om_data m) key ?s # map (\<lambda>i. seg_act ps (om_data m) key ((off div ps + 1 + i) * ps)) [0..<n] =
          map (\<lambda>i. seg_act ps (om_data m) key ((off div ps + i) * ps)) [0..<Suc n]"
        by (simp add: upt_conv_Cons map_Suc_upt [symmetric] o_def del: upt_Suc)
      with IH lt True step ediv show ?thesis by (simp only: if_True append.assoc append_Cons append_Nil)
    qed
  qed
qed

section \<open>Invariant\<close>

text \<open>
  A message in flight stays within its bounds and is never ahead of its grant by a packet or
  more. \<open>aligned\<close>: the next byte to send starts a packet.
\<close>

definition om_ok :: "nat \<Rightarrow> out_msg \<Rightarrow> bool" where
  "om_ok ps m \<longleftrightarrow> om_next_send m \<le> length (om_data m) \<and> om_granted_to m \<le> length (om_data m) \<and>
     om_next_send m < om_granted_to m + ps \<and> (om_done_at m = None \<longrightarrow> om_next_send m < length (om_data m))"

definition aligned :: "nat \<Rightarrow> out_msg \<Rightarrow> bool" where
  "aligned ps m \<longleftrightarrow> om_next_send m mod ps = 0 \<or> om_next_send m = length (om_data m)"

text \<open>An action that sends a piece of the message; a chunk is a piece at a multiple of the packet size.\<close>

definition sends_piece :: "nat \<Rightarrow> bytes \<Rightarrow> msg_key \<Rightarrow> tp_action \<Rightarrow> bool" where
  "sends_piece ps data key a \<longleftrightarrow> (\<exists>s. a = seg_act ps data key s \<and> (s < length data \<or> data = [] \<and> s = 0))"

definition sends_chunk :: "nat \<Rightarrow> bytes \<Rightarrow> msg_key \<Rightarrow> tp_action \<Rightarrow> bool" where
  "sends_chunk ps data key a \<longleftrightarrow> (\<exists>i. a = seg_act ps data key (i * ps) \<and> (i * ps < length data \<or> data = [] \<and> i = 0))"

lemma sends_chunk_piece: "sends_chunk ps data key a \<Longrightarrow> sends_piece ps data key a"
  by (force simp: sends_chunk_def sends_piece_def)

lemma pump_loop_pieces:
  assumes "0 < ps" "limit \<le> length data" "i < div_ceil (limit - next) ps" "next < limit"
  shows "next + i * ps < length data"
proof -
  from assms(3) have "i + 1 \<le> (limit - next + ps - 1) div ps" by simp
  then have "(i + 1) * ps \<le> limit - next + ps - 1"
    using assms(1) by (metis div_le_mono div_mult_self_is_m le_trans less_eq_div_iff_mult_less_eq)
  then show ?thesis using assms(1,2,4) by auto
qed

text \<open>
  The table after the messages \<open>started\<close> were handed over, and the actions it may emit. With \<open>strict\<close>
  every message is aligned and only whole chunks are sent.
\<close>

definition sc_ok :: "nat \<Rightarrow> (msg_key \<times> bytes) set \<Rightarrow> bool \<Rightarrow> sender_core \<Rightarrow> bool" where
  "sc_ok ps started strict sc \<longleftrightarrow> packet_size (sc_cfg sc) = ps \<and> hm_wf (sc_out sc) \<and>
     (\<forall>key m. hm_get (sc_out sc) key = Some m \<longrightarrow>
        om_ok ps m \<and> (key, om_data m) \<in> started \<and> (strict \<longrightarrow> aligned ps m))"

definition act_ok :: "nat \<Rightarrow> (msg_key \<times> bytes) set \<Rightarrow> bool \<Rightarrow> tp_action \<Rightarrow> bool" where
  "act_ok ps started strict a \<longleftrightarrow> (\<exists>(key, data) \<in> started. sends_piece ps data key a \<and> (strict \<longrightarrow> sends_chunk ps data key a))"

definition op_ok :: "nat \<Rightarrow> (msg_key \<times> bytes) set \<Rightarrow> bool \<Rightarrow> tp_action list \<Rightarrow> (sender_core \<times> tp_action list) option \<Rightarrow> bool" where
  "op_ok ps started strict acts r \<longleftrightarrow>
     (\<exists>sc' new. r = Some (sc', acts @ new) \<and> sc_ok ps started strict sc' \<and> list_all (act_ok ps started strict) new)"

lemma op_ok_same: "sc_ok ps started strict sc \<Longrightarrow> op_ok ps started strict acts (Some (sc, acts))"
  by (force simp: op_ok_def)

lemma op_okI:
  "r = Some (sc', acts @ new) \<Longrightarrow> sc_ok ps started strict sc' \<Longrightarrow> list_all (act_ok ps started strict) new \<Longrightarrow>
   op_ok ps started strict acts r"
  by (auto simp: op_ok_def)

lemma sc_ok_put:
  "sc_ok ps started strict sc \<Longrightarrow> om_ok ps m \<Longrightarrow> (key, om_data m) \<in> started \<Longrightarrow> (strict \<Longrightarrow> aligned ps m) \<Longrightarrow>
   sc_ok ps started strict (sc_put sc key m)"
  by (auto simp: sc_ok_def sc_put_def)

lemma sc_okD:
  assumes "sc_ok ps started strict sc" "hm_get (sc_out sc) key = Some m"
  shows "om_ok ps m" "(key, om_data m) \<in> started" "strict \<Longrightarrow> aligned ps m"
  using assms unfolding sc_ok_def by blast+

lemma sc_ok_size: "sc_ok ps started strict sc \<Longrightarrow> packet_size (sc_cfg sc) = ps"
  by (simp add: sc_ok_def)

lemma act_okI:
  "(key, data) \<in> started \<Longrightarrow> sends_chunk ps data key a \<Longrightarrow> act_ok ps started strict a"
  by (auto simp: act_ok_def intro: sends_chunk_piece)

lemma mult_add_mod: "next mod ps = 0 \<Longrightarrow> next + i * ps = (next div ps + i) * ps" for ps :: nat
  by (metis add_mult_distrib div_mult_mod_eq add.right_neutral)

lemma pump_pieces_ok:
  assumes ps: "0 < ps" and lim: "limit \<le> length data" and mem: "(key, data) \<in> started"
    and al: "strict \<Longrightarrow> nx < limit \<Longrightarrow> nx mod ps = 0" and i: "i < div_ceil (limit - nx) ps"
  shows "act_ok ps started strict (seg_act ps data key (nx + i * ps))"
proof -
  have lt: "nx < limit" using i ps by (cases "nx < limit") (auto simp: div_eq_0_iff)
  have len: "nx + i * ps < length data" by (rule pump_loop_pieces [OF ps lim i lt])
  then have "sends_piece ps data key (seg_act ps data key (nx + i * ps))" by (auto simp: sends_piece_def)
  moreover have "sends_chunk ps data key (seg_act ps data key (nx + i * ps))" if strict
    using mult_add_mod [OF al [OF that lt], of i] len unfolding sends_chunk_def by metis
  ultimately show ?thesis using mem unfolding act_ok_def by (intro bexI [of _ "(key, data)"]) auto
qed

lemma om_ok_pump:
  assumes "om_ok ps m" "nx \<le> length (om_data m)" "lim \<le> length (om_data m)" "nx < max (om_granted_to m) lim + ps"
  shows "om_ok ps (m\<lparr>om_next_send := nx, om_granted_to := max (om_granted_to m) lim, om_last_progress := now,
    om_done_at := (if nx \<ge> length (om_data m) then Some now else om_done_at m)\<rparr>)"
  using assms by (auto simp: om_ok_def)

lemma pump_op_ok:
  assumes ps: "0 < ps" and ok: "sc_ok ps started strict sc"
  shows "op_ok ps started strict acts (pump sc key limit now acts)"
proof (cases "hm_get (sc_out sc) key")
  case None
  with ok show ?thesis by (simp add: pump_def op_ok_same)
next
  case (Some m)
  show ?thesis
  proof (cases "om_done_at m")
    case (Some d)
    with \<open>hm_get (sc_out sc) key = Some m\<close> ok show ?thesis by (simp add: pump_def op_ok_same)
  next
    case None
    let ?d = "om_data m" and ?lim = "min limit (length (om_data m))"
    let ?n = "div_ceil (?lim - om_next_send m) ps"
    let ?acts = "map (\<lambda>i. seg_act ps ?d key (om_next_send m + i * ps)) [0..<?n]"
    let ?next = "min (om_next_send m + ?n * ps) (length ?d)"
    note m = sc_okD [OF ok Some] sc_ok_size [OF ok]
    have loop: "pump_loop ps ?d key ?lim (om_next_send m) acts = Some (?next, acts @ ?acts)"
      using ps m(1) by (intro pump_loop_sends) (auto simp: om_ok_def)
    have ahead: "om_next_send m + ?n * ps < max (om_granted_to m) ?lim + ps"
    proof (cases "om_next_send m < ?lim")
      case True
      with ps div_times_less_eq_dividend [of "?lim - om_next_send m + ps - 1" ps] max.cobounded2 [of ?lim "om_granted_to m"]
      show ?thesis by linarith
    next
      case False
      then have "?lim - om_next_send m = 0" by linarith
      then have "?n = 0" using ps by (simp only:) simp
      with m(1) show ?thesis by (auto simp: om_ok_def)
    qed
    have pieces: "list_all (act_ok ps started strict) ?acts"
    proof -
      have "strict \<Longrightarrow> om_next_send m < ?lim \<Longrightarrow> om_next_send m mod ps = 0" using m(3) by (auto simp: aligned_def)
      note piece = pump_pieces_ok [OF ps _ m(2) this, of ?lim]
      show ?thesis by (auto simp: list_all_iff intro!: piece)
    qed
    have al: "aligned ps (m\<lparr>om_next_send := ?next\<rparr>)" if "aligned ps m"
      using that mult_add_mod [of "om_next_send m" ps ?n] by (auto simp: aligned_def min_def)
    have res: "om_ok ps (m\<lparr>om_next_send := ?next, om_granted_to := max (om_granted_to m) ?lim, om_last_progress := now,
        om_done_at := (if ?next \<ge> length ?d then Some now else om_done_at m)\<rparr>)"
      by (rule om_ok_pump [OF m(1) _ _ le_less_trans [OF min.cobounded1 ahead]]) simp_all
    show ?thesis
    proof (rule op_okI)
      show "pump sc key limit now acts = Some (sc_put sc key (m\<lparr>om_next_send := ?next, om_granted_to := max (om_granted_to m) ?lim,
          om_last_progress := now, om_done_at := (if ?next \<ge> length ?d then Some now else om_done_at m)\<rparr>), acts @ ?acts)"
        using Some None loop m(4) by (simp add: pump_def Let_def)
      show "sc_ok ps started strict (sc_put sc key (m\<lparr>om_next_send := ?next, om_granted_to := max (om_granted_to m) ?lim,
          om_last_progress := now, om_done_at := (if ?next \<ge> length ?d then Some now else om_done_at m)\<rparr>))"
        using ok res m al by (intro sc_ok_put) (auto simp: aligned_def)
      show "list_all (act_ok ps started strict) ?acts" by (rule pieces)
    qed
  qed
qed

lemma start_op_ok:
  assumes ps: "0 < ps" and ok: "sc_ok ps started strict sc"
  shows "op_ok ps (insert ((dest, mid), data) started) strict [] (start_inner sc dest mid data now rt)"
proof -
  let ?m = "\<lparr>om_data = data, om_granted_to = min (unscheduled_bytes (sc_cfg sc)) (length data), om_next_send = 0,
    om_done_at = None, om_last_progress = now, om_retransmit = rt\<rparr>"
  have more: "sc_ok ps (insert ((dest, mid), data) started) strict sc"
    using ok unfolding sc_ok_def by blast
  show ?thesis
  proof (cases "data = []")
    case False
    have "sc_ok ps (insert ((dest, mid), data) started) strict (sc_put sc (dest, mid) ?m)"
      using more False ps by (intro sc_ok_put) (auto simp: om_ok_def aligned_def)
    from pump_op_ok [OF ps this] show ?thesis by (simp add: start_inner_def Let_def)
  next
    case True
    let ?m' = "?m\<lparr>om_done_at := Some now\<rparr>"
    have "start_inner sc dest mid data now rt = Some (sc_put (sc_put sc (dest, mid) ?m) (dest, mid) ?m', [])"
      using True ps by (simp add: start_inner_def pump_def sc_put_def pump_loop.simps)
    moreover have "sc_put (sc_put sc (dest, mid) ?m) (dest, mid) ?m' = sc_put sc (dest, mid) ?m'"
      by (simp add: sc_put_def)
    moreover have "sc_ok ps (insert ((dest, mid), data) started) strict (sc_put sc (dest, mid) ?m')"
      using more True ps by (intro sc_ok_put) (auto simp: om_ok_def aligned_def)
    ultimately show ?thesis by (auto simp: op_ok_def)
  qed
qed

lemma grant_op_ok:
  assumes "0 < ps" "sc_ok ps started strict sc"
  shows "op_ok ps started strict acts (handle_grant sc src p now acts)"
  using op_ok_same [OF assms(2)] pump_op_ok [OF assms] by (simp add: handle_grant_def Let_def split: option.split)

text \<open>A RESEND that asks up to a packet boundary keeps the message aligned.\<close>

definition resend_aligned :: "nat \<Rightarrow> packet \<Rightarrow> bool" where
  "resend_aligned ps p \<longleftrightarrow> ps dvd unat (offset p) + unat (pk_length p)"

lemma resend_chunks:
  assumes "0 < ps" "stop \<le> length data" "off < stop" "i < div_ceil stop ps - off div ps"
  shows "sends_chunk ps data key (seg_act ps data key ((off div ps + i) * ps))"
proof -
  from assms(4) have "off div ps + i + 1 \<le> div_ceil stop ps" by simp
  then have "(off div ps + i + 1) * ps \<le> stop + ps - 1"
    using assms(1) by (metis less_eq_div_iff_mult_less_eq)
  then have "(off div ps + i) * ps < length data" using assms(1,2) by (simp add: add_mult_distrib)
  then show ?thesis by (auto simp: sends_chunk_def)
qed

lemma stop_aligned: "ps dvd a + l \<Longrightarrow> min (min a n + l) n mod ps = 0 \<or> min (min a n + l) n = n" for ps a l n :: nat
  by (cases "a \<le> n"; cases "a + l \<le> n") (auto simp: dvd_eq_mod_eq_0)

text \<open>So does one whose end, as \<open>handle_resend\<close> clips it, is a packet boundary or the end of the message.\<close>

definition resend_fits :: "nat \<Rightarrow> sender_core \<Rightarrow> sock_addr \<Rightarrow> packet \<Rightarrow> bool" where
  "resend_fits ps sc src p = (case hm_get (sc_out sc) (src, msg_id p) of
     None \<Rightarrow> True
   | Some m \<Rightarrow> let stop = min (min (unat (offset p)) (length (om_data m)) + unat (pk_length p)) (length (om_data m))
       in stop mod ps = 0 \<or> stop = length (om_data m))"

lemma resend_aligned_fits: "resend_aligned ps p \<Longrightarrow> resend_fits ps sc src p"
  using stop_aligned unfolding resend_aligned_def resend_fits_def Let_def by (simp split: option.split)

lemma resend_op_ok:
  assumes ps: "0 < ps" and ok: "sc_ok ps started strict sc" and al: "strict \<Longrightarrow> resend_fits ps sc src p"
  shows "op_ok ps started strict acts (handle_resend sc src p now acts)"
proof (cases "hm_get (sc_out sc) (src, msg_id p)")
  case None
  with ok show ?thesis by (simp add: handle_resend_def op_ok_same)
next
  case (Some m)
  let ?d = "om_data m" and ?key = "(src, msg_id p)"
  let ?start = "min (unat (offset p)) (length ?d)"
  let ?stop = "min (?start + unat (pk_length p)) (length ?d)"
  let ?n = "div_ceil ?stop ps - ?start div ps"
  let ?new = "if ?start < ?stop then map (\<lambda>i. seg_act ps ?d ?key ((?start div ps + i) * ps)) [0..<?n] else []"
  note m = sc_okD [OF ok Some] sc_ok_size [OF ok]
  have loop: "resend_loop ps m ?key ?stop ?start acts = Some (acts @ ?new)"
    by (rule resend_loop_sends [OF ps _ refl]) simp
  have "list_all (act_ok ps started strict)
      (if a < b then map (\<lambda>i. seg_act ps ?d ?key ((a div ps + i) * ps)) [0..<div_ceil b ps - a div ps] else [])"
    if "b \<le> length ?d" for a b
    using that by (auto simp: list_all_iff intro!: act_okI [OF m(2)] resend_chunks [OF ps])
  note pieces = this
  have new: "list_all (act_ok ps started strict) ?new" by (rule pieces) simp
  let ?m1 = "m\<lparr>om_granted_to := max (om_granted_to m) ?stop\<rparr>"
  let ?m2 = "(if om_next_send ?m1 < ?stop
     then ?m1\<lparr>om_next_send := ?stop,
              om_done_at := (if ?stop \<ge> length (om_data ?m1) \<and> om_done_at ?m1 = None then Some now else om_done_at ?m1)\<rparr>
     else ?m1)\<lparr>om_last_progress := now\<rparr>"
  have "om_ok ps ?m2" using m(1) ps by (auto simp: om_ok_def)
  moreover have "aligned ps ?m2" if strict
  proof -
    have "?stop mod ps = 0 \<or> ?stop = length ?d"
      using al [OF that] Some by (simp add: resend_fits_def Let_def)
    with m(3) [OF that] show ?thesis by (auto simp: aligned_def)
  qed
  ultimately have "sc_ok ps started strict (sc_put sc ?key ?m2)" using ok m by (intro sc_ok_put) auto
  moreover have "handle_resend sc src p now acts = Some (sc_put sc ?key ?m2, acts @ ?new)"
    using Some loop m(4) by (simp only: handle_resend_def Let_def option.case Option.bind.simps)
  ultimately show ?thesis using new by (intro op_okI)
qed

lemma busy_ok:
  assumes ok: "sc_ok ps started strict sc"
  shows "sc_ok ps started strict (handle_busy sc src p now)"
proof (cases "hm_get (sc_out sc) (src, msg_id p)")
  case (Some m)
  with sc_okD [OF ok Some] ok show ?thesis
    by (simp add: handle_busy_def sc_ok_put om_ok_def aligned_def)
qed (use ok in \<open>simp add: handle_busy_def\<close>)

lemma remove_ok: "sc_ok ps started strict sc \<Longrightarrow> sc_ok ps started strict (sc\<lparr>sc_out := hm_remove key (sc_out sc)\<rparr>)"
  by (auto simp: sc_ok_def)

lemma confirm_ok:
  assumes ok: "sc_ok ps started strict sc"
  shows "sc_ok ps started strict (sc_confirm sc dest mid)"
proof (cases "hm_get (sc_out sc) (dest, mid)")
  case (Some m)
  with sc_okD [OF ok Some] ok show ?thesis
    by (simp add: sc_confirm_def remove_ok sc_ok_put om_ok_def aligned_def)
qed (use ok in \<open>simp add: sc_confirm_def\<close>)

lemma tick_one_ok:
  assumes ps: "0 < ps" and ok: "sc_ok ps started strict sc"
  shows "op_ok ps started strict acts (sc_tick_one now key (sc, acts))"
proof (cases "hm_get (sc_out sc) key")
  case None
  with ok show ?thesis by (simp add: sc_tick_one_def op_ok_same)
next
  case (Some m)
  let ?d = "om_data m"
  let ?sc = "sc_put sc key (m\<lparr>om_last_progress := now\<rparr>)"
  note m = sc_okD [OF ok Some] sc_ok_size [OF ok]
  have put: "sc_ok ps started strict ?sc" using m ok by (intro sc_ok_put) (auto simp: om_ok_def aligned_def)
  show ?thesis
  proof (cases "om_done_at m")
    case (Some dt)
    have "data_packet ?d (snd key) 0 (min ps (length ?d)) = Some (seg_packet ?d (snd key) 0 (min ps (length ?d)))"
      by (simp add: data_packet_seg)
    moreover have "sends_chunk ps ?d key (Send (fst key) (seg_packet ?d (snd key) 0 (min ps (length ?d))))"
      by (auto simp: sends_chunk_def seg_act_def intro!: exI [of _ 0])
    moreover have "sc_ok ps started strict (?sc\<lparr>sc_retransmits := sc_retransmits sc + 1\<rparr>)"
      using put by (simp add: sc_ok_def)
    ultimately show ?thesis
      using Some \<open>hm_get (sc_out sc) key = Some m\<close> op_ok_same [OF ok] m
      by (auto simp: sc_tick_one_def Let_def intro!: op_okI act_okI)
  next
    case None
    let ?off = "if om_next_send m = 0 then 0 else (om_next_send m - 1) div ps * ps"
    let ?s = "?off div ps * ps" and ?e = "min (?off div ps * ps + ps) (length ?d)"
    have "om_next_send m < length ?d" using m(1) None by (simp add: om_ok_def)
    then have "?off < length ?d"
      using le_less_trans [OF div_times_less_eq_dividend [of "om_next_send m - 1" ps], of "length ?d"]
      by (cases "om_next_send m = 0") auto
    then have s: "?s < length ?d" using div_times_less_eq_dividend [of ?off ps] by linarith
    then have pkt: "data_packet ?d (snd key) ?s ?e = Some (seg_packet ?d (snd key) ?s ?e)"
      by (intro data_packet_seg) auto
    have "sends_chunk ps ?d key (Send (fst key) (seg_packet ?d (snd key) ?s ?e))"
      unfolding sends_chunk_def seg_act_def by (intro exI [of _ "?off div ps"] conjI disjI1 refl s)
    then have act: "list_all (act_ok ps started strict) [Send (fst key) (seg_packet ?d (snd key) ?s ?e)]"
      using m(2) by (simp add: act_okI)
    show ?thesis
    proof (cases "now - om_last_progress m < poke_timeout (sc_cfg sc)")
      case True
      with None Some ok show ?thesis by (simp add: sc_tick_one_def Let_def op_ok_same)
    next
      case False
      have "sc_tick_one now key (sc, acts) = Some (?sc, acts @ [Send (fst key) (seg_packet ?d (snd key) ?s ?e)])"
        using False None Some ps m(4) pkt
        by (cases "om_next_send m = 0") (simp_all add: sc_tick_one_def Let_def chunk_range_def)
      with put act show ?thesis by (intro op_okI)
    qed
  qed
qed

lemma op_ok_trans:
  "op_ok ps started strict acts (Some (sc', acts @ new)) \<Longrightarrow> op_ok ps started strict (acts @ new) r \<Longrightarrow> op_ok ps started strict acts r"
  by (auto simp: op_ok_def)

lemma tick_loop_ok:
  assumes "0 < ps" "sc_ok ps started strict sc"
  shows "op_ok ps started strict acts (foldM (sc_tick_one now) keys (sc, acts))"
  using assms(2)
proof (induction keys arbitrary: sc acts)
  case Nil
  then show ?case by (simp add: op_ok_same)
next
  case (Cons key keys)
  from tick_one_ok [OF assms(1) Cons.prems, of acts now key] obtain sc' new where
    s: "sc_tick_one now key (sc, acts) = Some (sc', acts @ new)" "sc_ok ps started strict sc'" "list_all (act_ok ps started strict) new"
    by (auto simp: op_ok_def)
  then have "op_ok ps started strict acts (Some (sc', acts @ new))" by (auto simp: op_ok_def)
  from op_ok_trans [OF this Cons.IH [OF s(2)]] s(1) show ?case by simp
qed

lemma tick_op_ok:
  assumes "0 < ps" "sc_ok ps started strict sc"
  shows "op_ok ps started strict acts (sc_tick iter sc now acts)"
proof -
  have "sc_ok ps started strict (sc\<lparr>sc_out := filter (keep_lingering (sc_cfg sc) now) (sc_out sc)\<rparr>)"
    using assms(2) unfolding sc_ok_def by (auto simp: hm_get_filter)
  from tick_loop_ok [OF assms(1) this] show ?thesis by (simp add: sc_tick_def Let_def)
qed

section \<open>Histories\<close>

datatype sc_op =
    OpStart sock_addr u64 bytes nat bool
  | OpGrant sock_addr packet nat
  | OpResend sock_addr packet nat
  | OpBusy sock_addr packet nat
  | OpTick "(msg_key, out_msg) hmap \<Rightarrow> msg_key list" nat
  | OpFinish sock_addr u64
  | OpConfirm sock_addr u64

fun sc_step :: "sender_core \<Rightarrow> sc_op \<Rightarrow> (sender_core \<times> tp_action list) option" where
  "sc_step sc (OpStart dest mid data now rt) = (if rt then start_retransmit sc dest mid data now else sc_start sc dest mid data now)"
| "sc_step sc (OpGrant src p now) = handle_grant sc src p now []"
| "sc_step sc (OpResend src p now) = handle_resend sc src p now []"
| "sc_step sc (OpBusy src p now) = Some (handle_busy sc src p now, [])"
| "sc_step sc (OpTick iter now) = sc_tick iter sc now []"
| "sc_step sc (OpFinish dest mid) = Some (sc_finish sc dest mid, [])"
| "sc_step sc (OpConfirm dest mid) = Some (sc_confirm sc dest mid, [])"

fun sc_run :: "sender_core \<Rightarrow> sc_op list \<Rightarrow> (sender_core \<times> tp_action list) option" where
  "sc_run sc [] = Some (sc, [])"
| "sc_run sc (op # ops) = do {
     (sc1, acts) \<leftarrow> sc_step sc op;
     (sc2, acts2) \<leftarrow> sc_run sc1 ops;
     Some (sc2, acts @ acts2)
   }"

fun started_by :: "sc_op \<Rightarrow> (msg_key \<times> bytes) set" where
  "started_by (OpStart dest mid data now rt) = {((dest, mid), data)}"
| "started_by _ = {}"

fun op_aligned :: "nat \<Rightarrow> sc_op \<Rightarrow> bool" where
  "op_aligned ps (OpResend src p now) = resend_aligned ps p"
| "op_aligned ps _ = True"

lemma sc_ok_more: "sc_ok ps started strict sc \<Longrightarrow> started \<subseteq> started' \<Longrightarrow> sc_ok ps started' strict sc"
  unfolding sc_ok_def by blast

lemma sc_step_ok:
  assumes ps: "0 < ps" and ok: "sc_ok ps started strict sc" and al: "strict \<Longrightarrow> op_aligned ps op"
  shows "op_ok ps (started \<union> started_by op) strict [] (sc_step sc op)"
proof (cases op)
  case (OpStart dest mid data now rt)
  with start_op_ok [OF ps ok] show ?thesis by (simp add: sc_start_def start_retransmit_def)
next
  case (OpResend src p now)
  with resend_op_ok [OF ps ok] resend_aligned_fits al show ?thesis by simp
next
  case (OpBusy src p now)
  with busy_ok [OF ok] show ?thesis by (simp add: op_ok_def)
next
  case (OpFinish dest mid)
  with remove_ok [OF ok] show ?thesis by (simp add: op_ok_def sc_finish_def)
next
  case (OpConfirm dest mid)
  with confirm_ok [OF ok] show ?thesis by (simp add: op_ok_def)
qed (use grant_op_ok [OF ps ok] tick_op_ok [OF ps ok] in simp_all)

lemma act_ok_more: "act_ok ps started strict a \<Longrightarrow> started \<subseteq> started' \<Longrightarrow> act_ok ps started' strict a"
  unfolding act_ok_def by blast

lemma sc_run_ok:
  assumes ps: "0 < ps" and ok: "sc_ok ps started strict sc" and al: "strict \<Longrightarrow> list_all (op_aligned ps) ops"
  shows "op_ok ps (started \<union> \<Union> (started_by ` set ops)) strict [] (sc_run sc ops)"
  using ok al
proof (induction ops arbitrary: sc started)
  case Nil
  then show ?case by (simp add: op_ok_def)
next
  case (Cons op ops)
  from sc_step_ok [OF ps Cons.prems(1), of op] Cons.prems(2) obtain sc1 acts where
    s1: "sc_step sc op = Some (sc1, acts)" "sc_ok ps (started \<union> started_by op) strict sc1"
      "list_all (act_ok ps (started \<union> started_by op) strict) acts"
    by (auto simp: op_ok_def)
  from Cons.IH [OF s1(2)] Cons.prems(2) obtain sc2 acts2 where
    s2: "sc_run sc1 ops = Some (sc2, acts2)" "sc_ok ps (started \<union> started_by op \<union> \<Union> (started_by ` set ops)) strict sc2"
      "list_all (act_ok ps (started \<union> started_by op \<union> \<Union> (started_by ` set ops)) strict) acts2"
    by (auto simp: op_ok_def)
  have "list_all (act_ok ps (started \<union> started_by op \<union> \<Union> (started_by ` set ops)) strict) acts"
    using s1(3) by (auto simp: list_all_iff intro: act_ok_more)
  with s1 s2 show ?case by (auto simp: op_ok_def Un_assoc)
qed

section \<open>Properties\<close>



end
