(* ===== verification/Homa_Receiver.thy ===== *)
theory Homa_Receiver
  imports Homa_Sender
begin

text \<open>
  The receiving half of the transport (\<^verbatim>\<open>crates/homa-rpc/src/transport/receiver.rs\<close>):
  reassembly, the grant scheduler, starvation rescue and retransmission requests. A subtraction
  that would go below zero panics, as in builds with overflow checks. Two orders the code leaves
  open are arguments: the iteration order of the table of incoming messages and the choice among
  equally old entries of the starvation heap.
\<close>

section \<open>State\<close>

record in_msg =
  im_total_len :: nat
  im_buf :: bytes
  im_received :: "bool list"
  im_received_bytes :: nat
  im_granted_to :: nat
  im_last_progress :: nat
  im_last_grant :: nat
  im_unanswered_resends :: nat

definition MAX_UNANSWERED_RESENDS :: nat where "MAX_UNANSWERED_RESENDS = 40"

definition COMPLETED_CACHE :: nat where "COMPLETED_CACHE = 4096"

definition MAX_MSG_LEN :: nat where "MAX_MSG_LEN = 16777216"

definition im_remaining :: "in_msg \<Rightarrow> nat option" where
  "im_remaining m = (if im_received_bytes m \<le> im_total_len m then Some (im_total_len m - im_received_bytes m) else None)"

definition im_complete :: "in_msg \<Rightarrow> bool" where
  "im_complete m \<longleftrightarrow> im_received_bytes m = im_total_len m"

fun first_false :: "nat \<Rightarrow> bool list \<Rightarrow> nat option" where
  "first_false i [] = None"
| "first_false i (b # bs) = (if b then first_false (Suc i) bs else Some i)"

definition first_missing_offset :: "in_msg \<Rightarrow> nat \<Rightarrow> nat option" where
  "first_missing_offset m ps = map_option (\<lambda>i. i * ps) (first_false 0 (im_received m))"

type_synonym starve_heap = "(nat \<times> msg_key) list"

record receiver_core =
  rc_cfg :: transport_config
  rc_incoming :: "(msg_key, in_msg) hmap"
  rc_granting :: "msg_key list"
  rc_completed :: "msg_key list"
  rc_completed_order :: "msg_key list"
  rc_starve_queue :: starve_heap

record rc_order =
  ro_iter :: "(msg_key, in_msg) hmap \<Rightarrow> (msg_key, in_msg) hmap"
  ro_top :: "starve_heap \<Rightarrow> nat \<times> msg_key"

definition rc_new :: "transport_config \<Rightarrow> receiver_core" where
  "rc_new cfg = \<lparr>rc_cfg = cfg, rc_incoming = [], rc_granting = [], rc_completed = [], rc_completed_order = [],
     rc_starve_queue = []\<rparr>"

type_synonym rc_state = "receiver_core \<times> tp_action list"

section \<open>Grants\<close>

definition control_packet :: "packet_type \<Rightarrow> u8 \<Rightarrow> u64 \<Rightarrow> nat \<Rightarrow> nat \<Rightarrow> bytes" where
  "control_packet t prio mid off n = pk_encode (packet_new t prio mid 0 (of_nat off) (of_nat n)) []"

definition issue_grant :: "nat \<Rightarrow> bool \<Rightarrow> msg_key \<Rightarrow> rc_state \<Rightarrow> rc_state" where
  "issue_grant now force key = (\<lambda>(rc, acts).
     case hm_get (rc_incoming rc) key of
       None \<Rightarrow> (rc, acts)
     | Some m \<Rightarrow>
         let increment = grant_increment (rc_cfg rc);
             outstanding = im_granted_to m - im_received_bytes m;
             target = max (min (im_received_bytes m + increment) (im_total_len m)) (im_granted_to m)
         in if \<not> force \<and> outstanding \<ge> increment div 2 then (rc, acts)
            else if target = im_granted_to m \<and> \<not> force then (rc, acts)
            else (rc\<lparr>rc_incoming := hm_insert key (m\<lparr>im_granted_to := target, im_last_grant := now\<rparr>) (rc_incoming rc),
                     rc_starve_queue := (now + starve_threshold (rc_cfg rc), key) # rc_starve_queue rc\<rparr>,
                  acts @ [Send (fst key) (control_packet Grant (priority_for_len (im_total_len m)) (snd key)
                     target (target - im_granted_to m))]))"

definition wants_grant :: "in_msg \<Rightarrow> bool" where
  "wants_grant m \<longleftrightarrow> \<not> im_complete m \<and> im_granted_to m < im_total_len m"

definition starving :: "transport_config \<Rightarrow> nat \<Rightarrow> in_msg \<Rightarrow> bool" where
  "starving cfg now m \<longleftrightarrow> wants_grant m \<and> now - im_last_grant m \<ge> starve_threshold cfg"

fun remaining_of :: "(msg_key, in_msg) hmap \<Rightarrow> (msg_key \<times> nat) list option" where
  "remaining_of [] = Some []"
| "remaining_of ((key, m) # ms) = do { rem \<leftarrow> im_remaining m; rest \<leftarrow> remaining_of ms; Some ((key, rem) # rest) }"

definition add_starving :: "transport_config \<Rightarrow> nat \<Rightarrow> (msg_key, in_msg) hmap \<Rightarrow> msg_key list \<Rightarrow> msg_key list" where
  "add_starving cfg now ms selected =
     fold (\<lambda>(key, m) sel. if starving cfg now m \<and> key \<notin> set sel then sel @ [key] else sel) ms selected"

definition schedule :: "rc_order \<Rightarrow> nat \<Rightarrow> rc_state \<Rightarrow> rc_state option" where
  "schedule ord now = (\<lambda>(rc, acts). do {
     cands \<leftarrow> remaining_of (filter (\<lambda>(key, m). wants_grant m) (ro_iter ord (rc_incoming rc)));
     let top = map fst (take (max (overcommit (rc_cfg rc)) 1) (sort_key snd cands));
     let selected = add_starving (rc_cfg rc) now (ro_iter ord (rc_incoming rc)) top;
     Some (fold (issue_grant now False) selected (rc\<lparr>rc_granting := selected\<rparr>, acts))
   })"

text \<open>The loop of \<open>starve_check\<close> pops one entry per round, so the length of the heap bounds the rounds.\<close>

fun starve_loop :: "rc_order \<Rightarrow> nat \<Rightarrow> nat \<Rightarrow> rc_state \<Rightarrow> rc_state option" where
  "starve_loop ord now 0 s = Some s"
| "starve_loop ord now (Suc n) (rc, acts) =
     (if rc_starve_queue rc = [] then Some (rc, acts)
      else case ro_top ord (rc_starve_queue rc) of (t, k) \<Rightarrow>
        if t > now then Some (rc, acts)
        else
          let rc1 = rc\<lparr>rc_starve_queue := remove1 (t, k) (rc_starve_queue rc)\<rparr>;
              starved = (case hm_get (rc_incoming rc1) k of
                 None \<Rightarrow> False
               | Some m \<Rightarrow> k \<notin> set (rc_granting rc1) \<and> im_granted_to m < im_total_len m \<and>
                   now - im_last_grant m \<ge> starve_threshold (rc_cfg rc1))
          in if starved then schedule ord now (rc1, acts) else starve_loop ord now n (rc1, acts))"

definition starve_check :: "rc_order \<Rightarrow> nat \<Rightarrow> rc_state \<Rightarrow> rc_state option" where
  "starve_check ord now s = starve_loop ord now (length (rc_starve_queue (fst s))) s"

section \<open>Delivery and data\<close>

definition deliver :: "msg_key \<Rightarrow> sock_addr \<Rightarrow> bytes \<Rightarrow> rc_state \<Rightarrow> rc_state" where
  "deliver key src data = (\<lambda>(rc, acts).
     let completed = List.insert key (rc_completed rc);
         order = rc_completed_order rc @ [key]
     in (rc\<lparr>rc_incoming := hm_remove key (rc_incoming rc),
            rc_granting := filter (\<lambda>k. k \<noteq> key) (rc_granting rc),
            rc_completed := (if length order > COMPLETED_CACHE then removeAll (hd order) completed else completed),
            rc_completed_order := (if length order > COMPLETED_CACHE then tl order else order)\<rparr>,
         acts @ [Deliver src (snd key) data]))"

text \<open>\<open>buf[a..a + len].copy_from_slice(payload)\<close>: a panic when the range leaves the buffer.\<close>

definition copy_at :: "bytes \<Rightarrow> nat \<Rightarrow> bytes \<Rightarrow> bytes option" where
  "copy_at buf a body =
     (if a + length body \<le> length buf then Some (take a buf @ body @ drop (a + length body) buf) else None)"

definition fresh_in_msg :: "nat \<Rightarrow> nat \<Rightarrow> nat \<Rightarrow> nat \<Rightarrow> in_msg" where
  "fresh_in_msg total_len ps unscheduled now =
     \<lparr>im_total_len = total_len, im_buf = replicate total_len 0, im_received = replicate (max (div_ceil total_len ps) 1) False,
      im_received_bytes = 0, im_granted_to = unscheduled, im_last_progress = now, im_last_grant = now,
      im_unanswered_resends = 0\<rparr>"

definition accept_chunk :: "nat \<Rightarrow> nat \<Rightarrow> nat \<Rightarrow> bytes \<Rightarrow> nat \<Rightarrow> in_msg \<Rightarrow> in_msg option" where
  "accept_chunk ps total_len off body now m =
     (let idx = off div ps in
      if idx < length (im_received m) \<and> \<not> im_received m ! idx \<and> off + length body \<le> total_len
      then do {
        buf \<leftarrow> copy_at (im_buf m) off body;
        Some (m\<lparr>im_buf := buf, im_received := (im_received m)[idx := True],
                im_received_bytes := im_received_bytes m + length body, im_last_progress := now, im_unanswered_resends := 0\<rparr>)
      }
      else Some m)"

definition rc_put :: "receiver_core \<Rightarrow> msg_key \<Rightarrow> in_msg \<Rightarrow> receiver_core" where
  "rc_put rc key m = rc\<lparr>rc_incoming := hm_insert key m (rc_incoming rc)\<rparr>"

text \<open>The part of \<open>handle_data\<close> behind the guards: \<open>m\<close> is the entry of the message, new or not.\<close>

definition data_for :: "rc_order \<Rightarrow> sock_addr \<Rightarrow> packet \<Rightarrow> bytes \<Rightarrow> nat \<Rightarrow> bool \<Rightarrow> in_msg \<Rightarrow> rc_state \<Rightarrow> rc_state option" where
  "data_for ord src p body now is_new m = (\<lambda>(rc, acts).
     let key = (src, msg_id p); total_len = unat (msg_len p); ps = packet_size (rc_cfg rc) in
     if total_len = 0 then schedule ord now (deliver key src [] (rc_put rc key m, acts))
     else do {
       m1 \<leftarrow> accept_chunk ps total_len (unat (offset p)) body now m;
       if im_complete m1 then schedule ord now (deliver key src (im_buf m1) (rc_put rc key m1, acts))
       else do {
         s \<leftarrow> (if is_new then schedule ord now (rc_put rc key m1, acts)
              else if key \<in> set (rc_granting rc) then Some (issue_grant now False key (rc_put rc key m1, acts))
              else Some (rc_put rc key m1, acts));
         starve_check ord now s
       }
     })"

definition handle_data :: "rc_order \<Rightarrow> sock_addr \<Rightarrow> packet \<Rightarrow> bytes \<Rightarrow> nat \<Rightarrow> rc_state \<Rightarrow> rc_state option" where
  "handle_data ord src p body now = (\<lambda>(rc, acts).
     let key = (src, msg_id p); total_len = unat (msg_len p); ps = packet_size (rc_cfg rc) in
     if key \<in> set (rc_completed rc) then Some (rc, acts)
     else if total_len > MAX_MSG_LEN then Some (rc, acts)
     else case hm_get (rc_incoming rc) key of
       None \<Rightarrow>
         if length (rc_incoming rc) \<ge> max_incoming (rc_cfg rc)
         then Some (rc, acts @ [Send src (control_packet Busy 0 (msg_id p) 0 0)])
         else if ps = 0 then None
         else data_for ord src p body now True (fresh_in_msg total_len ps (min (unscheduled_bytes (rc_cfg rc)) total_len) now)
                (rc\<lparr>rc_starve_queue := (now + starve_threshold (rc_cfg rc), key) # rc_starve_queue rc\<rparr>, acts)
     | Some m \<Rightarrow> if total_len \<noteq> 0 \<and> ps = 0 then None else data_for ord src p body now False m (rc, acts))"

section \<open>Ticks\<close>

text \<open>Nothing is missing in the granted window, but the GRANT may be lost: grant again.\<close>

definition regrant_stalled :: "nat \<Rightarrow> msg_key \<Rightarrow> in_msg \<Rightarrow> rc_state \<Rightarrow> rc_state" where
  "regrant_stalled now key m = (\<lambda>(rc, acts).
     if now - im_last_progress m \<ge> grant_timeout (rc_cfg rc) then
       let rc1 = rc_put rc key (m\<lparr>im_last_progress := now\<rparr>) in
       if key \<in> set (rc_granting rc1) then issue_grant now True key (rc1, acts) else (rc1, acts)
     else (rc, acts))"

definition rc_tick_one :: "nat \<Rightarrow> msg_key \<Rightarrow> rc_state \<Rightarrow> rc_state" where
  "rc_tick_one now key = (\<lambda>(rc, acts).
     case hm_get (rc_incoming rc) key of
       None \<Rightarrow> (rc, acts)
     | Some m \<Rightarrow>
         if now - im_last_progress m < resend_timeout (rc_cfg rc) then (rc, acts)
         else case first_missing_offset m (packet_size (rc_cfg rc)) of
           Some off \<Rightarrow>
             if off < im_granted_to m then
               let span = min (im_granted_to m - off) (grant_increment (rc_cfg rc));
                   m1 = m\<lparr>im_last_progress := now, im_unanswered_resends := im_unanswered_resends m + 1\<rparr>;
                   acts1 = acts @ [Send (fst key) (control_packet Resend (priority_for_len (im_total_len m)) (snd key) off span)]
               in if im_unanswered_resends m1 > MAX_UNANSWERED_RESENDS
                  then (rc\<lparr>rc_incoming := hm_remove key (rc_incoming rc),
                          rc_granting := filter (\<lambda>k. k \<noteq> key) (rc_granting rc)\<rparr>, acts1)
                  else (rc_put rc key m1, acts1)
             else regrant_stalled now key m (rc, acts)
         | None \<Rightarrow> regrant_stalled now key m (rc, acts))"

definition rc_tick :: "rc_order \<Rightarrow> nat \<Rightarrow> rc_state \<Rightarrow> rc_state option" where
  "rc_tick ord now s = schedule ord now (fold (rc_tick_one now) (map fst (ro_iter ord (rc_incoming (fst s)))) s)"

definition in_flight :: "receiver_core \<Rightarrow> nat" where
  "in_flight rc = length (rc_incoming rc)"

end
