(* ===== verification/Homa_Reassembly.thy ===== *)
theory Homa_Reassembly
  imports Homa_Receiver
begin

text \<open>
  Correctness of reassembly: what the receiver keeps of a predicate on its messages, the reassembly
  of chunks into the message, and the delivery of every message once and unchanged.
\<close>

section \<open>Predicates on incoming messages\<close>

text \<open>
  Grants, resend requests and rescues change the grant, the time stamps and the resend counter of a
  message. A predicate that is stable under those changes is kept by every operation that is
  not the arrival of data.
\<close>

definition rc_inv :: "transport_config \<Rightarrow> (msg_key \<Rightarrow> in_msg \<Rightarrow> bool) \<Rightarrow> receiver_core \<Rightarrow> bool" where
  "rc_inv cfg P rc \<longleftrightarrow> rc_cfg rc = cfg \<and> hm_wf (rc_incoming rc) \<and> length (rc_incoming rc) \<le> max_incoming cfg \<and>
     (\<forall>key m. hm_get (rc_incoming rc) key = Some m \<longrightarrow> P key m)"

definition done_inv :: "receiver_core \<Rightarrow> bool" where
  "done_inv rc \<longleftrightarrow> distinct (rc_completed_order rc) \<and> set (rc_completed rc) = set (rc_completed_order rc) \<and>
     length (rc_completed_order rc) \<le> COMPLETED_CACHE \<and>
     (\<forall>key \<in> set (rc_completed_order rc). hm_get (rc_incoming rc) key = None)"

fun delivered :: "tp_action list \<Rightarrow> (msg_key \<times> bytes) list" where
  "delivered [] = []"
| "delivered (Deliver src mid data # acts) = ((src, mid), data) # delivered acts"
| "delivered (Send dest b # acts) = delivered acts"

lemma delivered_append [simp]: "delivered (xs @ ys) = delivered xs @ delivered ys"
  by (induction xs rule: delivered.induct) auto

text \<open>A step that delivers nothing, forgets no delivery and starts no message.\<close>

definition quiet :: "rc_state \<Rightarrow> rc_state \<Rightarrow> bool" where
  "quiet s s' \<longleftrightarrow> delivered (snd s') = delivered (snd s) \<and> rc_completed (fst s') = rc_completed (fst s) \<and>
     rc_completed_order (fst s') = rc_completed_order (fst s) \<and>
     (\<forall>key. hm_get (rc_incoming (fst s)) key = None \<longrightarrow> hm_get (rc_incoming (fst s')) key = None)"

lemma quiet_refl: "quiet s s"
  by (simp add: quiet_def)

lemma quiet_trans: "quiet s s1 \<Longrightarrow> quiet s1 s2 \<Longrightarrow> quiet s s2"
  by (auto simp: quiet_def)

lemma quiet_done: "quiet s s' \<Longrightarrow> done_inv (fst s) \<Longrightarrow> done_inv (fst s')"
  by (auto simp: quiet_def done_inv_def)

lemma rc_inv_put:
  "rc_inv cfg P rc \<Longrightarrow> hm_get (rc_incoming rc) key \<noteq> None \<or> length (rc_incoming rc) < max_incoming cfg \<Longrightarrow> P key m \<Longrightarrow>
   rc_inv cfg P (rc_put rc key m)"
  by (cases "hm_get (rc_incoming rc) key")
    (auto simp: rc_inv_def rc_put_def length_hm_insert_new length_hm_insert_old)

lemma rc_inv_remove:
  "rc_inv cfg P rc \<Longrightarrow> rc_inv cfg P (rc\<lparr>rc_incoming := hm_remove key (rc_incoming rc)\<rparr>)"
  by (auto simp: rc_inv_def length_hm_remove)

lemma rc_inv_frame [simp]:
  "rc_inv cfg P (rc\<lparr>rc_granting := g\<rparr>) = rc_inv cfg P rc"
  "rc_inv cfg P (rc\<lparr>rc_starve_queue := q\<rparr>) = rc_inv cfg P rc"
  "rc_inv cfg P (rc\<lparr>rc_completed := c\<rparr>) = rc_inv cfg P rc"
  "rc_inv cfg P (rc\<lparr>rc_completed_order := c\<rparr>) = rc_inv cfg P rc"
  by (simp_all add: rc_inv_def)

lemma rc_invD: "rc_inv cfg P rc \<Longrightarrow> hm_get (rc_incoming rc) key = Some m \<Longrightarrow> P key m"
  unfolding rc_inv_def by blast

text \<open>A step that keeps every message and the chunks it holds.\<close>

definition keeps :: "rc_state \<Rightarrow> rc_state \<Rightarrow> bool" where
  "keeps s s' \<longleftrightarrow> (\<forall>key m. hm_get (rc_incoming (fst s)) key = Some m \<longrightarrow>
     (\<exists>m'. hm_get (rc_incoming (fst s')) key = Some m' \<and> im_received m' = im_received m))"

lemma keeps_refl: "keeps s s"
  by (simp add: keeps_def)

lemma keeps_trans: "keeps s s1 \<Longrightarrow> keeps s1 s2 \<Longrightarrow> keeps s s2"
  unfolding keeps_def by metis

lemma issue_grant_keeps: "keeps s (issue_grant now force key s)"
  by (cases s) (auto simp: keeps_def issue_grant_def Let_def split: option.split)

lemma schedule_keeps: "schedule ord now s = Some s' \<Longrightarrow> keeps s s'"
proof -
  have grants: "keeps s (fold (issue_grant now False) keys s)" for keys s
  proof (induction keys arbitrary: s)
    case (Cons key keys)
    from keeps_trans [OF issue_grant_keeps Cons.IH] show ?case by simp
  qed (simp add: keeps_refl)
  assume "schedule ord now s = Some s'"
  then obtain sel where s': "s' = fold (issue_grant now False) sel ((fst s)\<lparr>rc_granting := sel\<rparr>, snd s)"
    by (cases s) (auto simp: schedule_def bind_eq_Some_conv Let_def)
  have "keeps s ((fst s)\<lparr>rc_granting := sel\<rparr>, snd s)" by (simp add: keeps_def)
  from keeps_trans [OF this grants] s' show ?thesis by simp
qed

lemma starve_loop_keeps: "starve_loop ord now n s = Some s' \<Longrightarrow> keeps s s'"
proof (induction n arbitrary: s)
  case 0
  then show ?case by (simp add: keeps_refl)
next
  case (Suc n)
  obtain rc acts where s: "s = (rc, acts)" by (cases s)
  obtain t k where tk: "ro_top ord (rc_starve_queue rc) = (t, k)" by (metis surj_pair)
  let ?rc = "rc\<lparr>rc_starve_queue := remove1 (t, k) (rc_starve_queue rc)\<rparr>"
  have "keeps s (?rc, acts)" using s by (simp add: keeps_def)
  moreover have "s' = s \<or> schedule ord now (?rc, acts) = Some s' \<or> starve_loop ord now n (?rc, acts) = Some s'"
    using Suc.prems s tk by (auto simp: Let_def split: if_splits)
  ultimately show ?case
    using Suc.IH [of "(?rc, acts)"] schedule_keeps [of ord now "(?rc, acts)" s'] keeps_refl keeps_trans by blast
qed

lemma starve_check_keeps: "starve_check ord now s = Some s' \<Longrightarrow> keeps s s'"
  unfolding starve_check_def by (rule starve_loop_keeps)

text \<open>The iteration order visits exactly the entries of the table.\<close>

definition order_ok :: "rc_order \<Rightarrow> bool" where
  "order_ok ord \<longleftrightarrow> (\<forall>ms. set (ro_iter ord ms) = set ms)"

locale msg_predicate =
  fixes cfg :: transport_config and P :: "msg_key \<Rightarrow> in_msg \<Rightarrow> bool"
  assumes grant: "P key m \<Longrightarrow> im_granted_to m \<le> g \<Longrightarrow> g \<le> max (im_granted_to m) (im_total_len m) \<Longrightarrow>
      P key (m\<lparr>im_granted_to := g, im_last_grant := t\<rparr>)"
    and progress: "P key m \<Longrightarrow> P key (m\<lparr>im_last_progress := t, im_unanswered_resends := u\<rparr>)"
begin

lemma issue_grant_inv:
  assumes "rc_inv cfg P (fst s)"
  shows "rc_inv cfg P (fst (issue_grant now force key s)) \<and> quiet s (issue_grant now force key s)"
proof -
  obtain rc acts where s: "s = (rc, acts)" by (cases s)
  show ?thesis
  proof (cases "hm_get (rc_incoming rc) key")
    case None
    with s assms show ?thesis by (simp add: issue_grant_def quiet_refl)
  next
    case (Some m)
    let ?m = "m\<lparr>im_granted_to := max (min (im_received_bytes m + grant_increment (rc_cfg rc)) (im_total_len m)) (im_granted_to m),
      im_last_grant := now\<rparr>"
    have "P key ?m" using rc_invD [OF assms, of key m] Some s by (intro grant) auto
    then have "rc_inv cfg P (rc_put rc key ?m)" using assms s Some by (intro rc_inv_put) auto
    then have "rc_inv cfg P ((rc_put rc key ?m)\<lparr>rc_starve_queue := q\<rparr>)" for q by (simp only: rc_inv_frame)
    then have "rc_inv cfg P (rc\<lparr>rc_incoming := hm_insert key ?m (rc_incoming rc), rc_starve_queue := q\<rparr>)" for q
      by (simp add: rc_put_def)
    with assms s Some show ?thesis by (simp add: issue_grant_def Let_def quiet_def)
  qed
qed

lemma issue_grants_inv:
  assumes "rc_inv cfg P (fst s)"
  shows "rc_inv cfg P (fst (fold (issue_grant now force) keys s)) \<and> quiet s (fold (issue_grant now force) keys s)"
  using assms
proof (induction keys arbitrary: s)
  case Nil
  then show ?case by (simp add: quiet_refl)
next
  case (Cons key keys)
  from issue_grant_inv [OF Cons.prems, of now force key] Cons.IH [of "issue_grant now force key s"] show ?case
    by (auto intro: quiet_trans)
qed

lemma schedule_inv:
  assumes "rc_inv cfg P (fst s)" "schedule ord now s = Some s'"
  shows "rc_inv cfg P (fst s') \<and> quiet s s'"
proof -
  from assms(2) obtain sel where s': "s' = fold (issue_grant now False) sel ((fst s)\<lparr>rc_granting := sel\<rparr>, snd s)"
    by (cases s) (auto simp: schedule_def bind_eq_Some_conv Let_def)
  have "quiet s ((fst s)\<lparr>rc_granting := sel\<rparr>, snd s)" by (simp add: quiet_def)
  with issue_grants_inv [of "((fst s)\<lparr>rc_granting := sel\<rparr>, snd s)" now False sel] assms(1) s' show ?thesis
    by (auto intro: quiet_trans)
qed

lemma starve_loop_inv:
  "rc_inv cfg P (fst s) \<Longrightarrow> starve_loop ord now n s = Some s' \<Longrightarrow> rc_inv cfg P (fst s') \<and> quiet s s'"
proof (induction ord now n s rule: starve_loop.induct)
  case (1 ord now s)
  then show ?case by (simp add: quiet_refl)
next
  case (2 ord now n rc acts)
  obtain t k where tk: "ro_top ord (rc_starve_queue rc) = (t, k)" by (metis surj_pair)
  let ?rc = "rc\<lparr>rc_starve_queue := remove1 (t, k) (rc_starve_queue rc)\<rparr>"
  let ?starved = "case hm_get (rc_incoming ?rc) k of None \<Rightarrow> False
    | Some m \<Rightarrow> k \<notin> set (rc_granting ?rc) \<and> im_granted_to m < im_total_len m \<and> now - im_last_grant m \<ge> starve_threshold (rc_cfg ?rc)"
  have q: "quiet (rc, acts) (?rc, acts)" by (simp add: quiet_def)
  have inv: "rc_inv cfg P (fst (?rc, acts))" using "2.prems"(1) by simp
  consider "rc_starve_queue rc = [] \<or> now < t"
    | "rc_starve_queue rc \<noteq> []" "\<not> now < t" ?starved | "rc_starve_queue rc \<noteq> []" "\<not> now < t" "\<not> ?starved" by blast
  then show ?case
  proof cases
    case 1
    then have "s' = (rc, acts)" using "2.prems"(2) tk by (auto split: if_splits)
    then show ?thesis using "2.prems"(1) by (simp add: quiet_refl)
  next
    case 2
    then have "schedule ord now (?rc, acts) = Some s'" using "2.prems"(2) tk by (simp add: Let_def)
    from schedule_inv [OF inv this] q show ?thesis by (auto intro: quiet_trans)
  next
    case 3
    then have "starve_loop ord now n (?rc, acts) = Some s'" using "2.prems"(2) tk by (simp add: Let_def)
    from "2.IH" [OF 3(1) tk [symmetric] 3(2) refl refl 3(3) inv this] q show ?thesis by (auto intro: quiet_trans)
  qed
qed

lemma starve_check_inv: "rc_inv cfg P (fst s) \<Longrightarrow> starve_check ord now s = Some s' \<Longrightarrow> rc_inv cfg P (fst s') \<and> quiet s s'"
  unfolding starve_check_def by (rule starve_loop_inv)

lemma regrant_stalled_inv:
  assumes "rc_inv cfg P (fst s)" "hm_get (rc_incoming (fst s)) key = Some m"
  shows "rc_inv cfg P (fst (regrant_stalled now key m s)) \<and> quiet s (regrant_stalled now key m s)"
proof -
  obtain rc acts where s: "s = (rc, acts)" by (cases s)
  let ?rc = "rc_put rc key (m\<lparr>im_last_progress := now\<rparr>)"
  have "P key (m\<lparr>im_last_progress := now, im_unanswered_resends := im_unanswered_resends m\<rparr>)"
    using rc_invD [OF assms] by (rule progress)
  then have "P key (m\<lparr>im_last_progress := now\<rparr>)" by simp
  then have inv: "rc_inv cfg P (fst (?rc, acts))" using assms s by (auto intro: rc_inv_put)
  have q: "quiet s (?rc, acts)" using s assms(2) by (auto simp: quiet_def rc_put_def)
  from issue_grant_inv [OF inv, of now True key] inv q assms(1) s show ?thesis
    by (auto simp: regrant_stalled_def Let_def quiet_refl intro: quiet_trans)
qed

lemma tick_one_inv:
  assumes "rc_inv cfg P (fst s)"
  shows "rc_inv cfg P (fst (rc_tick_one now key s)) \<and> quiet s (rc_tick_one now key s)"
proof -
  obtain rc acts where s: "s = (rc, acts)" by (cases s)
  show ?thesis
  proof (cases "hm_get (rc_incoming rc) key")
    case None
    with s assms show ?thesis by (simp add: rc_tick_one_def quiet_refl)
  next
    case (Some m)
    let ?m = "m\<lparr>im_last_progress := now, im_unanswered_resends := im_unanswered_resends m + 1\<rparr>"
    have "P key ?m" using rc_invD [of cfg P rc key m] assms s Some by (intro progress) auto
    then have put: "rc_inv cfg P (rc_put rc key ?m)" using assms s Some by (intro rc_inv_put) auto
    have del: "rc_inv cfg P (rc\<lparr>rc_incoming := hm_remove key (rc_incoming rc), rc_granting := g\<rparr>)" for g
      using rc_inv_remove [of cfg P rc key] assms s by (simp add: rc_inv_def)
    have q: "quiet s (rc_put rc key ?m, acts @ [Send d b])"
      "quiet s (rc\<lparr>rc_incoming := hm_remove key (rc_incoming rc), rc_granting := g\<rparr>, acts @ [Send d b])" for d b g
      using s Some by (auto simp: quiet_def rc_put_def)
    show ?thesis
      using put del q assms s Some regrant_stalled_inv [OF assms, of key m now]
      by (auto simp: rc_tick_one_def Let_def quiet_refl split: option.split)
  qed
qed

lemma tick_inv:
  assumes "rc_inv cfg P (fst s)" "rc_tick ord now s = Some s'"
  shows "rc_inv cfg P (fst s') \<and> quiet s s'"
proof -
  have fold: "rc_inv cfg P (fst (fold (rc_tick_one now) keys s)) \<and> quiet s (fold (rc_tick_one now) keys s)" for keys
    using assms(1)
  proof (induction keys arbitrary: s)
    case Nil
    then show ?case by (simp add: quiet_refl)
  next
    case (Cons key keys)
    from tick_one_inv [OF Cons.prems, of now key] Cons.IH [of "rc_tick_one now key s"] show ?case
      by (auto intro: quiet_trans)
  qed
  from assms(2) obtain s1 where "s1 = fold (rc_tick_one now) (map fst (ro_iter ord (rc_incoming (fst s)))) s"
    "schedule ord now s1 = Some s'" by (simp add: rc_tick_def)
  with fold [of "map fst (ro_iter ord (rc_incoming (fst s)))"] schedule_inv [of s1 ord now s'] show ?thesis
    by (auto intro: quiet_trans)
qed

end

text \<open>When no message counts more bytes than it has, none of these operations panics.\<close>

locale sound_predicate = msg_predicate +
  assumes sound: "P key m \<Longrightarrow> im_received_bytes m \<le> im_total_len m"
begin

lemma remaining_of_total:
  "\<forall>(key, m) \<in> set ms. im_received_bytes m \<le> im_total_len m \<Longrightarrow> \<exists>xs. remaining_of ms = Some xs"
  by (induction ms) (auto simp: im_remaining_def)

lemma schedule_total:
  assumes "rc_inv cfg P (fst s)" "order_ok ord"
  shows "\<exists>s'. schedule ord now s = Some s'"
proof -
  obtain rc acts where s: "s = (rc, acts)" by (cases s)
  have "hm_wf (rc_incoming rc)" using assms s by (simp add: rc_inv_def)
  then have "\<forall>(key, m) \<in> set (ro_iter ord (rc_incoming rc)). P key m"
    using assms s hm_get_mem by (fastforce simp: order_ok_def dest: rc_invD)
  then have "\<forall>(key, m) \<in> set (filter (\<lambda>(key, m). wants_grant m) (ro_iter ord (rc_incoming rc))). im_received_bytes m \<le> im_total_len m"
    using sound by auto
  from remaining_of_total [OF this] s show ?thesis by (auto simp: schedule_def Let_def)
qed

lemma starve_loop_total:
  "rc_inv cfg P (fst s) \<Longrightarrow> order_ok ord \<Longrightarrow> \<exists>s'. starve_loop ord now n s = Some s'"
proof (induction n arbitrary: s)
  case (Suc n)
  obtain rc acts where s: "s = (rc, acts)" by (cases s)
  obtain t k where tk: "ro_top ord (rc_starve_queue rc) = (t, k)" by (metis surj_pair)
  let ?rc = "rc\<lparr>rc_starve_queue := remove1 (t, k) (rc_starve_queue rc)\<rparr>"
  have "rc_inv cfg P (fst (?rc, acts))" using Suc.prems(1) s by simp
  with Suc.IH [of "(?rc, acts)"] schedule_total [of "(?rc, acts)" ord now] Suc.prems(2) s tk show ?case
    by (simp add: Let_def)
qed simp

lemma tick_total:
  assumes "rc_inv cfg P (fst s)" "order_ok ord"
  shows "\<exists>s'. rc_tick ord now s = Some s'"
proof -
  have "rc_inv cfg P (fst (fold (rc_tick_one now) keys s))" for keys
    using assms(1) tick_one_inv by (induction keys arbitrary: s) auto
  from schedule_total [OF this assms(2)] show ?thesis by (simp add: rc_tick_def)
qed

end

section \<open>Chunks\<close>

text \<open>The sizes of the chunks of a message add up to the message.\<close>

lemma sum_chunk_sizes: "(\<Sum>i<j. min ps (n - i * ps)) = min (j * ps) n" for n ps :: nat
  by (induction j) auto

lemma div_ceil_mult: "0 < ps \<Longrightarrow> n \<le> div_ceil n ps * ps"
proof -
  assume "0 < ps"
  then show ?thesis
    using div_mult_mod_eq [of "n + ps - 1" ps] mod_less_divisor [of ps "n + ps - 1"] by linarith
qed

lemma chunk_index: "0 < ps \<Longrightarrow> k < n \<Longrightarrow> k div ps < div_ceil n ps"
  by (rule div_ceil_gt)

lemma chunk_start: "0 < ps \<Longrightarrow> i < div_ceil n ps \<Longrightarrow> i * ps < n"
proof -
  assume "0 < ps" "i < div_ceil n ps"
  then have "(i + 1) * ps \<le> n + ps - 1" by (metis Suc_eq_plus1 Suc_leI less_eq_div_iff_mult_less_eq)
  with \<open>0 < ps\<close> show ?thesis by (simp add: add_mult_distrib)
qed

lemma chunk_count: "0 < ps \<Longrightarrow> i * ps < n \<Longrightarrow> i < div_ceil n ps"
  using div_ceil_gt [of ps "i * ps" n] by simp

definition have_chunks :: "bool list \<Rightarrow> nat set" where
  "have_chunks rs = {i. i < length rs \<and> rs ! i}"

lemma have_chunks_set: "i < length rs \<Longrightarrow> have_chunks (rs[i := True]) = insert i (have_chunks rs)"
  by (auto simp: have_chunks_def nth_list_update)

lemma have_chunks_replicate [simp]: "have_chunks (replicate n False) = {}"
  by (auto simp: have_chunks_def)

lemma finite_have_chunks [simp]: "finite (have_chunks rs)"
  by (simp add: have_chunks_def)

lemma have_chunks_sub: "have_chunks rs \<subseteq> {..<length rs}"
  by (auto simp: have_chunks_def)

text \<open>
  A message under reassembly holds the right bytes wherever it holds a chunk, counts exactly the
  bytes it holds, and lacks at least one chunk.
\<close>

definition reassembling :: "nat \<Rightarrow> bytes \<Rightarrow> in_msg \<Rightarrow> bool" where
  "reassembling ps data m \<longleftrightarrow> im_total_len m = length data \<and> length (im_buf m) = length data \<and>
     length (im_received m) = div_ceil (length data) ps \<and> im_granted_to m \<le> length data \<and>
     (\<forall>k < length data. im_received m ! (k div ps) \<longrightarrow> im_buf m ! k = data ! k) \<and>
     im_received_bytes m = (\<Sum>i\<in>have_chunks (im_received m). min ps (length data - i * ps))"

definition lacks_chunk :: "in_msg \<Rightarrow> bool" where
  "lacks_chunk m \<longleftrightarrow> False \<in> set (im_received m)"

definition chunk_body :: "nat \<Rightarrow> bytes \<Rightarrow> nat \<Rightarrow> bytes" where
  "chunk_body ps data i = take ps (drop (i * ps) data)"

lemma length_chunk_body [simp]: "length (chunk_body ps data i) = min ps (length data - i * ps)"
  by (simp add: chunk_body_def min.commute)

lemma copy_at_nth:
  "a + length body \<le> length buf \<Longrightarrow> k < length buf \<Longrightarrow>
   (take a buf @ body @ drop (a + length body) buf) ! k = (if a \<le> k \<and> k < a + length body then body ! (k - a) else buf ! k)"
  by (auto simp: nth_append)

lemma received_all:
  assumes ps: "0 < ps" and re: "reassembling ps data m"
  shows "im_received_bytes m \<le> im_total_len m" and "im_complete m \<longleftrightarrow> \<not> lacks_chunk m"
    and "im_complete m \<Longrightarrow> im_buf m = data"
proof -
  let ?n = "length data" and ?f = "\<lambda>i. min ps (length data - i * ps)"
  let ?all = "{..<length (im_received m)}" and ?have = "have_chunks (im_received m)"
  have all: "sum ?f ?all = ?n"
    using re sum_chunk_sizes [of ps ?n "div_ceil ?n ps"] div_ceil_mult [OF ps, of ?n] by (simp add: reassembling_def min_absorb2)
  have le: "sum ?f ?have \<le> sum ?f ?all" using have_chunks_sub by (intro sum_mono2) auto
  with re all show "im_received_bytes m \<le> im_total_len m" by (simp add: reassembling_def)
  have pos: "0 < ?f i" if "i \<in> ?all" for i
    using chunk_start [OF ps, of i ?n] that re ps by (simp add: reassembling_def)
  have "sum ?f ?have = sum ?f ?all \<longleftrightarrow> ?have = ?all"
  proof
    assume eq: "sum ?f ?have = sum ?f ?all"
    show "?have = ?all"
    proof (rule ccontr)
      assume "?have \<noteq> ?all"
      then obtain i where i: "i \<in> ?all" "i \<notin> ?have" using have_chunks_sub by blast
      have "sum ?f (insert i ?have) \<le> sum ?f ?all" using i have_chunks_sub by (intro sum_mono2) auto
      moreover have "sum ?f (insert i ?have) = ?f i + sum ?f ?have" using i by simp
      ultimately show False using eq pos [OF i(1)] by linarith
    qed
  qed simp
  then have eq: "im_complete m \<longleftrightarrow> ?have = ?all" using re all by (simp add: im_complete_def reassembling_def)
  also have "\<dots> \<longleftrightarrow> \<not> lacks_chunk m" by (auto simp: lacks_chunk_def have_chunks_def in_set_conv_nth)
  finally show "im_complete m \<longleftrightarrow> \<not> lacks_chunk m" .
  assume "im_complete m"
  with eq have "\<forall>i < length (im_received m). im_received m ! i" by (auto simp: have_chunks_def)
  then show "im_buf m = data" using re chunk_index [OF ps] by (intro nth_equalityI) (auto simp: reassembling_def)
qed

lemma accept_chunk_ok:
  assumes ps: "0 < ps" and re: "reassembling ps data m" and i: "i * ps < length data"
  shows "\<exists>m'. accept_chunk ps (length data) (i * ps) (chunk_body ps data i) now m = Some m' \<and> reassembling ps data m' \<and>
    im_received m' = (im_received m)[i := True]"
proof -
  let ?n = "length data" and ?b = "chunk_body ps data i"
  have idx: "i < length (im_received m)" using chunk_count [OF ps i] re by (simp add: reassembling_def)
  have fit: "i * ps + length ?b \<le> length (im_buf m)" "i * ps + length ?b \<le> ?n" using i re by (auto simp: reassembling_def)
  show ?thesis
  proof (cases "im_received m ! i")
    case True
    then have "accept_chunk ps ?n (i * ps) ?b now m = Some m" using ps by (simp add: accept_chunk_def)
    moreover have "(im_received m)[i := True] = im_received m" using True idx by (simp add: list_update_same_conv)
    ultimately show ?thesis using re by simp
  next
    case False
    let ?buf = "take (i * ps) (im_buf m) @ ?b @ drop (i * ps + length ?b) (im_buf m)"
    let ?m = "m\<lparr>im_buf := ?buf, im_received := (im_received m)[i := True],
      im_received_bytes := im_received_bytes m + length ?b, im_last_progress := now, im_unanswered_resends := 0\<rparr>"
    have acc: "accept_chunk ps ?n (i * ps) ?b now m = Some ?m"
      using ps idx False fit by (simp add: accept_chunk_def copy_at_def del: length_chunk_body)
    have buf: "?buf ! k = (if i * ps \<le> k \<and> k < i * ps + length ?b then ?b ! (k - i * ps) else im_buf m ! k)" if "k < ?n" for k
      using that re fit(1) by (intro copy_at_nth) (auto simp: reassembling_def)
    have bytes: "?buf ! k = data ! k" if k: "k < ?n" "(im_received m)[i := True] ! (k div ps)" for k
    proof (cases "k div ps = i")
      case True
      then have "i * ps \<le> k" "k < i * ps + ps" using div_mult_mod_eq [of k ps] mod_less_divisor [OF ps, of k] unfolding True by linarith+
      moreover from this k(1) have "k - i * ps < length ?b" by auto
      then have "k < i * ps + length ?b" by linarith
      ultimately show ?thesis using k(1) buf [OF k(1)] by (simp add: chunk_body_def)
    next
      case other: False
      have "\<not> (i * ps \<le> k \<and> k < i * ps + length ?b)"
      proof
        assume "i * ps \<le> k \<and> k < i * ps + length ?b"
        then have "ps * i \<le> k" "k < ps * Suc i" by (auto simp: algebra_simps)
        with other show False using div_nat_eqI by blast
      qed
      then have "?buf ! k = im_buf m ! k" using buf [OF k(1)] by (simp only: if_False)
      with k other re show ?thesis by (simp add: reassembling_def)
    qed
    have "have_chunks ((im_received m)[i := True]) = insert i (have_chunks (im_received m))" "i \<notin> have_chunks (im_received m)"
      using idx False by (simp_all add: have_chunks_set) (simp add: have_chunks_def)
    then have "reassembling ps data ?m" using re fit bytes by (simp add: reassembling_def)
    with acc show ?thesis by simp
  qed
qed

lemma fresh_reassembling:
  assumes "0 < ps" "data \<noteq> []"
  shows "reassembling ps data (fresh_in_msg (length data) ps (min u (length data)) now)"
proof -
  have "0 < div_ceil (length data) ps" using chunk_count [of ps 0 "length data"] assms by simp
  then have "max (div_ceil (length data) ps) 1 = div_ceil (length data) ps" by simp
  with chunk_index [OF assms(1)] show ?thesis by (simp add: reassembling_def fresh_in_msg_def)
qed

section \<open>Arrivals\<close>

text \<open>
  \<open>content\<close> says what every sender is sending. A packet that carries a chunk of that message is what
  the sender emits while it is aligned.
\<close>

definition carries_chunk :: "nat \<Rightarrow> (msg_key \<Rightarrow> bytes option) \<Rightarrow> sock_addr \<Rightarrow> packet \<Rightarrow> bytes \<Rightarrow> nat \<Rightarrow> bool" where
  "carries_chunk ps content src p body i \<longleftrightarrow>
     (\<exists>data. content (src, msg_id p) = Some data \<and> unat (msg_len p) = length data \<and> length data \<le> MAX_MSG_LEN \<and>
        unat (offset p) = i * ps \<and> body = chunk_body ps data i \<and> (i * ps < length data \<or> data = [] \<and> i = 0))"

definition on_track :: "nat \<Rightarrow> (msg_key \<Rightarrow> bytes option) \<Rightarrow> msg_key \<Rightarrow> in_msg \<Rightarrow> bool" where
  "on_track ps content key m \<longleftrightarrow> (\<exists>data. content key = Some data \<and> reassembling ps data m \<and> lacks_chunk m)"

interpretation track: sound_predicate cfg "\<lambda>key m. 0 < packet_size cfg \<and> on_track (packet_size cfg) content key m" for cfg content
proof
  fix key m g t u
  assume P: "0 < packet_size cfg \<and> on_track (packet_size cfg) content key m"
  show "im_received_bytes m \<le> im_total_len m" using P received_all(1) by (auto simp: on_track_def)
  show "0 < packet_size cfg \<and> on_track (packet_size cfg) content key (m\<lparr>im_last_progress := t, im_unanswered_resends := u\<rparr>)"
    using P by (auto simp: on_track_def reassembling_def lacks_chunk_def)
  assume "im_granted_to m \<le> g" "g \<le> max (im_granted_to m) (im_total_len m)"
  then show "0 < packet_size cfg \<and> on_track (packet_size cfg) content key (m\<lparr>im_granted_to := g, im_last_grant := t\<rparr>)"
    using P by (auto simp: on_track_def reassembling_def lacks_chunk_def)
qed

text \<open>The receiver's invariant for the senders' content, and what was delivered so far.\<close>

definition rc_ok :: "transport_config \<Rightarrow> (msg_key \<Rightarrow> bytes option) \<Rightarrow> rc_state \<Rightarrow> bool" where
  "rc_ok cfg content s \<longleftrightarrow>
     rc_inv cfg (\<lambda>key m. 0 < packet_size cfg \<and> on_track (packet_size cfg) content key m) (fst s) \<and> done_inv (fst s) \<and>
     (\<forall>(key, data) \<in> set (delivered (snd s)). content key = Some data) \<and>
     rc_completed_order (fst s) = take_last COMPLETED_CACHE (map fst (delivered (snd s)))"

lemma rc_ok_quiet:
  assumes "rc_ok cfg content s" "quiet s s'"
    "rc_inv cfg (\<lambda>key m. 0 < packet_size cfg \<and> on_track (packet_size cfg) content key m) (fst s')"
  shows "rc_ok cfg content s'"
  using assms quiet_done [OF assms(2)] by (auto simp: rc_ok_def quiet_def)

lemma rc_ok_starve: "rc_ok cfg content (rc\<lparr>rc_starve_queue := q\<rparr>, acts) = rc_ok cfg content (rc, acts)"
  by (simp add: rc_ok_def done_inv_def)

lemma list_update_True: "j < length xs \<Longrightarrow> xs ! j \<Longrightarrow> xs[i := True] ! j"
  by (cases "i = j") simp_all

lemma deliver_ok:
  assumes ok: "rc_ok cfg content (rc, acts)" and new: "key \<notin> set (rc_completed rc)" and data: "content key = Some data"
    and rc': "rc_cfg rc' = rc_cfg rc" "hm_wf (rc_incoming rc')" "length (hm_remove key (rc_incoming rc')) \<le> length (rc_incoming rc)"
      "rc_completed rc' = rc_completed rc" "rc_completed_order rc' = rc_completed_order rc"
      "\<And>k. k \<noteq> key \<Longrightarrow> hm_get (rc_incoming rc') k = hm_get (rc_incoming rc) k"
  shows "rc_ok cfg content (deliver key (fst key) data (rc', acts))"
proof -
  let ?order = "rc_completed_order rc @ [key]"
  from ok have d: "done_inv rc" by (simp add: rc_ok_def)
  then have key: "key \<notin> set (rc_completed_order rc)" using new by (simp add: done_inv_def)
  with d have dist: "distinct ?order" and len: "length ?order \<le> Suc COMPLETED_CACHE" by (auto simp: done_inv_def)
  have inv: "rc_inv cfg (\<lambda>key m. 0 < packet_size cfg \<and> on_track (packet_size cfg) content key m)
      (rc'\<lparr>rc_incoming := hm_remove key (rc_incoming rc')\<rparr>)"
    using ok rc' unfolding rc_ok_def rc_inv_def by auto
  have order: "(if length ?order > COMPLETED_CACHE then tl ?order else ?order) = take_last COMPLETED_CACHE ?order"
    by (rule trim_front [OF len])
  define order' where "order' = take_last COMPLETED_CACHE ?order"
  define comp' where "comp' = (if length ?order > COMPLETED_CACHE then removeAll (hd ?order) (List.insert key (rc_completed rc))
      else List.insert key (rc_completed rc))"
  have del: "deliver key (fst key) data (rc', acts) =
      (rc'\<lparr>rc_incoming := hm_remove key (rc_incoming rc'), rc_granting := filter (\<lambda>k. k \<noteq> key) (rc_granting rc'),
        rc_completed := comp', rc_completed_order := order'\<rparr>, acts @ [Deliver (fst key) (snd key) data])"
    using order rc'(4,5) by (simp only: deliver_def Let_def order'_def comp'_def prod.case)
  have comp: "set comp' = set order'"
  proof -
    have "set (tl xs) = set xs - {hd xs}" if "distinct xs" "xs \<noteq> []" for xs :: "msg_key list"
      using that by (cases xs) auto
    from this [OF dist] d show ?thesis by (simp add: order [symmetric] done_inv_def order'_def comp'_def)
  qed
  have gone: "hm_get (hm_remove key (rc_incoming rc')) k = None" if "k \<in> set order'" for k
    using that set_take_last [of COMPLETED_CACHE ?order] rc'(6) [of k] d by (auto simp: order'_def done_inv_def)
  have dist': "distinct order'" "length order' \<le> COMPLETED_CACHE"
    using distinct_drop [OF dist] by (simp_all only: order'_def take_last_def length_drop)
  have "rc_completed_order rc = take_last COMPLETED_CACHE (map fst (delivered acts))" using ok by (simp add: rc_ok_def)
  then have "order' = take_last COMPLETED_CACHE (map fst (delivered (acts @ [Deliver (fst key) (snd key) data])))"
    by (simp add: order'_def take_last_snoc COMPLETED_CACHE_def)
  moreover have "done_inv (fst (deliver key (fst key) data (rc', acts)))"
    using comp gone dist' by (simp add: del done_inv_def)
  ultimately show ?thesis
    using inv ok data unfolding rc_ok_def del by (auto simp: rc_inv_def)
qed

abbreviation tracked :: "transport_config \<Rightarrow> (msg_key \<Rightarrow> bytes option) \<Rightarrow> receiver_core \<Rightarrow> bool" where
  "tracked cfg content \<equiv> rc_inv cfg (\<lambda>key m. 0 < packet_size cfg \<and> on_track (packet_size cfg) content key m)"

lemma rc_ok_tracked: "rc_ok cfg content s \<Longrightarrow> tracked cfg content (fst s)"
  by (simp add: rc_ok_def)

lemma schedule_ok:
  assumes "rc_ok cfg content s" "order_ok ord"
  shows "\<exists>s'. schedule ord now s = Some s' \<and> rc_ok cfg content s' \<and> quiet s s' \<and> keeps s s'"
  using track.schedule_total [OF rc_ok_tracked [OF assms(1)] assms(2), of now]
    track.schedule_inv [OF rc_ok_tracked [OF assms(1)], of ord now] rc_ok_quiet [OF assms(1)] schedule_keeps
  by metis

lemma starve_check_ok:
  assumes "rc_ok cfg content s" "order_ok ord"
  shows "\<exists>s'. starve_check ord now s = Some s' \<and> rc_ok cfg content s' \<and> quiet s s' \<and> keeps s s'"
  using track.starve_loop_total [OF rc_ok_tracked [OF assms(1)] assms(2), of now] starve_check_def [of ord now s]
    track.starve_check_inv [OF rc_ok_tracked [OF assms(1)], of ord now] rc_ok_quiet [OF assms(1)] starve_check_keeps
  by metis

lemma issue_grant_ok:
  "rc_ok cfg content s \<Longrightarrow> rc_ok cfg content (issue_grant now force key s) \<and> quiet s (issue_grant now force key s)"
  using track.issue_grant_inv [OF rc_ok_tracked] rc_ok_quiet by blast

lemma tick_ok:
  assumes "rc_ok cfg content s" "order_ok ord"
  shows "\<exists>s'. rc_tick ord now s = Some s' \<and> rc_ok cfg content s'"
proof -
  from track.tick_total [OF rc_ok_tracked [OF assms(1)] assms(2), of now] obtain s' where s': "rc_tick ord now s = Some s'" by blast
  from track.tick_inv [OF rc_ok_tracked [OF assms(1)] this] rc_ok_quiet [OF assms(1)] s' show ?thesis by blast
qed

text \<open>
  What a chunk does to the rest: nothing is forgotten. \<open>holds s key i\<close>: the message was delivered, or
  chunk \<open>i\<close> of it is held.
\<close>

definition holds :: "rc_state \<Rightarrow> msg_key \<Rightarrow> nat \<Rightarrow> bool" where
  "holds s key i \<longleftrightarrow> key \<in> fst ` set (delivered (snd s)) \<or>
     (\<exists>m. hm_get (rc_incoming (fst s)) key = Some m \<and> i < length (im_received m) \<and> im_received m ! i)"

lemma holds_quiet: "quiet s s' \<Longrightarrow> keeps s s' \<Longrightarrow> holds s key i \<Longrightarrow> holds s' key i"
  unfolding holds_def quiet_def keeps_def by (elim conjE disjE exE) (simp, metis)

text \<open>No message but that of the packet is started.\<close>

definition starts_only :: "msg_key \<Rightarrow> rc_state \<Rightarrow> rc_state \<Rightarrow> bool" where
  "starts_only key s s' \<longleftrightarrow>
     (\<forall>k. k \<noteq> key \<longrightarrow> hm_get (rc_incoming (fst s)) k = None \<longrightarrow> hm_get (rc_incoming (fst s')) k = None)"

definition advances :: "msg_key \<Rightarrow> rc_state \<Rightarrow> rc_state \<Rightarrow> bool" where
  "advances key s s' \<longleftrightarrow> starts_only key s s' \<and> (\<forall>k j. holds s k j \<longrightarrow> holds s' k j)"

lemma advances_quiet: "advances key s s1 \<Longrightarrow> quiet s1 s2 \<Longrightarrow> keeps s1 s2 \<Longrightarrow> advances key s s2"
  using holds_quiet [of s1 s2] unfolding advances_def starts_only_def quiet_def by blast

lemma advancesI:
  "starts_only key s s' \<Longrightarrow> (\<And>k j. holds s k j \<Longrightarrow> holds s' k j) \<Longrightarrow> advances key s s'"
  unfolding advances_def by blast

lemma deliver_fields:
  "snd (deliver key src data (rc, acts)) = acts @ [Deliver src (snd key) data]"
  "rc_incoming (fst (deliver key src data (rc, acts))) = hm_remove key (rc_incoming rc)"
  by (simp_all add: deliver_def Let_def)

lemma deliver_chunk_ok:
  assumes ok: "rc_ok cfg content (rc, acts)" and ord: "order_ok ord" and new: "key \<notin> set (rc_completed rc)"
    and data: "content key = Some data"
  shows "\<exists>s'. schedule ord now (deliver key (fst key) data (rc_put rc key m, acts)) = Some s' \<and> rc_ok cfg content s' \<and>
    holds s' key i \<and> advances key (rc, acts) s'"
proof -
  let ?s = "deliver key (fst key) data (rc_put rc key m, acts)"
  have "hm_wf (rc_incoming rc)" using rc_ok_tracked [OF ok] by (simp add: rc_inv_def)
  then have len: "length (hm_remove key (hm_insert key m (rc_incoming rc))) \<le> length (rc_incoming rc)"
    by (cases "hm_get (rc_incoming rc) key")
      (auto simp: length_hm_remove length_hm_insert_new length_hm_insert_old)
  have dok: "rc_ok cfg content ?s"
    using \<open>hm_wf (rc_incoming rc)\<close> len by (intro deliver_ok [OF ok new data]) (auto simp: rc_put_def)
  have h: "holds ?s key i" unfolding holds_def deliver_fields by simp
  have "holds ?s k j" if "holds (rc, acts) k j" for k j
    using that unfolding holds_def deliver_fields by (cases "k = key") (auto simp: rc_put_def)
  moreover have "starts_only key (rc, acts) ?s" unfolding starts_only_def deliver_fields by (simp add: rc_put_def)
  ultimately have a: "advances key (rc, acts) ?s" by (intro advancesI) auto
  from schedule_ok [OF dok ord, of now] obtain s' where
    s': "schedule ord now ?s = Some s'" "rc_ok cfg content s'" "quiet ?s s'" "keeps ?s s'" by blast
  from s'(1,2) holds_quiet [OF s'(3,4) h] advances_quiet [OF a s'(3,4)] show ?thesis by blast
qed

lemma put_chunk_ok:
  assumes ok: "rc_ok cfg content (rc, acts)" and new: "key \<notin> set (rc_completed rc)"
    and slot: "hm_get (rc_incoming rc) key \<noteq> None \<or> length (rc_incoming rc) < max_incoming cfg"
    and m: "0 < packet_size cfg" "on_track (packet_size cfg) content key m'"
  shows "rc_ok cfg content (rc_put rc key m', acts)"
proof -
  have "tracked cfg content (rc_put rc key m')" using rc_ok_tracked [OF ok] slot m by (intro rc_inv_put) auto
  moreover have "done_inv (rc_put rc key m')" using ok new by (auto simp: rc_ok_def done_inv_def rc_put_def)
  ultimately show ?thesis using ok by (simp add: rc_ok_def) (simp add: rc_put_def)
qed

lemma data_for_ok:
  assumes ok: "rc_ok cfg content (rc, acts)" and ps: "0 < packet_size cfg" and ord: "order_ok ord"
    and ch: "carries_chunk (packet_size cfg) content src p body i" and new: "(src, msg_id p) \<notin> set (rc_completed rc)"
    and slot: "hm_get (rc_incoming rc) (src, msg_id p) \<noteq> None \<or> length (rc_incoming rc) < max_incoming cfg"
    and m: "\<And>data. content (src, msg_id p) = Some data \<Longrightarrow> data \<noteq> [] \<Longrightarrow> reassembling (packet_size cfg) data m"
    and old: "hm_get (rc_incoming rc) (src, msg_id p) \<in> {None, Some m}"
  shows "\<exists>s'. data_for ord src p body now is_new m (rc, acts) = Some s' \<and> rc_ok cfg content s' \<and> holds s' (src, msg_id p) i \<and>
    advances (src, msg_id p) (rc, acts) s'"
proof -
  let ?ps = "packet_size cfg" and ?key = "(src, msg_id p)"
  from ch obtain data where d: "content ?key = Some data" "unat (msg_len p) = length data" "unat (offset p) = i * ?ps"
      "body = chunk_body ?ps data i" "i * ?ps < length data \<or> data = [] \<and> i = 0"
    by (auto simp: carries_chunk_def)
  have cfg: "rc_cfg rc = cfg" using rc_ok_tracked [OF ok] by (simp add: rc_inv_def)
  note del = deliver_chunk_ok [OF ok ord new d(1), of now _ i, simplified]
  show ?thesis
  proof (cases "data = []")
    case True
    with del d cfg show ?thesis by (simp add: data_for_def Let_def)
  next
    case False
    then have i: "i * ?ps < length data" using d(5) by simp
    note re = m [OF d(1) False]
    from accept_chunk_ok [OF ps re i, of now] obtain m1 where
      m1: "accept_chunk ?ps (length data) (i * ?ps) body now m = Some m1" "reassembling ?ps data m1"
        "im_received m1 = (im_received m)[i := True]"
      using d(4) by auto
    show ?thesis
    proof (cases "im_complete m1")
      case True
      from received_all(3) [OF ps m1(2) True] del [of m1] d cfg m1(1) True False show ?thesis
        by (simp add: data_for_def Let_def)
    next
      case inc: False
      let ?s = "(rc_put rc ?key m1, acts)"
      have tr: "on_track ?ps content ?key m1" using d(1) m1(2) inc received_all(2) [OF ps m1(2)] by (auto simp: on_track_def)
      note ok1 = put_chunk_ok [OF ok new slot ps tr]
      have idx: "i < length (im_received m1)" using chunk_count [OF ps i] m1(2) by (simp add: reassembling_def)
      then have hi: "holds ?s ?key i" using m1(3) by (auto simp: holds_def rc_put_def)
      have hold: "holds ?s k j" if "holds (rc, acts) k j" for k j
        using that old m1(3) by (cases "k = ?key") (auto simp: holds_def rc_put_def list_update_True)
      have "\<exists>s2. (if is_new then schedule ord now ?s
             else if ?key \<in> set (rc_granting rc) then Some (issue_grant now False ?key ?s) else Some ?s) = Some s2 \<and>
          rc_ok cfg content s2 \<and> quiet ?s s2 \<and> keeps ?s s2"
      proof (cases is_new)
        case True
        then show ?thesis using schedule_ok [OF ok1 ord, of now] by (simp only: if_True)
      next
        case False
        then show ?thesis using issue_grant_ok [OF ok1, of now False ?key] issue_grant_keeps [of ?s now False ?key]
            ok1 quiet_refl [of ?s] keeps_refl [of ?s] by (cases "?key \<in> set (rc_granting rc)") (simp_all only: if_False if_True, blast+)
      qed
      then obtain s2 where s2: "(if is_new then schedule ord now ?s
             else if ?key \<in> set (rc_granting rc) then Some (issue_grant now False ?key ?s) else Some ?s) = Some s2"
          "rc_ok cfg content s2" "quiet ?s s2" "keeps ?s s2" by blast
      from starve_check_ok [OF s2(2) ord, of now] obtain s3 where
        s3: "starve_check ord now s2 = Some s3" "rc_ok cfg content s3" "quiet s2 s3" "keeps s2 s3" by blast
      have "data_for ord src p body now is_new m (rc, acts) = Some s3"
        using d cfg m1(1) inc False s2(1) s3(1) by (simp add: data_for_def Let_def)
      moreover have "starts_only ?key (rc, acts) ?s" by (simp add: starts_only_def rc_put_def)
      then have "advances ?key (rc, acts) ?s" using hold by (rule advancesI)
      then have "advances ?key (rc, acts) s3" using s2(3,4) s3(3,4) by (blast intro: advances_quiet)
      moreover have "holds s3 ?key i" using hi s2(3,4) s3(3,4) by (blast intro: holds_quiet)
      ultimately show ?thesis using s3(2) by blast
    qed
  qed
qed

lemma handle_data_ok:
  assumes ok: "rc_ok cfg content s" and ps: "0 < packet_size cfg" and ord: "order_ok ord"
    and ch: "carries_chunk (packet_size cfg) content src p body i"
  shows "\<exists>s'. handle_data ord src p body now s = Some s' \<and> rc_ok cfg content s' \<and>
    advances (src, msg_id p) s s' \<and>
    (hm_get (rc_incoming (fst s)) (src, msg_id p) \<noteq> None \<or> length (rc_incoming (fst s)) < max_incoming cfg \<longrightarrow>
       holds s' (src, msg_id p) i)"
proof -
  obtain rc acts where s: "s = (rc, acts)" by (cases s)
  let ?ps = "packet_size cfg" and ?key = "(src, msg_id p)"
  have cfg: "rc_cfg rc = cfg" using rc_ok_tracked [OF ok] s by (simp add: rc_inv_def)
  have small: "\<not> unat (msg_len p) > MAX_MSG_LEN" using ch by (auto simp: carries_chunk_def)
  show ?thesis
  proof (cases "?key \<in> set (rc_completed rc)")
    case True
    then have "?key \<in> set (rc_completed_order rc)" using ok s by (auto simp: rc_ok_def done_inv_def)
    then have "?key \<in> fst ` set (delivered acts)"
      using ok s set_take_last [of COMPLETED_CACHE "map fst (delivered acts)"] by (auto simp: rc_ok_def)
    then have "holds s ?key i" using s by (simp add: holds_def)
    moreover have "handle_data ord src p body now s = Some s" using True s by (simp add: handle_data_def)
    moreover have "advances ?key s s" by (simp add: advances_def starts_only_def)
    ultimately show ?thesis using ok by blast
  next
    case new: False
    show ?thesis
    proof (cases "hm_get (rc_incoming rc) ?key")
      case (Some m)
      have re: "reassembling ?ps data m" if "content ?key = Some data" for data
        using rc_invD [OF rc_ok_tracked [OF ok], of ?key m] s Some that by (auto simp: on_track_def)
      from data_for_ok [OF _ ps ord ch new, of acts m now False] ok s Some re
      have "\<exists>s'. data_for ord src p body now False m (rc, acts) = Some s' \<and> rc_ok cfg content s' \<and> holds s' ?key i \<and>
          advances ?key (rc, acts) s'" by simp
      moreover have "handle_data ord src p body now s = data_for ord src p body now False m (rc, acts)"
        using Some new small s cfg ps by (simp add: handle_data_def Let_def)
      ultimately show ?thesis using s by auto
    next
      case None
      show ?thesis
      proof (cases "length (rc_incoming rc) < max_incoming cfg")
        case False
        have "rc_ok cfg content (rc, acts @ [Send d b])" for d b using ok s by (simp add: rc_ok_def)
        moreover have "advances ?key s (rc, acts @ [Send d b])" for d b
          using s by (simp add: advances_def holds_def starts_only_def)
        moreover have "\<exists>d b. handle_data ord src p body now s = Some (rc, acts @ [Send d b])"
          using False None new small s cfg by (simp add: handle_data_def Let_def)
        moreover have "\<not> (hm_get (rc_incoming (fst s)) ?key \<noteq> None \<or> length (rc_incoming (fst s)) < max_incoming cfg)"
          using False None s by simp
        ultimately show ?thesis by blast
      next
        case True
        let ?rc = "rc\<lparr>rc_starve_queue := (now + starve_threshold cfg, ?key) # rc_starve_queue rc\<rparr>"
        let ?m = "fresh_in_msg (unat (msg_len p)) ?ps (min (unscheduled_bytes cfg) (unat (msg_len p))) now"
        have "rc_ok cfg content (?rc, acts)" using ok s by (simp add: rc_ok_starve)
        moreover have "reassembling ?ps data ?m" if "content ?key = Some data" "data \<noteq> []" for data
          using ch that fresh_reassembling [OF ps that(2)] by (auto simp: carries_chunk_def)
        ultimately have "\<exists>s'. data_for ord src p body now True ?m (?rc, acts) = Some s' \<and> rc_ok cfg content s' \<and> holds s' ?key i \<and>
            advances ?key (?rc, acts) s'"
          using data_for_ok [OF _ ps ord ch, of ?rc acts ?m now True] new True None by simp
        moreover have "advances ?key (?rc, acts) = advances ?key (rc, acts)"
          by (simp add: advances_def holds_def starts_only_def fun_eq_iff)
        moreover have "handle_data ord src p body now s = data_for ord src p body now True ?m (?rc, acts)"
          using True None new small s cfg ps by (simp add: handle_data_def Let_def)
        ultimately show ?thesis using s by auto
      qed
    qed
  qed
qed

section \<open>Histories\<close>

datatype rc_event = ArrData sock_addr packet bytes nat | ArrTick nat

fun rc_step :: "rc_order \<Rightarrow> rc_state \<Rightarrow> rc_event \<Rightarrow> rc_state option" where
  "rc_step ord s (ArrData src p body now) = handle_data ord src p body now s"
| "rc_step ord s (ArrTick now) = rc_tick ord now s"

definition rc_run :: "rc_order \<Rightarrow> rc_state \<Rightarrow> rc_event list \<Rightarrow> rc_state option" where
  "rc_run ord = run_steps (rc_step ord)"

fun genuine :: "nat \<Rightarrow> (msg_key \<Rightarrow> bytes option) \<Rightarrow> rc_event \<Rightarrow> bool" where
  "genuine ps content (ArrData src p body now) = (\<exists>i. carries_chunk ps content src p body i)"
| "genuine ps content (ArrTick now) = True"

lemma rc_ok_new: "rc_ok cfg content (rc_new cfg, [])"
  by (simp add: rc_ok_def rc_new_def rc_inv_def done_inv_def take_last_def)

lemma rc_run_ok:
  assumes ps: "0 < packet_size cfg" and ord: "order_ok ord"
  shows "rc_ok cfg content s \<Longrightarrow> list_all (genuine (packet_size cfg) content) evs \<Longrightarrow>
    \<exists>s'. rc_run ord s evs = Some s' \<and> rc_ok cfg content s'"
proof (induction evs arbitrary: s)
  case (Cons ev evs)
  have "\<exists>s1. rc_step ord s ev = Some s1 \<and> rc_ok cfg content s1"
  proof (cases ev)
    case (ArrData src p body now)
    with Cons.prems(2) obtain i where "carries_chunk (packet_size cfg) content src p body i" by auto
    from handle_data_ok [OF Cons.prems(1) ps ord this] show ?thesis unfolding ArrData rc_step.simps by blast
  next
    case (ArrTick now)
    with tick_ok [OF Cons.prems(1) ord, of now] show ?thesis by simp
  qed
  then obtain s1 where "rc_step ord s ev = Some s1" "rc_ok cfg content s1" by blast
  with Cons.IH [of s1] Cons.prems(2) show ?case by (simp add: rc_run_def)
qed (simp add: rc_run_def)

text \<open>
  Arrivals of chunks of messages out of a set of keys. When every message of that set can be held at
  the same time, no chunk is refused, so each chunk that arrived is held or its message was delivered.
\<close>

fun chunk_of :: "nat \<Rightarrow> (msg_key \<Rightarrow> bytes option) \<Rightarrow> msg_key \<Rightarrow> nat \<Rightarrow> rc_event \<Rightarrow> bool" where
  "chunk_of ps content key i (ArrData src p body now) = ((src, msg_id p) = key \<and> carries_chunk ps content src p body i)"
| "chunk_of ps content key i (ArrTick now) = False"

definition within :: "msg_key set \<Rightarrow> rc_state \<Rightarrow> bool" where
  "within K s \<longleftrightarrow> (\<forall>k. hm_get (rc_incoming (fst s)) k \<noteq> None \<longrightarrow> k \<in> K)"

lemma within_room:
  assumes "within K s" "finite K" "hm_wf (rc_incoming (fst s))" "key \<in> K" "hm_get (rc_incoming (fst s)) key = None"
  shows "length (rc_incoming (fst s)) < card K"
proof -
  let ?ms = "rc_incoming (fst s)"
  have sub: "fst ` set ?ms \<subset> K"
    using assms(1,4,5) hm_get_keys [of ?ms] unfolding within_def by (metis psubsetI subsetI)
  have "length ?ms = card (fst ` set ?ms)" using assms(3) distinct_card [of "map fst ?ms"] by (simp add: hm_wf_def)
  also have "\<dots> < card K" by (rule psubset_card_mono [OF assms(2) sub])
  finally show ?thesis .
qed

lemma chunk_step:
  assumes ok: "rc_ok cfg content s" "within K s" and K: "finite K" "card K \<le> max_incoming cfg" "key \<in> K"
    and ps: "0 < packet_size cfg" and ord: "order_ok ord" and ev: "chunk_of (packet_size cfg) content key i ev"
  shows "\<exists>s'. rc_step ord s ev = Some s' \<and> rc_ok cfg content s' \<and> within K s' \<and> holds s' key i \<and> advances key s s'"
proof -
  from ev obtain src p body now where e: "ev = ArrData src p body now" "key = (src, msg_id p)"
    and ch: "carries_chunk (packet_size cfg) content src p body i" by (cases ev) auto
  have "hm_wf (rc_incoming (fst s))" using rc_ok_tracked [OF ok(1)] by (simp add: rc_inv_def)
  then have room: "hm_get (rc_incoming (fst s)) key \<noteq> None \<or> length (rc_incoming (fst s)) < max_incoming cfg"
    using within_room [OF ok(2) K(1)] K(2,3) by fastforce
  from handle_data_ok [OF ok(1) ps ord ch, of now] room obtain s' where
    s': "handle_data ord src p body now s = Some s'" "rc_ok cfg content s'" "advances key s s'" "holds s' key i"
    unfolding e by blast
  moreover have "within K s'" using s'(3) ok(2) K(3) unfolding within_def advances_def starts_only_def by metis
  ultimately show ?thesis unfolding e rc_step.simps by blast
qed

lemma chunk_run:
  assumes K: "finite K" "card K \<le> max_incoming cfg" and ps: "0 < packet_size cfg" and ord: "order_ok ord"
  shows "rc_ok cfg content s \<Longrightarrow> within K s \<Longrightarrow>
    \<forall>ev \<in> set evs. \<exists>key i. key \<in> K \<and> chunk_of (packet_size cfg) content key i ev \<Longrightarrow>
    \<exists>s'. rc_run ord s evs = Some s' \<and> rc_ok cfg content s' \<and> (\<forall>k j. holds s k j \<longrightarrow> holds s' k j) \<and>
      (\<forall>ev \<in> set evs. \<forall>key i. chunk_of (packet_size cfg) content key i ev \<longrightarrow> holds s' key i)"
proof (induction evs arbitrary: s)
  case Nil
  then show ?case by (simp add: rc_run_def)
next
  case (Cons ev evs)
  from Cons.prems(3) obtain key i where ev: "key \<in> K" "chunk_of (packet_size cfg) content key i ev" by auto
  from chunk_step [OF Cons.prems(1,2) K ev(1) ps ord ev(2)] obtain s1 where
    s1: "rc_step ord s ev = Some s1" "rc_ok cfg content s1" "within K s1" "holds s1 key i" "advances key s s1" by blast
  have "\<forall>ev \<in> set evs. \<exists>key i. key \<in> K \<and> chunk_of (packet_size cfg) content key i ev" using Cons.prems(3) by simp
  from Cons.IH [OF s1(2,3) this] obtain s' where
    s': "rc_run ord s1 evs = Some s'" "rc_ok cfg content s'" "\<And>k j. holds s1 k j \<Longrightarrow> holds s' k j"
      "\<forall>ev \<in> set evs. \<forall>key i. chunk_of (packet_size cfg) content key i ev \<longrightarrow> holds s' key i" by blast
  have one: "holds s' k j" if "chunk_of (packet_size cfg) content k j ev" for k j
    using chunk_step [OF Cons.prems(1,2) K _ ps ord that] that ev s1(1) s'(3)
    by (cases ev) auto
  have "rc_run ord s (ev # evs) = Some s'" using s1(1) s'(1) by (simp add: rc_run_def)
  moreover have "holds s k j \<Longrightarrow> holds s' k j" for k j using s1(5) s'(3) unfolding advances_def by blast
  ultimately show ?case using s'(2,4) one by (metis set_ConsD)
qed

lemma holds_all_delivered:
  assumes "rc_ok cfg content s" "0 < packet_size cfg" "content key = Some data"
    and "\<forall>i < max 1 (div_ceil (length data) (packet_size cfg)). holds s key i"
  shows "(key, data) \<in> set (delivered (snd s))"
proof -
  have "key \<in> fst ` set (delivered (snd s))"
  proof (rule ccontr)
    assume no: "key \<notin> fst ` set (delivered (snd s))"
    then obtain m where m: "hm_get (rc_incoming (fst s)) key = Some m" using assms(4) [rule_format, of 0] by (auto simp: holds_def less_max_iff_disj)
    have "on_track (packet_size cfg) content key m" using rc_invD [OF rc_ok_tracked [OF assms(1)] m] by simp
    then have tr: "reassembling (packet_size cfg) data m" "lacks_chunk m" using assms(3) by (auto simp: on_track_def)
    then obtain i where "i < length (im_received m)" "\<not> im_received m ! i" by (auto simp: lacks_chunk_def in_set_conv_nth)
    with assms(4) no m tr(1) show False by (auto simp: holds_def reassembling_def)
  qed
  with assms(1,3) show ?thesis by (fastforce simp: rc_ok_def)
qed

section \<open>Properties\<close>





end
