(* ===== verification/Homa_Txqueue.thy ===== *)
theory Homa_Txqueue
  imports Homa_Packet
begin

text \<open>
  The transmit queues shared by the threads of the transport
  (\<^verbatim>\<open>crates/homa-rpc/src/transport/txqueue.rs\<close>): one queue of control packets and
  one queue of DATA packets per priority. Every operation holds the lock of the queues from its
  first to its last access, so a history of the operations is a sequence of steps.
\<close>

section \<open>State and operations\<close>

type_synonym datagram = "sock_addr \<times> bytes"

definition FLUSH_BUDGET :: nat where "FLUSH_BUDGET = 1024"

record tx_queues =
  tq_control :: "datagram list"
  tq_queues :: "datagram list list"
  tq_shutdown :: bool

definition txq_new :: tx_queues where
  "txq_new = \<lparr>tq_control = [], tq_queues = replicate NUM_PRIORITIES [], tq_shutdown = False\<rparr>"

definition txq_push :: "sock_addr \<Rightarrow> bytes \<Rightarrow> tx_queues \<Rightarrow> tx_queues" where
  "txq_push dest bs q =
     (if length bs \<ge> 2 \<and> bs ! 0 = type_byte Data
      then let prio = min (unat (bs ! 1)) (NUM_PRIORITIES - 1)
           in q\<lparr>tq_queues := (tq_queues q)[prio := tq_queues q ! prio @ [(dest, bs)]]\<rparr>
      else q\<lparr>tq_control := tq_control q @ [(dest, bs)]\<rparr>)"

text \<open>Popping DATA packets, level by level, while the batch is within its budget.\<close>

fun pop_level :: "nat \<Rightarrow> datagram list \<Rightarrow> datagram list \<Rightarrow> datagram list \<times> datagram list" where
  "pop_level budget out [] = (out, [])"
| "pop_level budget out (x # q) = (if length out < budget then pop_level budget (out @ [x]) q else (out, x # q))"

fun pop_levels :: "nat \<Rightarrow> datagram list \<Rightarrow> datagram list list \<Rightarrow> datagram list \<times> datagram list list" where
  "pop_levels budget out [] = (out, [])"
| "pop_levels budget out (q # qs) =
     (let (out1, q1) = pop_level budget out q in
      if length out1 \<ge> budget then (out1, q1 # qs)
      else let (out2, qs2) = pop_levels budget out1 qs in (out2, q1 # qs2))"

text \<open>One round of the loop of \<open>wait_batch\<close>: a batch to return, or \<^term>\<open>None\<close> to wait for a push.\<close>

definition wait_batch :: "nat \<Rightarrow> tx_queues \<Rightarrow> datagram list option \<times> tx_queues" where
  "wait_batch budget q =
     (let (out, qs) = pop_levels budget (tq_control q) (tq_queues q);
          q1 = q\<lparr>tq_control := [], tq_queues := qs\<rparr>
      in if out \<noteq> [] \<or> tq_shutdown q then (Some out, q1) else (None, q1))"

definition txq_shutdown :: "tx_queues \<Rightarrow> tx_queues" where
  "txq_shutdown q = q\<lparr>tq_shutdown := True\<rparr>"

definition txq_is_empty :: "tx_queues \<Rightarrow> bool" where
  "txq_is_empty q \<longleftrightarrow> tq_control q = [] \<and> list_all (\<lambda>l. l = []) (tq_queues q)"

definition txq_backlog :: "tx_queues \<Rightarrow> nat" where
  "txq_backlog q = sum_list (map length (tq_queues q)) + length (tq_control q)"

section \<open>Classes of packets\<close>

text \<open>
  The class of a packet is its place in the order of departure: 0 for control packets,
  \<open>1 + priority\<close> for DATA. The queues of a state, listed by class, are \<open>txq_lists\<close>.
\<close>

definition tx_class :: "datagram \<Rightarrow> nat" where
  "tx_class d = (if length (snd d) \<ge> 2 \<and> snd d ! 0 = type_byte Data then Suc (min (unat (snd d ! 1)) (NUM_PRIORITIES - 1)) else 0)"

definition txq_lists :: "tx_queues \<Rightarrow> datagram list list" where
  "txq_lists q = tq_control q # tq_queues q"

definition txq_wf :: "tx_queues \<Rightarrow> bool" where
  "txq_wf q \<longleftrightarrow> length (tq_queues q) = NUM_PRIORITIES \<and>
     (\<forall>c < Suc NUM_PRIORITIES. \<forall>d \<in> set (txq_lists q ! c). tx_class d = c)"

lemma tx_class_bound: "tx_class d < Suc NUM_PRIORITIES"
  by (auto simp: tx_class_def NUM_PRIORITIES_def)

lemma txq_wf_new: "txq_wf txq_new"
  by (auto simp: txq_wf_def txq_new_def txq_lists_def nth_Cons split: nat.split)

lemma txq_push_lists:
  "length (tq_queues q) = NUM_PRIORITIES \<Longrightarrow>
   txq_lists (txq_push dest bs q) = (txq_lists q)[tx_class (dest, bs) := txq_lists q ! tx_class (dest, bs) @ [(dest, bs)]]"
  by (simp add: txq_push_def txq_lists_def tx_class_def Let_def)

lemma txq_wf_lists: "txq_wf q \<longleftrightarrow> length (txq_lists q) = Suc NUM_PRIORITIES \<and>
    (\<forall>c < Suc NUM_PRIORITIES. \<forall>d \<in> set (txq_lists q ! c). tx_class d = c)"
  by (auto simp: txq_wf_def txq_lists_def)

lemma txq_wf_push: "txq_wf q \<Longrightarrow> txq_wf (txq_push dest bs q)"
proof -
  assume wf: "txq_wf q"
  then have "length (tq_queues q) = NUM_PRIORITIES" by (simp add: txq_wf_def)
  from txq_push_lists [OF this] wf tx_class_bound [of "(dest, bs)"] show ?thesis
    by (auto simp: txq_wf_lists nth_list_update split: if_splits)
qed

lemma filter_class:
  assumes "txq_wf q" "c < Suc NUM_PRIORITIES" "c' < Suc NUM_PRIORITIES"
  shows "filter (\<lambda>d. tx_class d = c) (txq_lists q ! c') = (if c = c' then txq_lists q ! c else [])"
  using assms by (auto simp: txq_wf_def filter_id_conv filter_empty_conv)

section \<open>Batches\<close>

lemma pop_level_eq: "pop_level budget out q = (out @ take (budget - length out) q, drop (budget - length out) q)"
  by (induction budget out q rule: pop_level.induct) (auto simp: take_Cons' drop_Cons')

text \<open>Popping the levels splits their concatenation at the budget.\<close>

lemma pop_levels_split:
  "pop_levels budget out qs = (out', qs') \<Longrightarrow>
     out' = out @ take (budget - length out) (concat qs) \<and> concat qs' = drop (budget - length out) (concat qs) \<and>
     list_all2 (\<lambda>q' q. set q' \<subseteq> set q) qs' qs"
proof (induction budget out qs arbitrary: out' qs' rule: pop_levels.induct)
  case (1 budget out)
  then show ?case by simp
next
  case (2 budget out q qs)
  let ?n = "budget - length out"
  have sub: "set (drop ?n q) \<subseteq> set q" by (rule set_drop_subset)
  have refl: "list_all2 (\<lambda>q' q. set q' \<subseteq> set q) qs qs" by (rule list_all2_refl) simp
  show ?case
  proof (cases "budget \<le> length (out @ take ?n q)")
    case True
    with "2.prems" have "out' = out @ take ?n q" "qs' = drop ?n q # qs"
      unfolding pop_levels.simps pop_level_eq Let_def by (simp_all only: prod.case if_True prod.inject)
    moreover have "?n \<le> length q" using True by simp
    ultimately show ?thesis using sub refl by simp
  next
    case False
    then have all: "take ?n q = q" "drop ?n q = []" by auto
    obtain qs2 where rec: "pop_levels budget (out @ q) qs = (out', qs2)" "qs' = [] # qs2"
      using "2.prems" False unfolding pop_levels.simps pop_level_eq Let_def all by (auto split: prod.splits)
    from "2.IH" [of "(out @ take ?n q, drop ?n q)" "out @ take ?n q" "drop ?n q" out' qs2] rec(1) False
    have "out' = (out @ q) @ take (budget - length (out @ q)) (concat qs) \<and> concat qs2 = drop (budget - length (out @ q)) (concat qs) \<and>
      list_all2 (\<lambda>q' q. set q' \<subseteq> set q) qs2 qs" unfolding pop_level_eq all by simp
    moreover have "length q \<le> ?n" using False by auto
    ultimately show ?thesis using rec(2) by simp
  qed
qed

text \<open>All packets of a state, in the order in which they leave.\<close>

definition txq_order :: "tx_queues \<Rightarrow> datagram list" where
  "txq_order q = concat (txq_lists q)"

lemma wait_batch_split:
  assumes "txq_wf q"
  shows "\<exists>n q'. wait_batch budget q = (if take n (txq_order q) = [] \<and> \<not> tq_shutdown q then None else Some (take n (txq_order q)), q') \<and>
    n = max budget (length (tq_control q)) \<and> txq_order q' = drop n (txq_order q) \<and> txq_wf q'"
proof -
  obtain out qs where pop: "pop_levels budget (tq_control q) (tq_queues q) = (out, qs)" by fastforce
  note split = pop_levels_split [OF pop]
  let ?n = "max budget (length (tq_control q))" and ?q = "q\<lparr>tq_control := [], tq_queues := qs\<rparr>"
  have "?n - length (tq_control q) = budget - length (tq_control q)" by auto
  then have out: "out = take ?n (txq_order q)" "txq_order ?q = drop ?n (txq_order q)"
    using split by (simp_all add: txq_order_def txq_lists_def)
  have "txq_wf ?q" using split assms unfolding txq_wf_def txq_lists_def
    by (auto simp: list_all2_conv_all_nth nth_Cons split: nat.splits) blast
  moreover have "wait_batch budget q = (if out = [] \<and> \<not> tq_shutdown q then None else Some out, ?q)"
    using pop by (simp add: wait_batch_def)
  ultimately show ?thesis using out by blast
qed

text \<open>Lists that hold one class each, in the order of the classes.\<close>

fun classed :: "('a \<Rightarrow> nat) \<Rightarrow> nat \<Rightarrow> 'a list list \<Rightarrow> bool" where
  "classed f k [] = True"
| "classed f k (xs # xss) = ((\<forall>x \<in> set xs. f x = k) \<and> classed f (Suc k) xss)"

lemma classed_nth: "classed f k xss \<longleftrightarrow> (\<forall>i < length xss. \<forall>x \<in> set (xss ! i). f x = k + i)"
  by (induction f k xss rule: classed.induct) (auto simp: less_Suc_eq_0_disj)

lemma classed_lower: "classed f k xss \<Longrightarrow> x \<in> set (concat xss) \<Longrightarrow> k \<le> f x"
  by (induction f k xss rule: classed.induct) fastforce+

lemma classed_sorted: "classed f k xss \<Longrightarrow> sorted (map f (concat xss))"
proof (induction f k xss rule: classed.induct)
  case (2 f k xs xss)
  then have "map f xs = replicate (length xs) k" by (simp add: map_replicate_const [symmetric])
  moreover have "sorted (map f (concat xss))" using 2 by simp
  moreover have "\<forall>x \<in> set (concat xss). k \<le> f x" using classed_lower [of f "Suc k" xss] 2 by force
  ultimately show ?case by (auto simp: sorted_append)
qed simp

lemma classed_filter:
  "classed f k xss \<Longrightarrow> filter (\<lambda>x. f x = c) (concat xss) = (if k \<le> c \<and> c < k + length xss then xss ! (c - k) else [])"
proof (induction f k xss rule: classed.induct)
  case (2 f k xs xss)
  then have "filter (\<lambda>x. f x = c) xs = (if c = k then xs else [])" by (auto simp: filter_id_conv filter_empty_conv)
  with 2 show ?case by (auto simp: nth_Cons' Suc_diff_le)
qed auto

lemma txq_wf_classed: "txq_wf q \<Longrightarrow> classed tx_class 0 (txq_lists q)"
  by (simp add: txq_wf_lists classed_nth)

lemma txq_order_sorted: "txq_wf q \<Longrightarrow> sorted (map tx_class (txq_order q))"
  unfolding txq_order_def by (rule classed_sorted [OF txq_wf_classed])

section \<open>Histories\<close>

datatype tx_op = TxPush sock_addr bytes | TxWait nat | TxShutdown

fun tx_step :: "tx_queues \<Rightarrow> tx_op \<Rightarrow> tx_queues \<times> datagram list" where
  "tx_step q (TxPush dest bs) = (txq_push dest bs q, [])"
| "tx_step q (TxWait budget) = (case wait_batch budget q of (r, q') \<Rightarrow> (q', case r of None \<Rightarrow> [] | Some batch \<Rightarrow> batch))"
| "tx_step q TxShutdown = (txq_shutdown q, [])"

fun tx_run :: "tx_queues \<Rightarrow> tx_op list \<Rightarrow> tx_queues \<times> datagram list" where
  "tx_run q [] = (q, [])"
| "tx_run q (opn # ops) = (let (q1, out) = tx_step q opn; (q2, outs) = tx_run q1 ops in (q2, out @ outs))"

fun tx_pushed :: "tx_op list \<Rightarrow> datagram list" where
  "tx_pushed [] = []"
| "tx_pushed (TxPush dest bs # ops) = (dest, bs) # tx_pushed ops"
| "tx_pushed (_ # ops) = tx_pushed ops"

abbreviation of_class :: "nat \<Rightarrow> datagram list \<Rightarrow> datagram list" where
  "of_class c \<equiv> filter (\<lambda>d. tx_class d = c)"

lemma of_class_order:
  "txq_wf q \<Longrightarrow> of_class c (txq_order q) = (if c < Suc NUM_PRIORITIES then txq_lists q ! c else [])"
  unfolding txq_order_def using classed_filter [OF txq_wf_classed] by (simp add: txq_wf_lists)

lemma txq_backlog_order: "txq_backlog q = length (txq_order q)"
  by (simp add: txq_backlog_def txq_order_def txq_lists_def length_concat)

text \<open>A push goes behind its own class; a batch and what it leaves are what was there.\<close>

lemma push_class:
  assumes "txq_wf q"
  shows "of_class c (txq_order (txq_push dest bs q)) = of_class c (txq_order q @ [(dest, bs)])"
proof -
  have len: "length (tq_queues q) = NUM_PRIORITIES" "length (txq_lists q) = Suc NUM_PRIORITIES"
    using assms by (simp_all add: txq_wf_def txq_lists_def)
  show ?thesis
    using of_class_order [OF assms, of c] of_class_order [OF txq_wf_push [OF assms], of c dest bs] tx_class_bound [of "(dest, bs)"]
    by (auto simp: txq_push_lists [OF len(1)] len(2) nth_list_update)
qed

lemma length_push_order: "txq_wf q \<Longrightarrow> length (txq_order (txq_push dest bs q)) = Suc (length (txq_order q))"
proof -
  assume "txq_wf q"
  then have "length (tq_queues q) = NUM_PRIORITIES" by (simp add: txq_wf_def)
  moreover have "min (unat (bs ! 1)) (NUM_PRIORITIES - 1) < NUM_PRIORITIES" by (simp add: NUM_PRIORITIES_def)
  ultimately show ?thesis
    by (simp add: txq_backlog_order [symmetric] txq_backlog_def txq_push_def Let_def map_update sum_list_update)
qed

lemma tx_run_ok:
  "txq_wf q \<Longrightarrow> tx_run q ops = (q', sent) \<Longrightarrow>
     txq_wf q' \<and> (\<forall>c. of_class c (txq_order q @ tx_pushed ops) = of_class c (sent @ txq_order q')) \<and>
     length (txq_order q) + length (tx_pushed ops) = length sent + length (txq_order q')"
proof (induction ops arbitrary: q sent)
  case (Cons opn ops)
  obtain q1 out where st: "tx_step q opn = (q1, out)" by fastforce
  obtain rest where run: "tx_run q1 ops = (q', rest)" "sent = out @ rest"
    using Cons.prems(2) st by (auto simp: Let_def split: prod.splits)
  have step: "txq_wf q1 \<and> (\<forall>c. of_class c (txq_order q @ tx_pushed [opn]) = of_class c (out @ txq_order q1)) \<and>
      length (txq_order q) + length (tx_pushed [opn]) = length out + length (txq_order q1)"
  proof (cases opn)
    case (TxPush dest bs)
    with st show ?thesis
      using txq_wf_push [OF Cons.prems(1), of dest bs] push_class [OF Cons.prems(1), of _ dest bs]
        length_push_order [OF Cons.prems(1), of dest bs] by auto
  next
    case (TxWait budget)
    obtain n q2 where w: "wait_batch budget q = (if take n (txq_order q) = [] \<and> \<not> tq_shutdown q then None else Some (take n (txq_order q)), q2)"
      "txq_order q2 = drop n (txq_order q)" "txq_wf q2"
      using wait_batch_split [OF Cons.prems(1), of budget] by blast
    with st TxWait have "q1 = q2" "out = take n (txq_order q)" by (auto split: if_splits)
    then have "out @ txq_order q1 = txq_order q" using w(2) by simp
    then have "\<forall>c. of_class c (txq_order q) = of_class c (out @ txq_order q1)" "length (txq_order q) = length out + length (txq_order q1)"
      by (metis, metis length_append)
    with w(3) \<open>q1 = q2\<close> TxWait show ?thesis by simp
  next
    case TxShutdown
    with st Cons.prems(1) show ?thesis
      by (auto simp: txq_shutdown_def txq_wf_def txq_order_def txq_lists_def)
  qed
  have split: "tx_pushed (opn # ops) = tx_pushed [opn] @ tx_pushed ops" by (cases opn) simp_all
  from Cons.IH [OF conjunct1 [OF step] run(1)] have
    IH: "txq_wf q'" "\<And>c. of_class c (txq_order q1 @ tx_pushed ops) = of_class c (rest @ txq_order q')"
      "length (txq_order q1) + length (tx_pushed ops) = length rest + length (txq_order q')" by blast+
  have "of_class c (txq_order q @ tx_pushed (opn # ops)) = of_class c (sent @ txq_order q')" for c
  proof -
    have "of_class c (txq_order q @ tx_pushed (opn # ops)) = of_class c (txq_order q @ tx_pushed [opn]) @ of_class c (tx_pushed ops)"
      by (simp only: split filter_append append.assoc)
    also have "\<dots> = of_class c out @ of_class c (txq_order q1 @ tx_pushed ops)"
      using step by (simp only: filter_append append.assoc)
    also have "\<dots> = of_class c out @ of_class c (rest @ txq_order q')" by (simp only: IH(2))
    also have "\<dots> = of_class c (sent @ txq_order q')" by (simp only: run(2) filter_append append.assoc)
    finally show ?thesis .
  qed
  moreover have "length (txq_order q) + length (tx_pushed (opn # ops)) = length sent + length (txq_order q')"
    using step IH(3) unfolding split run(2) by simp
  ultimately show ?case using IH(1) by blast
qed simp

section \<open>Property\<close>

text \<open>
  C22. Order of departure. After any history of pushes, batches and shut-down, every class of packets
  leaves in the order it was pushed and nothing is lost or repeated: what was sent and what is queued
  is, class by class, what was pushed. A batch and the packets it leaves behind are sorted by class,
  so no packet waits while a less important one leaves; the batch is as long as its budget
  allows, or holds all control packets, and the sending thread waits only when there is nothing to send.
\<close>

theorem tx_queue_order:
  "let (q, sent) = tx_run txq_new ops; (r, q') = wait_batch budget q; batch = (case r of None \<Rightarrow> [] | Some b \<Rightarrow> b) in
     (\<forall>c. of_class c (tx_pushed ops) = of_class c (sent @ txq_order q)) \<and>
     length (tx_pushed ops) = length sent + txq_backlog q \<and>
     batch @ txq_order q' = txq_order q \<and> sorted (map tx_class (batch @ txq_order q')) \<and>
     length batch = min (txq_backlog q) (max budget (length (tq_control q))) \<and>
     (r = None) = (batch = [] \<and> \<not> tq_shutdown q)"
proof -
  obtain q sent where run: "tx_run txq_new ops = (q, sent)" by fastforce
  have new: "txq_order txq_new = []" by (simp add: txq_new_def txq_order_def txq_lists_def)
  from tx_run_ok [OF txq_wf_new run] have wf: "txq_wf q"
    and cls: "\<forall>c. of_class c (tx_pushed ops) = of_class c (sent @ txq_order q)"
    and len: "length (tx_pushed ops) = length sent + txq_backlog q" by (simp_all add: new txq_backlog_order)
  from wait_batch_split [OF wf, of budget] obtain n q' where
    w: "wait_batch budget q = (if take n (txq_order q) = [] \<and> \<not> tq_shutdown q then None else Some (take n (txq_order q)), q')"
      "n = max budget (length (tq_control q))" "txq_order q' = drop n (txq_order q)" by blast
  define r where "r = fst (wait_batch budget q)"
  then have r: "wait_batch budget q = (r, q')" "(r = None) = (take n (txq_order q) = [] \<and> \<not> tq_shutdown q)"
    "(case r of None \<Rightarrow> [] | Some b \<Rightarrow> b) = take n (txq_order q)" using w(1) by simp_all
  have "take n (txq_order q) @ txq_order q' = txq_order q" by (simp add: w(3))
  moreover have "length (take n (txq_order q)) = min (txq_backlog q) (max budget (length (tq_control q)))"
    by (simp add: txq_backlog_order w(2))
  ultimately show ?thesis
    using cls len txq_order_sorted [OF wf] r(2) unfolding run prod.case Let_def r(1,3) by simp
qed

end
