(* ===== verification/Homa_Gso.thy ===== *)
theory Homa_Gso
  imports Homa_Txqueue
begin

text \<open>
  Segmentation offload (\<^verbatim>\<open>crates/homa-rpc/src/transport/gso.rs\<close>) and the rounds of the
  sending threads (\<open>send_loop\<close> of \<^verbatim>\<open>transport/mod.rs\<close>): consecutive full DATA packets of one
  message are joined into one buffer, which the kernel cuts into datagrams again. What the kernel
  does with such a buffer is an argument of the model.
\<close>

section \<open>The aggregator\<close>

definition MAX_GSO_BYTES :: nat where "MAX_GSO_BYTES = 65536"

record gso_agg =
  ga_mss :: nat
  ga_stride :: nat
  ga_dest :: "sock_addr option"
  ga_msg_id :: u64
  ga_next_offset :: nat
  ga_buf :: bytes
  ga_count :: nat

definition gso_new :: "nat \<Rightarrow> gso_agg" where
  "gso_new packet_size = \<lparr>ga_mss = HEADER_LEN + packet_size, ga_stride = packet_size, ga_dest = None, ga_msg_id = 0,
     ga_next_offset = 0, ga_buf = [], ga_count = 0\<rparr>"

text \<open>The two header fields the aggregator reads; its callers check the length first.\<close>

definition raw_msg_id :: "bytes \<Rightarrow> u64" where "raw_msg_id bs = le_val (take 8 (drop 2 bs))"

definition raw_offset :: "bytes \<Rightarrow> nat" where "raw_offset bs = unat (le_val (take 4 (drop 14 bs)) :: u32)"

definition can_append :: "gso_agg \<Rightarrow> sock_addr \<Rightarrow> bytes \<Rightarrow> bool" where
  "can_append a dest bs =
     (if ga_count a = 0 \<or> length bs \<noteq> ga_mss a \<or> bs ! 0 \<noteq> type_byte Data then False
      else case ga_dest a of
        None \<Rightarrow> False
      | Some d \<Rightarrow> d = dest \<and> ga_msg_id a = raw_msg_id bs \<and> ga_next_offset a = raw_offset bs \<and>
          length (ga_buf a) + ga_mss a \<le> MAX_GSO_BYTES)"

definition gso_append :: "gso_agg \<Rightarrow> bytes \<Rightarrow> gso_agg" where
  "gso_append a bs = a\<lparr>ga_buf := ga_buf a @ bs, ga_count := ga_count a + 1, ga_next_offset := ga_next_offset a + ga_stride a\<rparr>"

definition gso_start :: "gso_agg \<Rightarrow> sock_addr \<Rightarrow> bytes \<Rightarrow> gso_agg option" where
  "gso_start a dest bs =
     (if length bs \<noteq> ga_mss a \<or> bs ! 0 \<noteq> type_byte Data then None
      else Some (a\<lparr>ga_dest := Some dest, ga_msg_id := raw_msg_id bs, ga_next_offset := raw_offset bs + ga_stride a,
                   ga_buf := bs, ga_count := 1\<rparr>))"

text \<open>\<open>try_push\<close>: \<^term>\<open>None\<close> when the packet cannot join the segment, the aggregator being unchanged.\<close>

definition try_push :: "gso_agg \<Rightarrow> sock_addr \<Rightarrow> bytes \<Rightarrow> gso_agg option" where
  "try_push a dest bs =
     (if can_append a dest bs then Some (gso_append a bs)
      else if ga_count a = 0 then gso_start a dest bs else None)"

text \<open>\<open>finish\<close>: the outer \<^term>\<open>None\<close> is the panic of \<open>unwrap\<close>.\<close>

definition gso_finish :: "gso_agg \<Rightarrow> ((sock_addr \<times> bytes \<times> nat) option \<times> gso_agg) option" where
  "gso_finish a =
     (if ga_count a = 0 then Some (None, a)
      else do {
        d \<leftarrow> ga_dest a;
        Some (Some (d, ga_buf a, ga_count a), a\<lparr>ga_buf := [], ga_dest := None, ga_count := 0\<rparr>)
      })"

section \<open>Rounds of the sending threads\<close>

text \<open>The system calls of a sending thread: a datagram, or a buffer with the size to cut it at.\<close>

datatype tx_call = SendTo sock_addr bytes | SendMsg sock_addr bytes u32

definition send_segment :: "nat \<Rightarrow> sock_addr \<Rightarrow> bytes \<Rightarrow> nat \<Rightarrow> tx_call" where
  "send_segment packet_size dest seg n =
     (if n \<le> 1 then SendTo dest seg else SendMsg dest seg (of_nat (HEADER_LEN + packet_size)))"

record send_state =
  ss_agg :: gso_agg
  ss_calls :: "tx_call list"
  ss_syscalls :: nat
  ss_gso_segments :: nat

definition flush_segment :: "nat \<Rightarrow> send_state \<Rightarrow> send_state option" where
  "flush_segment packet_size st = do {
     (r, a) \<leftarrow> gso_finish (ss_agg st);
     Some (case r of
       None \<Rightarrow> st\<lparr>ss_agg := a\<rparr>
     | Some (d, seg, n) \<Rightarrow> st\<lparr>ss_agg := a, ss_calls := ss_calls st @ [send_segment packet_size d seg n],
         ss_syscalls := ss_syscalls st + 1, ss_gso_segments := ss_gso_segments st + n\<rparr>)
   }"

definition send_packet :: "nat \<Rightarrow> datagram \<Rightarrow> send_state \<Rightarrow> send_state option" where
  "send_packet packet_size d st =
     (case try_push (ss_agg st) (fst d) (snd d) of
        Some a \<Rightarrow> Some (st\<lparr>ss_agg := a\<rparr>)
      | None \<Rightarrow> do {
          st1 \<leftarrow> flush_segment packet_size st;
          Some (st1\<lparr>ss_calls := ss_calls st1 @ [SendTo (fst d) (snd d)], ss_syscalls := ss_syscalls st1 + 1\<rparr>)
        })"

text \<open>One batch with segmentation offload, and one without it.\<close>

definition send_batch_gso :: "nat \<Rightarrow> datagram list \<Rightarrow> send_state \<Rightarrow> send_state option" where
  "send_batch_gso packet_size batch st = do {
     st1 \<leftarrow> foldM (send_packet packet_size) batch st;
     flush_segment packet_size st1
   }"

definition send_batch_plain :: "datagram list \<Rightarrow> send_state \<Rightarrow> send_state" where
  "send_batch_plain batch st =
     st\<lparr>ss_calls := ss_calls st @ map (\<lambda>(dest, bs). SendTo dest bs) batch, ss_syscalls := ss_syscalls st + length batch\<rparr>"

definition send_new :: "nat \<Rightarrow> send_state" where
  "send_new packet_size = \<lparr>ss_agg = gso_new packet_size, ss_calls = [], ss_syscalls = 0, ss_gso_segments = 0\<rparr>"

section \<open>What reaches the wire\<close>

fun on_wire :: "(nat \<Rightarrow> bytes \<Rightarrow> bytes list) \<Rightarrow> tx_call \<Rightarrow> datagram list" where
  "on_wire chop (SendTo dest bs) = [(dest, bs)]"
| "on_wire chop (SendMsg dest seg mss) = map (Pair dest) (chop (unat mss) seg)"

text \<open>The kernel cuts a buffer of equal pieces into those pieces.\<close>

definition cuts_evenly :: "(nat \<Rightarrow> bytes \<Rightarrow> bytes list) \<Rightarrow> bool" where
  "cuts_evenly chop \<longleftrightarrow> (\<forall>n ps. 0 < n \<longrightarrow> list_all (\<lambda>p. length p = n) ps \<longrightarrow> chop n (concat ps) = ps)"

text \<open>The pending segment is the concatenation of full packets, all for its destination.\<close>

definition agg_holds :: "nat \<Rightarrow> gso_agg \<Rightarrow> datagram list \<Rightarrow> bool" where
  "agg_holds packet_size a ds \<longleftrightarrow> ga_mss a = HEADER_LEN + packet_size \<and> ga_count a = length ds \<and>
     (ds \<noteq> [] \<longrightarrow> (\<exists>d. ga_dest a = Some d \<and> list_all (\<lambda>x. fst x = d \<and> length (snd x) = ga_mss a) ds) \<and>
        ga_buf a = concat (map snd ds) \<and> (length ds \<le> 1 \<or> length (ga_buf a) \<le> MAX_GSO_BYTES))"

lemma agg_holds_new: "agg_holds packet_size (gso_new packet_size) []"
  by (simp add: agg_holds_def gso_new_def)

lemma try_push_holds:
  assumes "agg_holds packet_size a ds" "try_push a dest bs = Some a'"
  shows "agg_holds packet_size a' (ds @ [(dest, bs)])"
  using assms
  by (auto simp: agg_holds_def try_push_def can_append_def gso_append_def gso_start_def list_all_iff
      split: if_splits option.splits)

definition small_call :: "tx_call \<Rightarrow> bool" where
  "small_call c = (case c of SendTo dest bs \<Rightarrow> True | SendMsg dest seg mss \<Rightarrow> length seg \<le> MAX_GSO_BYTES)"

text \<open>What was handed over so far and what the segment still holds, with the counters.\<close>

definition sends :: "(nat \<Rightarrow> bytes \<Rightarrow> bytes list) \<Rightarrow> nat \<Rightarrow> send_state \<Rightarrow> datagram list \<Rightarrow> bool" where
  "sends chop packet_size st ds \<longleftrightarrow> (\<exists>held. agg_holds packet_size (ss_agg st) held \<and>
     concat (map (on_wire chop) (ss_calls st)) @ held = ds) \<and> list_all small_call (ss_calls st) \<and> ss_syscalls st = length (ss_calls st)"

lemma segment_on_wire:
  assumes chop: "cuts_evenly chop" and held: "agg_holds packet_size a held" "held \<noteq> []" "ga_dest a = Some d"
  shows "on_wire chop (send_segment packet_size d (ga_buf a) (length held)) = held"
    and "small_call (send_segment packet_size d (ga_buf a) (length held))"
proof -
  have all: "\<forall>x \<in> set held. fst x = d \<and> length (snd x) = HEADER_LEN + packet_size" and buf: "ga_buf a = concat (map snd held)"
    using held by (auto simp: agg_holds_def list_all_iff)
  have pair: "map (Pair d) (map snd held) = held" using all by (auto intro!: map_idI)
  show "on_wire chop (send_segment packet_size d (ga_buf a) (length held)) = held"
  proof (cases "length held \<le> 1")
    case True
    with held(2) obtain x where "held = [x]" by (cases held) auto
    with all buf show ?thesis by (cases x) (simp add: send_segment_def)
  next
    case False
    then have "length (ga_buf a) \<le> MAX_GSO_BYTES" using held by (auto simp: agg_holds_def)
    moreover have "length (ga_buf a) = length held * (HEADER_LEN + packet_size)"
      using all unfolding buf by (induction held) auto
    moreover have "HEADER_LEN + packet_size \<le> length held * (HEADER_LEN + packet_size)" using False by simp
    ultimately have "HEADER_LEN + packet_size \<le> u32_max" unfolding MAX_GSO_BYTES_def by linarith
    then have mss: "unat (of_nat (HEADER_LEN + packet_size) :: u32) = HEADER_LEN + packet_size" by (rule unat_of_nat_u32)
    have "chop (HEADER_LEN + packet_size) (concat (map snd held)) = map snd held"
      using chop all unfolding cuts_evenly_def by (simp add: list_all_iff HEADER_LEN_def)
    with False mss buf pair show ?thesis by (simp add: send_segment_def del: of_nat_add)
  qed
  show "small_call (send_segment packet_size d (ga_buf a) (length held))"
    using held by (auto simp: small_call_def send_segment_def agg_holds_def)
qed

lemma flush_segment_sends:
  assumes "cuts_evenly chop" "sends chop packet_size st ds"
  shows "\<exists>st'. flush_segment packet_size st = Some st' \<and> sends chop packet_size st' ds \<and> agg_holds packet_size (ss_agg st') []"
proof -
  from assms(2) obtain held where held: "agg_holds packet_size (ss_agg st) held" "concat (map (on_wire chop) (ss_calls st)) @ held = ds"
    and rest: "list_all small_call (ss_calls st)" "ss_syscalls st = length (ss_calls st)" by (auto simp: sends_def)
  show ?thesis
  proof (cases "held = []")
    case True
    with held(1) have "ga_count (ss_agg st) = 0" by (simp add: agg_holds_def)
    with True held assms(2) show ?thesis by (simp add: flush_segment_def gso_finish_def)
  next
    case False
    then obtain d where d: "ga_dest (ss_agg st) = Some d" "ga_count (ss_agg st) = length held" "length held \<noteq> 0"
      using held(1) by (auto simp: agg_holds_def)
    have "agg_holds packet_size ((ss_agg st)\<lparr>ga_buf := [], ga_dest := None, ga_count := 0\<rparr>) []"
      using held(1) by (simp add: agg_holds_def)
    with d segment_on_wire [OF assms(1) held(1) False d(1)] held(2) rest show ?thesis
      by (auto simp: flush_segment_def gso_finish_def sends_def)
  qed
qed

lemma send_packet_sends:
  assumes "cuts_evenly chop" "sends chop packet_size st ds"
  shows "\<exists>st'. send_packet packet_size d st = Some st' \<and> sends chop packet_size st' (ds @ [d])"
proof (cases "try_push (ss_agg st) (fst d) (snd d)")
  case (Some a)
  with assms(2) try_push_holds [OF _ Some] show ?thesis by (fastforce simp: sends_def send_packet_def)
next
  case None
  from flush_segment_sends [OF assms] obtain st1 where
    st1: "flush_segment packet_size st = Some st1" "sends chop packet_size st1 ds" "agg_holds packet_size (ss_agg st1) []" by blast
  have "concat (map (on_wire chop) (ss_calls st1)) = ds" using st1(2,3) by (auto simp: sends_def agg_holds_def)
  with None st1 show ?thesis by (cases d) (auto simp: send_packet_def sends_def small_call_def)
qed

lemma send_batch_sends:
  assumes "cuts_evenly chop" "sends chop packet_size st ds"
  shows "\<exists>st'. send_batch_gso packet_size batch st = Some st' \<and> sends chop packet_size st' (ds @ batch) \<and> agg_holds packet_size (ss_agg st') []"
proof -
  have "\<exists>st'. foldM (send_packet packet_size) batch st = Some st' \<and> sends chop packet_size st' (ds @ batch)"
    using assms(2)
  proof (induction batch arbitrary: st ds)
    case (Cons d batch)
    from send_packet_sends [OF assms(1) Cons.prems, of d] obtain st1 where
      "send_packet packet_size d st = Some st1" "sends chop packet_size st1 (ds @ [d])" by blast
    with Cons.IH [of st1 "ds @ [d]"] show ?case by simp
  qed simp
  then obtain st1 where "foldM (send_packet packet_size) batch st = Some st1" "sends chop packet_size st1 (ds @ batch)" by blast
  with flush_segment_sends [OF assms(1), of packet_size st1 "ds @ batch"] show ?thesis by (simp add: send_batch_gso_def)
qed

lemma send_batches_sends:
  assumes "cuts_evenly chop"
  shows "sends chop packet_size st ds \<Longrightarrow> agg_holds packet_size (ss_agg st) [] \<Longrightarrow>
    \<exists>st'. foldM (send_batch_gso packet_size) batches st = Some st' \<and> sends chop packet_size st' (ds @ concat batches) \<and>
      agg_holds packet_size (ss_agg st') []"
proof (induction batches arbitrary: st ds)
  case (Cons batch batches)
  from send_batch_sends [OF assms Cons.prems(1), of batch] obtain st1 where
    "send_batch_gso packet_size batch st = Some st1" "sends chop packet_size st1 (ds @ batch)" "agg_holds packet_size (ss_agg st1) []" by blast
  with Cons.IH [of st1 "ds @ batch"] show ?case by simp
qed simp

section \<open>Property\<close>


text \<open>A segmentation that satisfies the hypothesis: equal pieces, the last one possibly shorter.\<close>

fun pieces :: "nat \<Rightarrow> nat \<Rightarrow> bytes \<Rightarrow> bytes list" where
  "pieces 0 n bs = []"
| "pieces (Suc fuel) n bs = (if bs = [] then [] else take n bs # pieces fuel n (drop n bs))"

lemma pieces_cut_evenly: "cuts_evenly (\<lambda>n bs. pieces (length bs) n bs)"
proof -
  have "pieces k n (concat ps) = ps" if "0 < n" "list_all (\<lambda>p. length p = n) ps" "length (concat ps) \<le> k" for k n and ps :: "bytes list"
    using that
  proof (induction ps arbitrary: k)
    case Nil
    then show ?case by (cases k) simp_all
  next
    case (Cons p ps)
    then obtain k' where k: "k = Suc k'" by (cases k) auto
    with Cons.prems have "pieces k' n (concat ps) = ps" by (intro Cons.IH) auto
    with Cons.prems k show ?case by auto
  qed
  then show ?thesis by (simp add: cuts_evenly_def)
qed


end
