(* ===== verification/Homa_Transport.thy ===== *)
theory Homa_Transport
  imports Homa_Reassembly Homa_Gso
begin

text \<open>
  The transport handle (\<^verbatim>\<open>crates/homa-rpc/src/transport/mod.rs\<close>): the two state machines behind
  one lock, the transmit queues, and the calls and threads that use them. Every definition is one
  stretch of the code that runs without giving up the lock; a call that takes the lock more than once, or waits on
  the condition variable, is one definition per stretch. The socket is represented by what
  is handed to it (\<open>nd_sent\<close>) and by what it answers (arguments). The trace buffer and the timing
  counters are not part of the state.
\<close>

section \<open>State\<close>

text \<open>
  \<open>nd_pending\<close> holds the calls of \<open>send_impl\<close> that have started their message and not yet passed
  its first packets on: the length of the message, its id and the actions.
\<close>

record tp_node =
  nd_cfg :: transport_config
  nd_sender :: sender_core
  nd_receiver :: receiver_core
  nd_completed :: "(sock_addr \<times> bytes) list"
  nd_tx :: tx_queues
  nd_counter :: u64
  nd_shutdown :: bool
  nd_recv_packets :: nat
  nd_io_batches :: nat
  nd_pending :: "(nat \<times> u64 \<times> tp_action list) list"
  nd_sent :: "datagram list"

definition tp_bind :: "transport_config \<Rightarrow> tp_node" where
  "tp_bind cfg = \<lparr>nd_cfg = cfg, nd_sender = sc_new cfg, nd_receiver = rc_new cfg, nd_completed = [], nd_tx = txq_new,
     nd_counter = 1, nd_shutdown = False, nd_recv_packets = 0, nd_io_batches = 0, nd_pending = [], nd_sent = []\<rparr>"

text \<open>\<open>drain\<close>: deliveries to the queue of \<open>recv\<close>, packets to the transmit queues.\<close>

fun drain_one :: "tp_action \<Rightarrow> tp_node \<Rightarrow> tp_node" where
  "drain_one (Deliver src mid data) nd = nd\<lparr>nd_completed := nd_completed nd @ [(src, data)]\<rparr>"
| "drain_one (Send dest bs) nd = nd\<lparr>nd_tx := txq_push dest bs (nd_tx nd)\<rparr>"

definition drain :: "tp_node \<Rightarrow> tp_action list \<Rightarrow> tp_node" where
  "drain nd acts = fold drain_one acts nd"

section \<open>Sending\<close>

text \<open>\<open>send_impl\<close> up to the release of the lock after the message was started.\<close>

definition send_begin :: "tp_node \<Rightarrow> sock_addr \<Rightarrow> bytes \<Rightarrow> bool \<Rightarrow> nat \<Rightarrow> (u64 \<times> tp_node) option" where
  "send_begin nd dest data retransmit now =
     (let mid = nd_counter nd;
          rt = (retransmit \<and> length data \<le> unscheduled_bytes (nd_cfg nd))
      in do {
        (sc, acts) \<leftarrow> (if rt then start_retransmit (nd_sender nd) dest mid data now else sc_start (nd_sender nd) dest mid data now);
        Some (mid, nd\<lparr>nd_counter := mid + 1, nd_sender := sc, nd_pending := nd_pending nd @ [(length data, mid, acts)]\<rparr>)
      })"

fun sends_of :: "tp_action list \<Rightarrow> datagram list" where
  "sends_of [] = []"
| "sends_of (Send dest bs # acts) = (dest, bs) # sends_of acts"
| "sends_of (Deliver src mid data # acts) = sends_of acts"

text \<open>
  The next stretch: a message that fits the unscheduled window is handed to the socket, which may
  refuse after \<open>k\<close> packets (\<open>fails = Some k\<close>); a longer one goes to the transmit queues, and
  the call goes on to wait (\<^term>\<open>None\<close>).
\<close>

definition send_queue :: "tp_node \<Rightarrow> nat \<Rightarrow> nat option \<Rightarrow> u64 result option \<times> tp_node" where
  "send_queue nd j fails =
     (case nd_pending nd ! j of (len, mid, acts) \<Rightarrow>
        let nd1 = nd\<lparr>nd_pending := take j (nd_pending nd) @ drop (Suc j) (nd_pending nd)\<rparr> in
        if len \<le> unscheduled_bytes (nd_cfg nd) then
          (case fails of
             None \<Rightarrow> (Some (Ok mid), nd1\<lparr>nd_sent := nd_sent nd1 @ sends_of acts\<rparr>)
           | Some k \<Rightarrow> (Some (Err OtherError), nd1\<lparr>nd_sent := nd_sent nd1 @ take k (sends_of acts)\<rparr>))
        else (None, drain nd1 acts))"

text \<open>One round of the waiting loop of \<open>send_impl\<close>; \<^term>\<open>None\<close> is another wait.\<close>

definition send_poll :: "tp_node \<Rightarrow> sock_addr \<Rightarrow> u64 \<Rightarrow> nat \<Rightarrow> nat \<Rightarrow> u64 result option \<times> tp_node" where
  "send_poll nd dest mid deadline now =
     (if is_done (nd_sender nd) dest mid then (Some (Ok mid), nd)
      else if deadline \<le> now then (Some (Err TimedOut), nd\<lparr>nd_sender := sc_finish (nd_sender nd) dest mid\<rparr>)
      else (None, nd))"

definition tp_confirm :: "tp_node \<Rightarrow> sock_addr \<Rightarrow> u64 \<Rightarrow> tp_node" where
  "tp_confirm nd dest mid = nd\<lparr>nd_sender := sc_confirm (nd_sender nd) dest mid\<rparr>"

definition tp_finish :: "tp_node \<Rightarrow> sock_addr \<Rightarrow> u64 \<Rightarrow> tp_node" where
  "tp_finish nd dest mid = nd\<lparr>nd_sender := sc_finish (nd_sender nd) dest mid\<rparr>"

text \<open>One round of a sending thread; the flag tells whether the thread goes on.\<close>

definition send_round :: "tp_node \<Rightarrow> bool \<times> tp_node" where
  "send_round nd =
     (case wait_batch FLUSH_BUDGET (nd_tx nd) of
        (None, tx) \<Rightarrow> (True, nd\<lparr>nd_tx := tx\<rparr>)
      | (Some batch, tx) \<Rightarrow> (\<not> (batch = [] \<and> nd_shutdown nd), nd\<lparr>nd_tx := tx, nd_sent := nd_sent nd @ batch\<rparr>))"

section \<open>Receiving\<close>

text \<open>One round of the loop of \<open>recv\<close>; \<^term>\<open>None\<close> is another wait.\<close>

definition tp_recv :: "tp_node \<Rightarrow> nat \<Rightarrow> nat \<Rightarrow> (sock_addr \<times> bytes) result option \<times> tp_node" where
  "tp_recv nd deadline now =
     (case nd_completed nd of
        (src, data) # rest \<Rightarrow> (Some (Ok (src, data)), nd\<lparr>nd_completed := rest\<rparr>)
      | [] \<Rightarrow> if deadline \<le> now then (Some (Err WouldBlock), nd) else (None, nd))"

type_synonym io_state = "sender_core \<times> receiver_core \<times> tp_action list \<times> nat"

definition handle_datagram :: "rc_order \<Rightarrow> sock_addr \<Rightarrow> nat \<Rightarrow> bytes \<Rightarrow> io_state \<Rightarrow> io_state option" where
  "handle_datagram ord src now chunk = (\<lambda>(sc, rc, acts, n).
     case pk_decode chunk of
       Err e \<Rightarrow> Some (sc, rc, acts, n)
     | Ok (p, payload) \<Rightarrow>
         (case pk_typ p of
            Data \<Rightarrow> do { (rc1, acts1) \<leftarrow> handle_data ord src p payload now (rc, acts); Some (sc, rc1, acts1, n + 1) }
          | Grant \<Rightarrow> do { (sc1, acts1) \<leftarrow> handle_grant sc src p now acts; Some (sc1, rc, acts1, n + 1) }
          | Resend \<Rightarrow> do { (sc1, acts1) \<leftarrow> handle_resend sc src p now acts; Some (sc1, rc, acts1, n + 1) }
          | Busy \<Rightarrow> Some (handle_busy sc src p now, rc, acts, n + 1)))"

text \<open>
  The buffer of one read, cut every \<open>stride\<close> bytes; the stride is positive when the buffer is not
  empty, so its length bounds the number of pieces.
\<close>

definition process_batch :: "rc_order \<Rightarrow> tp_node \<Rightarrow> sock_addr \<Rightarrow> bytes \<Rightarrow> nat \<Rightarrow> nat \<Rightarrow> tp_node option" where
  "process_batch ord nd src data stride now =
     (let st = (if stride = 0 then length data else stride) in do {
        (sc, rc, acts, n) \<leftarrow> foldM (handle_datagram ord src now) (pieces (length data) st data) (nd_sender nd, nd_receiver nd, [], 0);
        Some (drain (nd\<lparr>nd_sender := sc, nd_receiver := rc, nd_recv_packets := nd_recv_packets nd + n,
                        nd_io_batches := nd_io_batches nd + 1\<rparr>) acts)
      })"

definition tp_tick :: "rc_order \<Rightarrow> ((msg_key, out_msg) hmap \<Rightarrow> msg_key list) \<Rightarrow> tp_node \<Rightarrow> nat \<Rightarrow> tp_node option" where
  "tp_tick ord iter nd now = do {
     (sc, acts) \<leftarrow> sc_tick iter (nd_sender nd) now [];
     (rc, acts1) \<leftarrow> rc_tick ord now (nd_receiver nd, acts);
     Some (drain (nd\<lparr>nd_sender := sc, nd_receiver := rc\<rparr>) acts1)
   }"

definition TICK_INTERVAL :: nat where "TICK_INTERVAL = millis 5"

text \<open>
  One round of the receiving thread: what the socket returned (source, bytes, size of the
  pieces), the time of the batch, and the time at which the tick is considered.
\<close>

definition io_round :: "rc_order \<Rightarrow> ((msg_key, out_msg) hmap \<Rightarrow> msg_key list) \<Rightarrow> (sock_addr \<times> bytes \<times> nat) option \<Rightarrow>
    nat \<Rightarrow> nat \<Rightarrow> tp_node \<times> nat \<Rightarrow> (tp_node \<times> nat) option" where
  "io_round ord iter r t now = (\<lambda>(nd, last_tick).
     if nd_shutdown nd then Some (nd, last_tick)
     else do {
       nd1 \<leftarrow> (case r of None \<Rightarrow> Some nd | Some (src, data, stride) \<Rightarrow> process_batch ord nd src data stride t);
       if now - last_tick \<ge> TICK_INTERVAL then do { nd2 \<leftarrow> tp_tick ord iter nd1 now; Some (nd2, now) }
       else Some (nd1, last_tick)
     })"

definition tp_shutdown :: "tp_node \<Rightarrow> tp_node" where
  "tp_shutdown nd = nd\<lparr>nd_shutdown := True, nd_tx := txq_shutdown (nd_tx nd)\<rparr>"

end
