(* ===== verification/Homa_Actions.thy ===== *)
theory Homa_Actions
  imports Homa_Reassembly
begin

text \<open>
  The actions of the receiver: its operations append deliveries and control packets to the list they are
  given, independently of what that list holds.
\<close>

section \<open>What the receiver emits\<close>

text \<open>
  The operations of the receiver only append to the list of actions: deliveries, and packets
  that are not DATA.
\<close>

definition ctl_bytes :: "bytes \<Rightarrow> bool" where
  "ctl_bytes bs = (case pk_decode bs of Ok (p, body) \<Rightarrow> pk_typ p \<noteq> Data | Err e \<Rightarrow> True)"

fun rc_act :: "tp_action \<Rightarrow> bool" where
  "rc_act (Deliver src mid data) = True"
| "rc_act (Send dest bs) = ctl_bytes bs"

definition emits_at :: "(rc_state \<Rightarrow> rc_state option) \<Rightarrow> receiver_core \<Rightarrow> bool" where
  "emits_at f rc \<longleftrightarrow> (\<forall>acts. f (rc, acts) = None) \<or>
     (\<exists>rc' new. list_all rc_act new \<and> (\<forall>acts. f (rc, acts) = Some (rc', acts @ new)))"

lemma ctl_control: "t \<noteq> Data \<Longrightarrow> ctl_bytes (control_packet t prio mid off n)"
proof -
  assume "t \<noteq> Data"
  have "type_byte t \<noteq> 0" using \<open>t \<noteq> Data\<close> by (cases t) auto
  moreover have "control_packet t prio mid off n ! 0 = type_byte t" by (simp add: control_packet_def pk_encode_def packet_new_def)
  ultimately have "packet_type_from_u8 (control_packet t prio mid off n ! 0) \<noteq> Some Data" by (auto simp: packet_type_from_u8_def)
  then show ?thesis by (auto simp: ctl_bytes_def pk_decode_def Let_def split: option.splits result.splits)
qed

lemma emits_None: "(\<And>acts. f (rc, acts) = None) \<Longrightarrow> emits_at f rc"
  by (simp add: emits_at_def)

lemma emits_Some: "(\<And>acts. f (rc, acts) = Some (rc', acts @ new)) \<Longrightarrow> list_all rc_act new \<Longrightarrow> emits_at f rc"
  unfolding emits_at_def by blast

lemma emits_same: "(\<And>acts. f (rc, acts) = Some (rc', acts)) \<Longrightarrow> emits_at f rc"
  using emits_Some [of f rc rc' "[]"] by simp

lemma emits_eq: "(\<And>acts. f (rc, acts) = g (rc', acts)) \<Longrightarrow> emits_at g rc' \<Longrightarrow> emits_at f rc"
  by (simp add: emits_at_def)

lemma emits_app: "(\<And>acts. f (rc, acts) = g (rc', acts @ new)) \<Longrightarrow> list_all rc_act new \<Longrightarrow> emits_at g rc' \<Longrightarrow> emits_at f rc"
proof -
  assume f: "\<And>acts. f (rc, acts) = g (rc', acts @ new)" and new: "list_all rc_act new" and "emits_at g rc'"
  from this(3) consider "\<And>acts. g (rc', acts) = None"
    | rc2 new2 where "list_all rc_act new2" "\<And>acts. g (rc', acts) = Some (rc2, acts @ new2)" unfolding emits_at_def by blast
  then show ?thesis
  proof cases
    case 2
    with f new show ?thesis by (intro emits_Some [of f rc rc2 "new @ new2"]) auto
  qed (simp add: f emits_None)
qed

lemma emits_bind:
  assumes "emits_at f rc" "\<And>rc. emits_at g rc"
  shows "emits_at (\<lambda>s. Option.bind (f s) g) rc"
proof -
  from assms(1) consider "\<And>acts. f (rc, acts) = None"
    | rc1 new1 where "list_all rc_act new1" "\<And>acts. f (rc, acts) = Some (rc1, acts @ new1)" unfolding emits_at_def by blast
  then show ?thesis
  proof cases
    case 2
    then show ?thesis by (intro emits_app [OF _ 2(1) assms(2), of _ _ rc1]) simp
  qed (simp add: emits_None)
qed

lemma emits_fold: "(\<And>k rc. emits_at (\<lambda>s. Some (h k s)) rc) \<Longrightarrow> emits_at (\<lambda>s. Some (fold h ks s)) rc"
proof (induction ks arbitrary: rc)
  case Nil
  show ?case by (rule emits_same) simp
next
  case (Cons k ks)
  from emits_bind [OF Cons.prems Cons.IH [OF Cons.prems]] show ?case by simp
qed

lemma issue_grant_emits: "emits_at (\<lambda>s. Some (issue_grant now force key s)) rc"
proof (cases "hm_get (rc_incoming rc) key")
  case None
  then show ?thesis by (intro emits_same) (simp add: issue_grant_def)
next
  case (Some m)
  let ?target = "max (min (im_received_bytes m + grant_increment (rc_cfg rc)) (im_total_len m)) (im_granted_to m)"
  let ?quiet = "\<not> force \<and> (im_granted_to m - im_received_bytes m \<ge> grant_increment (rc_cfg rc) div 2 \<or> ?target = im_granted_to m)"
  show ?thesis
  proof (cases ?quiet)
    case True
    with Some show ?thesis by (intro emits_same) (auto simp: issue_grant_def Let_def)
  next
    case False
    with Some show ?thesis
      by (intro emits_Some [where new = "[Send (fst key) (control_packet Grant (priority_for_len (im_total_len m)) (snd key)
            ?target (?target - im_granted_to m))]"]) (auto simp: issue_grant_def Let_def ctl_control)
  qed
qed

lemma schedule_emits: "emits_at (schedule ord now) rc"
proof (cases "remaining_of (filter (\<lambda>(key, m). wants_grant m) (ro_iter ord (rc_incoming rc)))")
  case None
  then show ?thesis by (intro emits_None) (simp add: schedule_def)
next
  case (Some cands)
  let ?sel = "add_starving (rc_cfg rc) now (ro_iter ord (rc_incoming rc)) (map fst (take (max (overcommit (rc_cfg rc)) 1) (sort_key snd cands)))"
  from Some show ?thesis
    by (intro emits_eq [OF _ emits_fold [where h = "issue_grant now False" and ks = ?sel and rc = "rc\<lparr>rc_granting := ?sel\<rparr>", OF issue_grant_emits]])
      (simp add: schedule_def Let_def)
qed

lemma starve_loop_emits: "emits_at (starve_loop ord now n) rc"
proof (induction n arbitrary: rc)
  case 0
  show ?case by (rule emits_same) simp
next
  case (Suc n)
  obtain t k where tk: "ro_top ord (rc_starve_queue rc) = (t, k)" by (metis surj_pair)
  let ?rc = "rc\<lparr>rc_starve_queue := remove1 (t, k) (rc_starve_queue rc)\<rparr>"
  let ?starved = "case hm_get (rc_incoming ?rc) k of None \<Rightarrow> False
    | Some m \<Rightarrow> k \<notin> set (rc_granting ?rc) \<and> im_granted_to m < im_total_len m \<and> now - im_last_grant m \<ge> starve_threshold (rc_cfg ?rc)"
  consider "rc_starve_queue rc = [] \<or> now < t" | "rc_starve_queue rc \<noteq> []" "\<not> now < t" ?starved
    | "rc_starve_queue rc \<noteq> []" "\<not> now < t" "\<not> ?starved" by blast
  then show ?case
  proof cases
    case 1
    then show ?thesis by (intro emits_same) (auto simp: tk)
  next
    case 2
    with tk show ?thesis by (intro emits_eq [OF _ schedule_emits [of ord now ?rc]]) (simp add: Let_def)
  next
    case 3
    with tk show ?thesis by (intro emits_eq [OF _ Suc.IH [of ?rc]]) (simp add: Let_def)
  qed
qed

lemma starve_check_emits: "emits_at (starve_check ord now) rc"
  by (intro emits_eq [OF _ starve_loop_emits]) (simp add: starve_check_def)

lemma deliver_emits: "emits_at (\<lambda>s. Some (deliver key src data s)) rc"
  by (intro emits_Some [where new = "[Deliver src (snd key) data]"]) (auto simp: deliver_def Let_def)

lemma deliver_schedule_emits: "emits_at (\<lambda>s. schedule ord now (deliver key src data s)) rc"
  using emits_bind [OF deliver_emits schedule_emits] by simp

lemma data_for_emits: "emits_at (data_for ord src p body now is_new m) rc"
proof -
  let ?key = "(src, msg_id p)" and ?len = "unat (msg_len p)" and ?ps = "packet_size (rc_cfg rc)"
  show ?thesis
  proof (cases "?len = 0")
    case True
    then show ?thesis
      by (intro emits_eq [OF _ deliver_schedule_emits [of ord now ?key src "[]" "rc_put rc ?key m"]]) (simp add: data_for_def Let_def)
  next
    case len: False
    show ?thesis
    proof (cases "accept_chunk ?ps ?len (unat (offset p)) body now m")
      case None
      with len show ?thesis by (intro emits_None) (simp add: data_for_def Let_def)
    next
      case (Some m1)
      show ?thesis
      proof (cases "im_complete m1")
        case True
        with len Some show ?thesis
          by (intro emits_eq [OF _ deliver_schedule_emits [of ord now ?key src "im_buf m1" "rc_put rc ?key m1"]])
            (simp add: data_for_def Let_def)
      next
        case False
        let ?f = "\<lambda>s. if is_new then schedule ord now s
          else if ?key \<in> set (rc_granting rc) then Some (issue_grant now False ?key s) else Some s"
        have "emits_at ?f (rc_put rc ?key m1)"
          using schedule_emits [of ord now] issue_grant_emits [of now False ?key] emits_same [of Some "rc_put rc ?key m1" "rc_put rc ?key m1"]
          by (cases is_new; cases "?key \<in> set (rc_granting rc)") simp_all
        from emits_bind [OF this starve_check_emits] have "emits_at (\<lambda>s. Option.bind (?f s) (starve_check ord now)) (rc_put rc ?key m1)" .
        with False len Some show ?thesis by (elim emits_eq [rotated]) (simp add: data_for_def Let_def)
      qed
    qed
  qed
qed

lemma handle_data_emits: "emits_at (handle_data ord src p body now) rc"
proof -
  let ?key = "(src, msg_id p)" and ?len = "unat (msg_len p)" and ?ps = "packet_size (rc_cfg rc)"
  let ?rc = "rc\<lparr>rc_starve_queue := (now + starve_threshold (rc_cfg rc), ?key) # rc_starve_queue rc\<rparr>"
  show ?thesis
  proof (cases "?key \<in> set (rc_completed rc) \<or> ?len > MAX_MSG_LEN")
    case True
    then show ?thesis by (intro emits_same [of _ rc rc]) (auto simp: handle_data_def Let_def)
  next
    case new: False
    show ?thesis
    proof (cases "hm_get (rc_incoming rc) ?key")
      case None
      consider "max_incoming (rc_cfg rc) \<le> length (rc_incoming rc)" | "\<not> max_incoming (rc_cfg rc) \<le> length (rc_incoming rc)" "?ps = 0"
        | "\<not> max_incoming (rc_cfg rc) \<le> length (rc_incoming rc)" "?ps \<noteq> 0" by blast
      then show ?thesis
      proof cases
        case 1
        with new None show ?thesis
          by (intro emits_Some [where new = "[Send src (control_packet Busy 0 (msg_id p) 0 0)]"]) (auto simp: handle_data_def Let_def ctl_control)
      next
        case 2
        with new None show ?thesis by (intro emits_None) (simp add: handle_data_def Let_def)
      next
        case 3
        let ?m = "fresh_in_msg ?len ?ps (min (unscheduled_bytes (rc_cfg rc)) ?len) now"
        from 3 new None show ?thesis
          by (intro emits_eq [OF _ data_for_emits [of ord src p body now True ?m ?rc]]) (simp add: handle_data_def Let_def)
      qed
    next
      case (Some m)
      show ?thesis
      proof (cases "?len \<noteq> 0 \<and> ?ps = 0")
        case True
        with new Some show ?thesis by (intro emits_None) (simp add: handle_data_def Let_def)
      next
        case False
        with new Some show ?thesis
          by (intro emits_eq [OF _ data_for_emits [of ord src p body now False m rc]]) (auto simp: handle_data_def Let_def)
      qed
    qed
  qed
qed

lemma regrant_stalled_emits: "emits_at (\<lambda>s. Some (regrant_stalled now key m s)) rc"
proof -
  let ?rc = "rc_put rc key (m\<lparr>im_last_progress := now\<rparr>)"
  consider "now - im_last_progress m \<ge> grant_timeout (rc_cfg rc)" "key \<in> set (rc_granting ?rc)"
    | "now - im_last_progress m \<ge> grant_timeout (rc_cfg rc)" "key \<notin> set (rc_granting ?rc)"
    | "\<not> now - im_last_progress m \<ge> grant_timeout (rc_cfg rc)" by blast
  then show ?thesis
  proof cases
    case 1
    then show ?thesis by (intro emits_eq [OF _ issue_grant_emits [of now True key ?rc]]) (simp add: regrant_stalled_def Let_def)
  next
    case 2
    then show ?thesis by (intro emits_same) (auto simp: regrant_stalled_def Let_def)
  next
    case 3
    then show ?thesis by (intro emits_same) (auto simp: regrant_stalled_def)
  qed
qed

lemma rc_tick_one_emits: "emits_at (\<lambda>s. Some (rc_tick_one now key s)) rc"
proof (cases "hm_get (rc_incoming rc) key")
  case None
  then show ?thesis by (intro emits_same) (simp add: rc_tick_one_def)
next
  case (Some m)
  show ?thesis
  proof (cases "now - im_last_progress m < resend_timeout (rc_cfg rc)")
    case True
    with Some show ?thesis by (intro emits_same) (simp add: rc_tick_one_def)
  next
    case late: False
    show ?thesis
    proof (cases "\<exists>off. first_missing_offset m (packet_size (rc_cfg rc)) = Some off \<and> off < im_granted_to m")
      case True
      then obtain off where off: "first_missing_offset m (packet_size (rc_cfg rc)) = Some off" "off < im_granted_to m" by blast
      let ?new = "[Send (fst key) (control_packet Resend (priority_for_len (im_total_len m)) (snd key) off
          (min (im_granted_to m - off) (grant_increment (rc_cfg rc))))]"
      have "list_all rc_act ?new" by (simp add: ctl_control)
      with off late Some show ?thesis
        by (cases "im_unanswered_resends m + 1 > MAX_UNANSWERED_RESENDS")
          (intro emits_Some [where new = ?new], auto simp: rc_tick_one_def Let_def)+
    next
      case False
      with late Some show ?thesis
        by (intro emits_eq [OF _ regrant_stalled_emits [of now key m rc]]) (auto simp: rc_tick_one_def Let_def split: option.split)
    qed
  qed
qed

lemma rc_tick_emits: "emits_at (rc_tick ord now) rc"
proof -
  let ?keys = "map fst (ro_iter ord (rc_incoming rc))"
  have "emits_at (\<lambda>s. Option.bind (Some (fold (rc_tick_one now) ?keys s)) (schedule ord now)) rc"
    by (rule emits_bind [OF emits_fold [OF rc_tick_one_emits] schedule_emits])
  then show ?thesis by (elim emits_eq [rotated]) (simp add: rc_tick_def)
qed

end
