(* ===== verification/Homa_Network.thy ===== *)
theory Homa_Network
  imports Homa_Transport Homa_Actions
begin

text \<open>
  A network of transports. Any number of nodes exchange datagrams over a network that loses,
  repeats and reorders them; every call and thread of every node takes its steps in any interleaving.
\<close>

section \<open>The network\<close>

text \<open>
  Nodes by address, with the history of the messages handed to \<open>send\<close> (source, destination and id, bytes)
  and of the messages that \<open>recv\<close> returned (receiver, source, bytes).
\<close>

type_synonym send_log = "(sock_addr \<times> msg_key \<times> bytes) list"

record net =
  nt_nodes :: "(sock_addr, tp_node) hmap"
  nt_started :: send_log
  nt_got :: "(sock_addr \<times> sock_addr \<times> bytes) list"

definition net_init :: "transport_config \<Rightarrow> sock_addr list \<Rightarrow> net" where
  "net_init cfg addrs = \<lparr>nt_nodes = map (\<lambda>a. (a, tp_bind cfg)) addrs, nt_started = [], nt_got = []\<rparr>"

datatype net_event =
    NetSend sock_addr sock_addr bytes bool nat
  | NetQueue sock_addr nat "nat option"
  | NetPoll sock_addr sock_addr u64 nat nat
  | NetConfirm sock_addr sock_addr u64
  | NetFinish sock_addr sock_addr u64
  | NetRound sock_addr
  | NetArrive sock_addr sock_addr bytes rc_order nat
  | NetTick sock_addr rc_order "(msg_key, out_msg) hmap \<Rightarrow> msg_key list" nat
  | NetRecv sock_addr nat nat
  | NetShutdown sock_addr

fun at_node :: "net_event \<Rightarrow> sock_addr" where
  "at_node (NetSend a dest data rt now) = a"
| "at_node (NetQueue a j fails) = a"
| "at_node (NetPoll a dest mid deadline now) = a"
| "at_node (NetConfirm a dest mid) = a"
| "at_node (NetFinish a dest mid) = a"
| "at_node (NetRound a) = a"
| "at_node (NetArrive a src bs ord now) = a"
| "at_node (NetTick a ord iter now) = a"
| "at_node (NetRecv a deadline now) = a"
| "at_node (NetShutdown a) = a"

text \<open>The step of a node; \<^term>\<open>None\<close> is a panic. With it, what it adds to the two histories.\<close>

fun node_step :: "net_event \<Rightarrow> tp_node \<Rightarrow> (tp_node \<times> send_log \<times> (sock_addr \<times> sock_addr \<times> bytes) list) option" where
  "node_step (NetSend a dest data rt now) nd = do {
     (mid, nd1) \<leftarrow> send_begin nd dest data rt now; Some (nd1, [(a, (dest, mid), data)], []) }"
| "node_step (NetQueue a j fails) nd = Some (snd (send_queue nd j fails), [], [])"
| "node_step (NetPoll a dest mid deadline now) nd = Some (snd (send_poll nd dest mid deadline now), [], [])"
| "node_step (NetConfirm a dest mid) nd = Some (tp_confirm nd dest mid, [], [])"
| "node_step (NetFinish a dest mid) nd = Some (tp_finish nd dest mid, [], [])"
| "node_step (NetRound a) nd = Some (snd (send_round nd), [], [])"
| "node_step (NetArrive a src bs ord now) nd = do { nd1 \<leftarrow> process_batch ord nd src bs (length bs) now; Some (nd1, [], []) }"
| "node_step (NetTick a ord iter now) nd = do { nd1 \<leftarrow> tp_tick ord iter nd now; Some (nd1, [], []) }"
| "node_step (NetRecv a deadline now) nd =
     (case tp_recv nd deadline now of
        (Some (Ok (src, data)), nd1) \<Rightarrow> Some (nd1, [], [(a, src, data)])
      | (_, nd1) \<Rightarrow> Some (nd1, [], []))"
| "node_step (NetShutdown a) nd = Some (tp_shutdown nd, [], [])"

definition net_exec :: "net \<Rightarrow> net_event \<Rightarrow> net option" where
  "net_exec net ev = do {
     nd \<leftarrow> hm_get (nt_nodes net) (at_node ev);
     (nd1, st, got) \<leftarrow> node_step ev nd;
     Some \<lparr>nt_nodes = hm_insert (at_node ev) nd1 (nt_nodes net), nt_started = nt_started net @ st, nt_got = nt_got net @ got\<rparr>
   }"

text \<open>
  What may happen: a message of at most the maximal length is sent while the counter of message ids has not wrapped
  around; a datagram arrives that its source has handed to its socket. With \<open>strict\<close>, RESEND
  requests that do not end at a packet boundary or at the end of the message are lost.
\<close>

definition no_stray_resend :: "tp_node \<Rightarrow> sock_addr \<Rightarrow> bytes \<Rightarrow> bool" where
  "no_stray_resend nd src bs = (case pk_decode bs of
     Ok (p, body) \<Rightarrow> pk_typ p = Resend \<longrightarrow> resend_fits (packet_size (nd_cfg nd)) (nd_sender nd) src p
   | Err e \<Rightarrow> True)"

fun may_happen :: "bool \<Rightarrow> net \<Rightarrow> tp_node \<Rightarrow> net_event \<Rightarrow> bool" where
  "may_happen strict net nd (NetSend a dest data rt now) = (length data \<le> MAX_MSG_LEN \<and> nd_counter nd \<noteq> 0)"
| "may_happen strict net nd (NetQueue a j fails) = (j < length (nd_pending nd))"
| "may_happen strict net nd (NetArrive a src bs ord now) =
     ((case hm_get (nt_nodes net) src of None \<Rightarrow> False | Some nd' \<Rightarrow> (a, bs) \<in> set (nd_sent nd')) \<and>
      (strict \<longrightarrow> no_stray_resend nd src bs))"
| "may_happen strict net nd _ = True"

definition enabled :: "bool \<Rightarrow> net \<Rightarrow> net_event \<Rightarrow> bool" where
  "enabled strict net ev = (case hm_get (nt_nodes net) (at_node ev) of None \<Rightarrow> False | Some nd \<Rightarrow> may_happen strict net nd ev)"

text \<open>The iteration orders a step uses are orders of the table.\<close>

fun orders_ok :: "net_event \<Rightarrow> bool" where
  "orders_ok (NetArrive a src bs ord now) = order_ok ord"
| "orders_ok (NetTick a ord iter now) = order_ok ord"
| "orders_ok _ = True"

inductive net_reach :: "bool \<Rightarrow> transport_config \<Rightarrow> sock_addr list \<Rightarrow> net \<Rightarrow> bool" for strict cfg addrs where
  net_start: "net_reach strict cfg addrs (net_init cfg addrs)"
| net_next: "net_reach strict cfg addrs net \<Longrightarrow> enabled strict net ev \<Longrightarrow> orders_ok ev \<Longrightarrow> net_exec net ev = Some net' \<Longrightarrow>
    net_reach strict cfg addrs net'"

text \<open>The same as a run over a list of events; \<^term>\<open>None\<close> when one of them cannot happen.\<close>

fun net_run :: "bool \<Rightarrow> net \<Rightarrow> net_event list \<Rightarrow> net option" where
  "net_run strict net [] = Some net"
| "net_run strict net (ev # evs) = (if enabled strict net ev then Option.bind (net_exec net ev) (\<lambda>net'. net_run strict net' evs) else None)"

lemma net_run_reach:
  "net_reach strict cfg addrs net \<Longrightarrow> list_all orders_ok evs \<Longrightarrow> net_run strict net evs = Some net' \<Longrightarrow> net_reach strict cfg addrs net'"
  by (induction evs arbitrary: net) (auto simp: bind_eq_Some_conv split: if_splits intro: net_next)

section \<open>Invariant\<close>

definition started_at :: "send_log \<Rightarrow> sock_addr \<Rightarrow> (msg_key \<times> bytes) set" where
  "started_at st a = {(key, data). (a, key, data) \<in> set st}"

definition content_at :: "send_log \<Rightarrow> sock_addr \<Rightarrow> msg_key \<Rightarrow> bytes option" where
  "content_at st a = (\<lambda>(src, mid). map_of (map (\<lambda>(s, key, data). ((s, key), data)) st) (src, (a, mid)))"

definition sent_to :: "send_log \<Rightarrow> sock_addr \<Rightarrow> sock_addr \<Rightarrow> bytes \<Rightarrow> bool" where
  "sent_to st src a data \<longleftrightarrow> (\<exists>mid. (src, (a, mid), data) \<in> set st)"

definition log_ok :: "send_log \<Rightarrow> bool" where
  "log_ok st \<longleftrightarrow> distinct (map (\<lambda>(s, key, data). (s, snd key)) st) \<and> (\<forall>(s, key, data) \<in> set st. length data \<le> MAX_MSG_LEN)"

text \<open>A datagram of a node: a control packet, or a chunk of a message the node was given.\<close>

definition wire_ok :: "nat \<Rightarrow> (msg_key \<times> bytes) set \<Rightarrow> datagram \<Rightarrow> bool" where
  "wire_ok ps S d \<longleftrightarrow> ctl_bytes (snd d) \<or> (\<exists>(key, data) \<in> S. sends_chunk ps data key (Send (fst d) (snd d)))"

definition all_sends :: "tp_node \<Rightarrow> datagram set" where
  "all_sends nd = set (nd_sent nd) \<union> set (txq_order (nd_tx nd)) \<union> (\<Union>(l, i, acts) \<in> set (nd_pending nd). set (sends_of acts))"

definition node_ok :: "transport_config \<Rightarrow> send_log \<Rightarrow> sock_addr \<Rightarrow> tp_node \<Rightarrow> bool" where
  "node_ok cfg st a nd \<longleftrightarrow> nd_cfg nd = cfg \<and> sc_ok (packet_size cfg) (started_at st a) True (nd_sender nd) \<and> txq_wf (nd_tx nd) \<and>
     (\<forall>d \<in> all_sends nd. wire_ok (packet_size cfg) (started_at st a) d) \<and>
     (\<forall>(l, i, acts) \<in> set (nd_pending nd). delivered acts = []) \<and>
     (\<exists>hist. rc_ok cfg (content_at st a) (nd_receiver nd, hist)) \<and>
     (\<forall>(src, data) \<in> set (nd_completed nd). sent_to st src a data) \<and>
     (nd_counter nd = 0 \<or> (\<forall>(key, data) \<in> started_at st a. unat (snd key) < unat (nd_counter nd)))"

definition net_ok :: "transport_config \<Rightarrow> net \<Rightarrow> bool" where
  "net_ok cfg net \<longleftrightarrow> hm_wf (nt_nodes net) \<and> log_ok (nt_started net) \<and>
     (\<forall>a nd. hm_get (nt_nodes net) a = Some nd \<longrightarrow> node_ok cfg (nt_started net) a nd) \<and>
     (\<forall>(a, src, data) \<in> set (nt_got net). sent_to (nt_started net) src a data)"

section \<open>Logs and contents\<close>

lemma log_ok_keys: "log_ok st \<Longrightarrow> distinct (map fst (map (\<lambda>(s, key, data). ((s, key), data)) st))"
proof -
  assume "log_ok st"
  then have "distinct (map (\<lambda>(s, key, data). (s, snd key)) st)" by (simp add: log_ok_def)
  also have "map (\<lambda>(s, key, data). (s, snd key)) st = map (\<lambda>(s, key). (s, snd key)) (map fst (map (\<lambda>(s, key, data). ((s, key), data)) st))"
    by auto
  finally show ?thesis unfolding distinct_map [of "\<lambda>(s, key). (s, snd key)"] by blast
qed

lemma content_at_Some: "log_ok st \<Longrightarrow> content_at st a (src, mid) = Some data \<longleftrightarrow> (src, (a, mid), data) \<in> set st"
  using map_of_eq_Some_iff [OF log_ok_keys, of st "(src, (a, mid))" data] by (force simp: content_at_def)

lemma content_at_more: "content_at st a key = Some data \<Longrightarrow> content_at (st @ new) a key = Some data"
  by (cases key) (simp add: content_at_def)

lemma started_at_more: "started_at st a \<subseteq> started_at (st @ new) a"
  by (auto simp: started_at_def)

lemma sent_to_more: "sent_to st src a data \<Longrightarrow> sent_to (st @ new) src a data"
  by (auto simp: sent_to_def)

lemma wire_ok_more: "wire_ok ps S d \<Longrightarrow> S \<subseteq> S' \<Longrightarrow> wire_ok ps S' d"
  unfolding wire_ok_def by blast

lemma rc_ok_more:
  assumes "rc_ok cfg content s" "\<And>key data. content key = Some data \<Longrightarrow> content' key = Some data"
  shows "rc_ok cfg content' s"
proof -
  have "on_track ps content key m \<Longrightarrow> on_track ps content' key m" for ps key m
    using assms(2) unfolding on_track_def by blast
  then show ?thesis using assms unfolding rc_ok_def rc_inv_def by blast
qed

lemma node_ok_more:
  assumes "node_ok cfg st a nd" "\<forall>(s, key, data) \<in> set new. s \<noteq> a"
  shows "node_ok cfg (st @ new) a nd"
proof -
  have "started_at (st @ new) a = started_at st a" using assms(2) by (auto simp: started_at_def)
  with assms(1) show ?thesis unfolding node_ok_def
    by (auto intro: sent_to_more rc_ok_more [OF _ content_at_more])
qed

section \<open>Actions and queues\<close>

text \<open>The actions of the sender are chunks, those of the receiver control packets and deliveries.\<close>

lemma sends_of_append [simp]: "sends_of (xs @ ys) = sends_of xs @ sends_of ys"
  by (induction xs rule: sends_of.induct) auto

lemma sender_acts:
  "list_all (act_ok ps S True) acts \<Longrightarrow> delivered acts = [] \<and> (\<forall>d \<in> set (sends_of acts). wire_ok ps S d)"
proof (induction acts)
  case (Cons act acts)
  then obtain key data where "(key, data) \<in> S" "sends_chunk ps data key act" by (auto simp: act_ok_def)
  moreover from this(2) obtain dest bs where "act = Send dest bs" unfolding sends_chunk_def seg_act_def by blast
  ultimately show ?case using Cons by (auto simp: wire_ok_def)
qed simp

lemma receiver_acts: "list_all rc_act acts \<Longrightarrow> d \<in> set (sends_of acts) \<Longrightarrow> wire_ok ps S d"
  by (induction acts rule: sends_of.induct) (auto simp: wire_ok_def)

lemma drain_eq:
  "drain nd acts = nd\<lparr>nd_completed := nd_completed nd @ map (\<lambda>((src, mid), data). (src, data)) (delivered acts),
     nd_tx := fold (\<lambda>(dest, bs). txq_push dest bs) (sends_of acts) (nd_tx nd)\<rparr>"
  unfolding drain_def by (induction acts arbitrary: nd rule: sends_of.induct) simp_all

lemma set_push_order: "txq_wf q \<Longrightarrow> set (txq_order (txq_push dest bs q)) = insert (dest, bs) (set (txq_order q))"
proof -
  assume wf: "txq_wf q"
  have "x \<in> set xs \<longleftrightarrow> x \<in> set (of_class (tx_class x) xs)" for x xs by simp
  from this [of _ "txq_order (txq_push dest bs q)"] this [of _ "txq_order q @ [(dest, bs)]"] push_class [OF wf] show ?thesis
    by (intro set_eqI) (simp add: push_class [OF wf] del: filter_append)
qed

lemma push_all:
  "txq_wf q \<Longrightarrow> txq_wf (fold (\<lambda>(dest, bs). txq_push dest bs) ds q) \<and>
     set (txq_order (fold (\<lambda>(dest, bs). txq_push dest bs) ds q)) = set ds \<union> set (txq_order q)"
  by (induction ds arbitrary: q) (auto simp: txq_wf_push set_push_order)

lemma node_ok_drain:
  assumes ok: "node_ok cfg st a nd" and sends: "\<forall>d \<in> set (sends_of acts). wire_ok (packet_size cfg) (started_at st a) d"
    and dels: "\<forall>(key, data) \<in> set (delivered acts). sent_to st (fst key) a data"
  shows "node_ok cfg st a (drain nd acts)"
proof -
  have "txq_wf (nd_tx nd)" using ok by (simp add: node_ok_def)
  from push_all [OF this, of "sends_of acts"] ok sends dels show ?thesis
    unfolding node_ok_def drain_eq all_sends_def by fastforce
qed

text \<open>A chunk of a message of another node is recognised as such.\<close>

lemma chunk_arrives:
  assumes log: "log_ok st" and key: "(key, data) \<in> started_at st src" and ch: "sends_chunk ps data key (Send a bs)"
  shows "\<exists>p body i. pk_decode bs = Ok (p, body) \<and> pk_typ p = Data \<and> carries_chunk ps (content_at st a) src p body i"
proof -
  from ch obtain i where i: "Send a bs = seg_act ps data key (i * ps)" "i * ps < length data \<or> data = [] \<and> i = 0"
    by (auto simp: sends_chunk_def)
  let ?e = "min (i * ps + ps) (length data)"
  let ?p = "packet_new Data (priority_for_len (length data)) (snd key) (of_nat (length data)) (of_nat (i * ps)) (of_nat (?e - i * ps))"
  let ?body = "take (?e - i * ps) (drop (i * ps) data)"
  have mem: "(src, (a, snd key), data) \<in> set st" using i(1) key by (cases key) (auto simp: seg_act_def started_at_def)
  have bs: "bs = pk_encode ?p ?body" using i(1) by (simp add: seg_act_def seg_packet_def)
  have small: "length data \<le> MAX_MSG_LEN" using log mem by (auto simp: log_ok_def)
  then have len: "length data \<le> u32_max" by (simp add: MAX_MSG_LEN_def)
  then have u: "unat (of_nat n :: u32) = n" if "n \<le> length data" for n using that by (intro unat_of_nat_u32) linarith
  have le: "i * ps \<le> length data" "?e - i * ps \<le> length data" using i(2) by auto
  have "length ?body = ?e - i * ps" by auto
  then have "pk_wf ?p ?body" using u [OF le(2)] by (simp add: pk_wf_def packet_new_def)
  then have "pk_decode bs = Ok (?p, ?body)" unfolding bs by (rule pk_round)
  moreover have "?body = chunk_body ps data i" by (auto simp: chunk_body_def min_def)
  moreover have "content_at st a (src, snd key) = Some data" using mem content_at_Some [OF log] by simp
  ultimately show ?thesis using i(2) small u [OF le(1)] u [of "length data"]
    by (intro exI [of _ ?p] exI [of _ ?body] exI [of _ i]) (simp add: carries_chunk_def packet_new_def)
qed

section \<open>Steps of a node\<close>

lemma node_ok_ids:
  "node_ok cfg st a nd \<Longrightarrow> nd_counter nd \<noteq> 0 \<Longrightarrow> (key, data) \<in> started_at st a \<Longrightarrow> unat (snd key) < unat (nd_counter nd)"
  unfolding node_ok_def by blast

lemma node_ok_rc: "node_ok cfg st a nd \<Longrightarrow> \<exists>hist. rc_ok cfg (content_at st a) (nd_receiver nd, hist)"
  unfolding node_ok_def by blast

lemma node_ok_cores:
  "node_ok cfg st a nd \<Longrightarrow> sc_ok (packet_size cfg) (started_at st a) True sc \<Longrightarrow> rc_ok cfg (content_at st a) (rc, hist) \<Longrightarrow>
   node_ok cfg st a (nd\<lparr>nd_sender := sc, nd_receiver := rc, nd_recv_packets := x, nd_io_batches := y\<rparr>)"
  unfolding node_ok_def all_sends_def by auto

lemma receiver_step:
  assumes log: "log_ok st" and em: "emits_at f rc" and run: "f (rc, hist) = Some s'" "rc_ok cfg (content_at st a) s'"
  shows "\<exists>rc' new hist'. (\<forall>acts. f (rc, acts) = Some (rc', acts @ new)) \<and> rc_ok cfg (content_at st a) (rc', hist') \<and>
    (\<forall>d \<in> set (sends_of new). wire_ok ps S d) \<and> (\<forall>(key, data) \<in> set (delivered new). sent_to st (fst key) a data)"
proof -
  from em run(1) obtain rc' new where f: "\<And>acts. f (rc, acts) = Some (rc', acts @ new)" "list_all rc_act new"
    unfolding emits_at_def by force
  with run have ok: "rc_ok cfg (content_at st a) (rc', hist @ new)" by simp
  then have "content_at st a key = Some data" if "(key, data) \<in> set (delivered new)" for key data
    using that unfolding rc_ok_def by auto
  then have "\<forall>(key, data) \<in> set (delivered new). sent_to st (fst key) a data"
    using content_at_Some [OF log] unfolding sent_to_def by fastforce
  with f ok receiver_acts [OF f(2)] show ?thesis by blast
qed

lemma data_arrives:
  assumes ok: "node_ok cfg st a nd" and log: "log_ok st" and ps: "0 < packet_size cfg" and ord: "order_ok ord"
    and ch: "carries_chunk (packet_size cfg) (content_at st a) src p body i"
  shows "\<exists>rc new hist. handle_data ord src p body now (nd_receiver nd, []) = Some (rc, new) \<and> rc_ok cfg (content_at st a) (rc, hist) \<and>
    (\<forall>d \<in> set (sends_of new). wire_ok (packet_size cfg) (started_at st a) d) \<and>
    (\<forall>(key, data) \<in> set (delivered new). sent_to st (fst key) a data)"
proof -
  from ok obtain hist where hist: "rc_ok cfg (content_at st a) (nd_receiver nd, hist)" by (auto simp: node_ok_def)
  from handle_data_ok [OF hist ps ord ch, of now] obtain s' where
    "handle_data ord src p body now (nd_receiver nd, hist) = Some s'" "rc_ok cfg (content_at st a) s'" by blast
  from receiver_step [OF log handle_data_emits this, of "packet_size cfg" "started_at st a"] show ?thesis by fastforce
qed

text \<open>Whatever the sender does with a control packet, it stays in order and sends chunks.\<close>

lemma sender_step:
  assumes "op_ok ps S True [] r"
  shows "\<exists>sc new. r = Some (sc, new) \<and> sc_ok ps S True sc \<and> delivered new = [] \<and> (\<forall>d \<in> set (sends_of new). wire_ok ps S d)"
  using assms sender_acts unfolding op_ok_def by fastforce

definition datagram_done :: "transport_config \<Rightarrow> send_log \<Rightarrow> sock_addr \<Rightarrow> io_state option \<Rightarrow> bool" where
  "datagram_done cfg st a r \<longleftrightarrow> (\<exists>sc rc acts n hist. r = Some (sc, rc, acts, n) \<and>
     sc_ok (packet_size cfg) (started_at st a) True sc \<and> rc_ok cfg (content_at st a) (rc, hist) \<and>
     (\<forall>d \<in> set (sends_of acts). wire_ok (packet_size cfg) (started_at st a) d) \<and>
     (\<forall>(key, data) \<in> set (delivered acts). sent_to st (fst key) a data))"

lemma datagram_ok:
  assumes ok: "node_ok cfg st a nd" and log: "log_ok st" and ps: "0 < packet_size cfg" and ord: "order_ok ord"
    and bs: "wire_ok (packet_size cfg) (started_at st src) (a, bs)" and fit: "no_stray_resend nd src bs"
  shows "datagram_done cfg st a (handle_datagram ord src now bs (nd_sender nd, nd_receiver nd, [], 0))"
proof -
  let ?ps = "packet_size cfg" and ?S = "started_at st a"
  have sc: "sc_ok ?ps ?S True (nd_sender nd)" and cfg: "nd_cfg nd = cfg" using ok by (simp_all add: node_ok_def)
  from ok obtain hist where hist: "rc_ok cfg (content_at st a) (nd_receiver nd, hist)" by (auto simp: node_ok_def)
  show ?thesis
  proof (cases "pk_decode bs")
    case (Err e)
    with sc hist show ?thesis unfolding datagram_done_def by (intro exI [of _ "nd_sender nd"] exI [of _ "nd_receiver nd"] exI [of _ "[]"]) (auto simp: handle_datagram_def)
  next
    case (Ok pb)
    obtain p body where pb: "pb = (p, body)" by fastforce
    show ?thesis
    proof (cases "pk_typ p")
      case Data
      then have "\<not> ctl_bytes bs" using Ok pb by (simp add: ctl_bytes_def)
      then obtain key data where "(key, data) \<in> started_at st src" "sends_chunk ?ps data key (Send a bs)" using bs by (auto simp: wire_ok_def)
      from chunk_arrives [OF log this] Ok pb obtain i where ch: "carries_chunk ?ps (content_at st a) src p body i" by auto
      from data_arrives [OF ok log ps ord ch, of now] obtain rc new hist' where
        d: "handle_data ord src p body now (nd_receiver nd, []) = Some (rc, new)" "rc_ok cfg (content_at st a) (rc, hist')"
          "\<forall>d \<in> set (sends_of new). wire_ok ?ps ?S d" "\<forall>(key, data) \<in> set (delivered new). sent_to st (fst key) a data" by blast
      have "handle_datagram ord src now bs (nd_sender nd, nd_receiver nd, [], 0) = Some (nd_sender nd, rc, new, 1)"
        using d(1) Ok pb Data by (simp add: handle_datagram_def)
      with d sc show ?thesis unfolding datagram_done_def by blast
    next
      case Grant
      from sender_step [OF grant_op_ok [OF ps sc]] obtain sc' new where
        d: "handle_grant (nd_sender nd) src p now [] = Some (sc', new)" "sc_ok ?ps ?S True sc'" "delivered new = []"
          "\<forall>d \<in> set (sends_of new). wire_ok ?ps ?S d" by blast
      have "handle_datagram ord src now bs (nd_sender nd, nd_receiver nd, [], 0) = Some (sc', nd_receiver nd, new, 1)"
        using d(1) Ok pb Grant by (simp add: handle_datagram_def)
      with d hist show ?thesis unfolding datagram_done_def by fastforce
    next
      case Resend
      have "resend_fits ?ps (nd_sender nd) src p" using fit Ok pb Resend cfg by (simp add: no_stray_resend_def)
      from sender_step [OF resend_op_ok [OF ps sc this]] obtain sc' new where
        d: "handle_resend (nd_sender nd) src p now [] = Some (sc', new)" "sc_ok ?ps ?S True sc'" "delivered new = []"
          "\<forall>d \<in> set (sends_of new). wire_ok ?ps ?S d" by blast
      have "handle_datagram ord src now bs (nd_sender nd, nd_receiver nd, [], 0) = Some (sc', nd_receiver nd, new, 1)"
        using d(1) Ok pb Resend by (simp add: handle_datagram_def)
      with d hist show ?thesis unfolding datagram_done_def by fastforce
    next
      case Busy
      have "handle_datagram ord src now bs (nd_sender nd, nd_receiver nd, [], 0) =
          Some (handle_busy (nd_sender nd) src p now, nd_receiver nd, [], 1)"
        using Ok pb Busy by (simp add: handle_datagram_def)
      with busy_ok [OF sc] hist show ?thesis unfolding datagram_done_def by fastforce
    qed
  qed
qed

lemma arrive_ok:
  assumes ok: "node_ok cfg st a nd" and log: "log_ok st" and ps: "0 < packet_size cfg" and ord: "order_ok ord"
    and bs: "wire_ok (packet_size cfg) (started_at st src) (a, bs)" and fit: "no_stray_resend nd src bs"
  shows "\<exists>nd'. process_batch ord nd src bs (length bs) now = Some nd' \<and> node_ok cfg st a nd'"
proof -
  let ?ps = "packet_size cfg" and ?S = "started_at st a"
  have sc: "sc_ok ?ps ?S True (nd_sender nd)" using ok by (simp add: node_ok_def)
  from ok obtain hist where hist: "rc_ok cfg (content_at st a) (nd_receiver nd, hist)" by (auto simp: node_ok_def)
  from datagram_ok [OF assms, of now, unfolded datagram_done_def] obtain sc' rc' acts n hist' where
    h: "handle_datagram ord src now bs (nd_sender nd, nd_receiver nd, [], 0) = Some (sc', rc', acts, n)"
      "sc_ok ?ps ?S True sc'" "rc_ok cfg (content_at st a) (rc', hist')" "\<forall>d \<in> set (sends_of acts). wire_ok ?ps ?S d"
      "\<forall>(key, data) \<in> set (delivered acts). sent_to st (fst key) a data" by blast
  show ?thesis
  proof (cases "bs = []")
    case True
    have "node_ok cfg st a (nd\<lparr>nd_sender := nd_sender nd, nd_receiver := nd_receiver nd, nd_recv_packets := nd_recv_packets nd + 0,
        nd_io_batches := nd_io_batches nd + 1\<rparr>)" by (rule node_ok_cores [OF ok sc hist])
    with True show ?thesis by (simp add: process_batch_def drain_def)
  next
    case False
    then obtain k where k: "length bs = Suc k" by (cases bs) auto
    have "pieces (length bs) (length bs) bs = [bs]" using False k by (cases k) simp_all
    with False h(1) node_ok_drain [OF node_ok_cores [OF ok h(2,3)] h(4,5)] show ?thesis by (simp add: process_batch_def)
  qed
qed

lemma tick_node_ok:
  assumes ok: "node_ok cfg st a nd" and log: "log_ok st" and ps: "0 < packet_size cfg" and ord: "order_ok ord"
  shows "\<exists>nd'. tp_tick ord iter nd now = Some nd' \<and> node_ok cfg st a nd'"
proof -
  let ?ps = "packet_size cfg" and ?S = "started_at st a"
  have sc: "sc_ok ?ps ?S True (nd_sender nd)" using ok by (simp add: node_ok_def)
  from ok obtain hist where hist: "rc_ok cfg (content_at st a) (nd_receiver nd, hist)" by (auto simp: node_ok_def)
  from sender_step [OF tick_op_ok [OF ps sc, of "[]" iter now]] obtain sc' acts where
    s: "sc_tick iter (nd_sender nd) now [] = Some (sc', acts)" "sc_ok ?ps ?S True sc'" "delivered acts = []"
      "\<forall>d \<in> set (sends_of acts). wire_ok ?ps ?S d" by blast
  from tick_ok [OF hist ord, of now] obtain s' where "rc_tick ord now (nd_receiver nd, hist) = Some s'" "rc_ok cfg (content_at st a) s'" by blast
  from receiver_step [OF log rc_tick_emits this, of ?ps ?S] obtain rc new hist' where
    r: "rc_tick ord now (nd_receiver nd, acts) = Some (rc, acts @ new)" "rc_ok cfg (content_at st a) (rc, hist')"
      "\<forall>d \<in> set (sends_of new). wire_ok ?ps ?S d" "\<forall>(key, data) \<in> set (delivered new). sent_to st (fst key) a data" by blast
  have "node_ok cfg st a (nd\<lparr>nd_sender := sc', nd_receiver := rc, nd_recv_packets := nd_recv_packets nd, nd_io_batches := nd_io_batches nd\<rparr>)"
    by (rule node_ok_cores [OF ok s(2) r(2)])
  then have "node_ok cfg st a (nd\<lparr>nd_sender := sc', nd_receiver := rc\<rparr>)" by simp
  from node_ok_drain [OF this, of "acts @ new"] s r show ?thesis by (auto simp: tp_tick_def)
qed

lemma fresh_id:
  assumes "node_ok cfg st a nd" "log_ok st" "nd_counter nd \<noteq> 0" "length data \<le> MAX_MSG_LEN"
  shows "log_ok (st @ [(a, (dest, nd_counter nd), data)])"
proof -
  have "unat (snd key) < unat (nd_counter nd)" if "(a, key, d) \<in> set st" for key d
    using node_ok_ids [OF assms(1,3), of key d] that by (simp add: started_at_def)
  then have "(a, nd_counter nd) \<notin> set (map (\<lambda>(s, key, data). (s, snd key)) st)" by force
  with assms(2,4) show ?thesis by (auto simp: log_ok_def)
qed

lemma send_node_ok:
  assumes ok: "node_ok cfg st a nd" and log: "log_ok st" and ps: "0 < packet_size cfg" and n: "nd_counter nd \<noteq> 0"
  shows "\<exists>mid nd'. send_begin nd dest data rt now = Some (mid, nd') \<and> mid = nd_counter nd \<and>
    node_ok cfg (st @ [(a, (dest, mid), data)]) a nd'"
proof -
  let ?ps = "packet_size cfg" and ?mid = "nd_counter nd"
  let ?st = "st @ [(a, (dest, ?mid), data)]" and ?rt = "rt \<and> length data \<le> unscheduled_bytes (nd_cfg nd)"
  have S: "started_at ?st a = started_at st a \<union> {((dest, ?mid), data)}" by (auto simp: started_at_def)
  have sc: "sc_ok ?ps (started_at st a) True (nd_sender nd)" using ok by (simp add: node_ok_def)
  have "op_ok ?ps (started_at ?st a) True [] (if ?rt then start_retransmit (nd_sender nd) dest ?mid data now else sc_start (nd_sender nd) dest ?mid data now)"
    using start_op_ok [OF ps sc] by (simp add: S start_retransmit_def sc_start_def)
  from sender_step [OF this] obtain sc' acts where
    s: "(if ?rt then start_retransmit (nd_sender nd) dest ?mid data now else sc_start (nd_sender nd) dest ?mid data now) = Some (sc', acts)"
      "sc_ok ?ps (started_at ?st a) True sc'" "delivered acts = []" "\<forall>d \<in> set (sends_of acts). wire_ok ?ps (started_at ?st a) d" by blast
  let ?nd = "nd\<lparr>nd_counter := ?mid + 1, nd_sender := sc', nd_pending := nd_pending nd @ [(length data, ?mid, acts)]\<rparr>"
  have "\<exists>hist. rc_ok cfg (content_at ?st a) (nd_receiver nd, hist)"
    using node_ok_rc [OF ok] rc_ok_more [of cfg "content_at st a" _ "content_at ?st a"] content_at_more by blast
  moreover have ids: "?mid + 1 = 0 \<or> (\<forall>(key, d) \<in> started_at ?st a. unat (snd key) < unat (?mid + 1))"
  proof (intro disjCI ballI, clarify)
    fix d i e
    assume "?mid + 1 \<noteq> 0" "((d, i), e) \<in> started_at ?st a"
    then show "unat (snd (d, i)) < unat (?mid + 1)"
      using node_ok_ids [OF ok n, of "(d, i)" e] counter_suc [of ?mid] unfolding S by auto
  qed
  moreover have "\<forall>d \<in> all_sends nd. wire_ok ?ps (started_at ?st a) d"
    using ok wire_ok_more [OF _ started_at_more] unfolding node_ok_def by blast
  then have "\<forall>d \<in> all_sends ?nd. wire_ok ?ps (started_at ?st a) d" using s(4) by (auto simp: all_sends_def)
  moreover have "\<forall>(l, i, acts) \<in> set (nd_pending ?nd). delivered acts = []" using ok s(3) by (auto simp: node_ok_def)
  moreover have "\<forall>(src, d) \<in> set (nd_completed nd). sent_to ?st src a d" using ok sent_to_more unfolding node_ok_def by blast
  moreover have "nd_cfg nd = cfg" "txq_wf (nd_tx nd)" using ok by (simp_all add: node_ok_def)
  ultimately have "node_ok cfg ?st a ?nd" using s(2) by (simp add: node_ok_def)
  with s(1) show ?thesis by (simp add: send_begin_def Let_def)
qed

lemma node_ok_sender:
  "node_ok cfg st a nd \<Longrightarrow> sc_ok (packet_size cfg) (started_at st a) True sc \<Longrightarrow> node_ok cfg st a (nd\<lparr>nd_sender := sc\<rparr>)"
  unfolding node_ok_def all_sends_def by auto

lemma queue_node_ok:
  assumes ok: "node_ok cfg st a nd" and j: "j < length (nd_pending nd)"
  shows "node_ok cfg st a (snd (send_queue nd j fails))"
proof -
  let ?ps = "packet_size cfg" and ?S = "started_at st a"
  obtain len mid acts where p: "nd_pending nd ! j = (len, mid, acts)" by (metis surj_pair)
  let ?nd = "nd\<lparr>nd_pending := take j (nd_pending nd) @ drop (Suc j) (nd_pending nd)\<rparr>"
  have mem: "(len, mid, acts) \<in> set (nd_pending nd)" using p j nth_mem by metis
  have sub: "set (nd_pending ?nd) \<subseteq> set (nd_pending nd)" using set_take_subset set_drop_subset by fastforce
  have sends: "\<forall>d \<in> set (sends_of acts). wire_ok ?ps ?S d"
  proof
    fix d
    assume "d \<in> set (sends_of acts)"
    then have "d \<in> all_sends nd" using mem unfolding all_sends_def by blast
    then show "wire_ok ?ps ?S d" using ok unfolding node_ok_def by blast
  qed
  have dels: "delivered acts = []" using ok mem unfolding node_ok_def by blast
  have "all_sends ?nd \<subseteq> all_sends nd" using sub unfolding all_sends_def by fastforce
  moreover have "\<forall>(l, i, acts) \<in> set (nd_pending ?nd). delivered acts = []" using ok sub unfolding node_ok_def by blast
  ultimately have ok1: "node_ok cfg st a ?nd" using ok unfolding node_ok_def by auto
  have sent: "node_ok cfg st a (?nd\<lparr>nd_sent := nd_sent ?nd @ ds\<rparr>)" if "set ds \<subseteq> set (sends_of acts)" for ds
  proof -
    have "all_sends (?nd\<lparr>nd_sent := nd_sent ?nd @ ds\<rparr>) = all_sends ?nd \<union> set ds" by (auto simp: all_sends_def)
    with ok1 that sends show ?thesis unfolding node_ok_def by auto
  qed
  have "node_ok cfg st a (drain ?nd acts)" by (rule node_ok_drain [OF ok1 sends]) (simp add: dels)
  with sent [of "sends_of acts"] sent [of "take k (sends_of acts)" for k] p show ?thesis
    by (auto simp: send_queue_def Let_def set_take_subset split: option.split)
qed

lemma round_node_ok:
  assumes "node_ok cfg st a nd"
  shows "node_ok cfg st a (snd (send_round nd))"
proof -
  have "txq_wf (nd_tx nd)" using assms by (simp add: node_ok_def)
  from wait_batch_split [OF this, of FLUSH_BUDGET] obtain n q where
    w: "wait_batch FLUSH_BUDGET (nd_tx nd) =
        (if take n (txq_order (nd_tx nd)) = [] \<and> \<not> tq_shutdown (nd_tx nd) then None else Some (take n (txq_order (nd_tx nd))), q)"
      "txq_order q = drop n (txq_order (nd_tx nd))" "txq_wf q" by blast
  let ?nd = "nd\<lparr>nd_tx := q, nd_sent := nd_sent nd @ take n (txq_order (nd_tx nd))\<rparr>"
  have "all_sends ?nd = all_sends nd"
    using set_append [of "take n (txq_order (nd_tx nd))" "drop n (txq_order (nd_tx nd))"] w(2) by (auto simp: all_sends_def)
  with assms w(3) have ok: "node_ok cfg st a ?nd" by (simp add: node_ok_def)
  show ?thesis
  proof (cases "take n (txq_order (nd_tx nd)) = [] \<and> \<not> tq_shutdown (nd_tx nd)")
    case True
    then have "snd (send_round nd) = ?nd" using w(1) by (simp add: send_round_def)
    with ok show ?thesis by simp
  next
    case False
    then have "snd (send_round nd) = ?nd" using w(1) by (simp add: send_round_def)
    with ok show ?thesis by simp
  qed
qed

lemma recv_node_ok:
  assumes "node_ok cfg st a nd"
  shows "\<exists>nd' got. node_step (NetRecv a deadline now) nd = Some (nd', [], got) \<and> node_ok cfg st a nd' \<and>
    (\<forall>(b, src, data) \<in> set got. sent_to st src b data)"
proof (cases "nd_completed nd")
  case Nil
  with assms show ?thesis by (simp add: tp_recv_def)
next
  case (Cons sd rest)
  obtain src data where sd: "sd = (src, data)" by fastforce
  have "node_ok cfg st a (nd\<lparr>nd_completed := rest\<rparr>)" "sent_to st src a data"
    using assms Cons sd by (auto simp: node_ok_def all_sends_def)
  with Cons sd show ?thesis by (simp add: tp_recv_def)
qed

lemma shutdown_node_ok: "node_ok cfg st a nd \<Longrightarrow> node_ok cfg st a (tp_shutdown nd)"
  by (simp add: node_ok_def all_sends_def tp_shutdown_def txq_shutdown_def txq_wf_def txq_order_def txq_lists_def)

section \<open>Steps of the network\<close>

text \<open>Every event that may happen is executed without a panic and keeps the invariant.\<close>

lemma node_step_ok:
  assumes ok: "node_ok cfg (nt_started net) (at_node ev) nd" and log: "log_ok (nt_started net)" and ps: "0 < packet_size cfg"
    and may: "may_happen True net nd ev" "orders_ok ev"
    and nodes: "\<And>b nb. hm_get (nt_nodes net) b = Some nb \<Longrightarrow> node_ok cfg (nt_started net) b nb"
  shows "\<exists>nd' st got. node_step ev nd = Some (nd', st, got) \<and> log_ok (nt_started net @ st) \<and>
    node_ok cfg (nt_started net @ st) (at_node ev) nd' \<and> (\<forall>(s, key, data) \<in> set st. s = at_node ev) \<and>
    (\<forall>(b, src, data) \<in> set got. sent_to (nt_started net) src b data)"
proof -
  let ?st = "nt_started net"
  have sc: "sc_ok (packet_size cfg) (started_at ?st (at_node ev)) True (nd_sender nd)" using ok by (simp add: node_ok_def)
  have quiet: "?thesis" if "node_step ev nd = Some (nd', [], [])" "node_ok cfg ?st (at_node ev) nd'" for nd'
    using that log by auto
  show ?thesis
  proof (cases ev)
    case (NetSend a dest data rt now)
    with may have n: "nd_counter nd \<noteq> 0" "length data \<le> MAX_MSG_LEN" by auto
    have ok': "node_ok cfg ?st a nd" using ok NetSend by simp
    from send_node_ok [OF ok' log ps n(1), of dest data rt now] obtain nd' where
      "send_begin nd dest data rt now = Some (nd_counter nd, nd')" "node_ok cfg (?st @ [(a, (dest, nd_counter nd), data)]) a nd'" by blast
    with NetSend fresh_id [OF ok' log n, of dest] show ?thesis by simp
  next
    case (NetQueue a j fails)
    with queue_node_ok [OF ok, of j fails] may show ?thesis by (intro quiet) auto
  next
    case (NetPoll a dest mid deadline now)
    have "node_ok cfg ?st (at_node ev) (snd (send_poll nd dest mid deadline now))"
      using ok node_ok_sender [OF ok remove_ok [OF sc]] by (simp add: send_poll_def sc_finish_def)
    with NetPoll show ?thesis by (intro quiet) auto
  next
    case (NetConfirm a dest mid)
    with node_ok_sender [OF ok confirm_ok [OF sc, of dest mid]] show ?thesis by (intro quiet) (auto simp: tp_confirm_def)
  next
    case (NetFinish a dest mid)
    with node_ok_sender [OF ok remove_ok [OF sc, of "(dest, mid)"]] show ?thesis by (intro quiet) (auto simp: tp_finish_def sc_finish_def)
  next
    case (NetRound a)
    with round_node_ok [OF ok] show ?thesis by (intro quiet) auto
  next
    case (NetArrive a src bs ord now)
    with may obtain nb where nb: "hm_get (nt_nodes net) src = Some nb" "(a, bs) \<in> set (nd_sent nb)" "order_ok ord" "no_stray_resend nd src bs"
      by (auto split: option.splits)
    have "wire_ok (packet_size cfg) (started_at ?st src) (a, bs)"
      using nodes [OF nb(1)] nb(2) by (auto simp: node_ok_def all_sends_def)
    have ok': "node_ok cfg ?st a nd" using ok NetArrive by simp
    from arrive_ok [OF ok' log ps nb(3) \<open>wire_ok _ _ _\<close> nb(4), of now] obtain nd' where
      "process_batch ord nd src bs (length bs) now = Some nd'" "node_ok cfg ?st a nd'" by blast
    with NetArrive show ?thesis by (intro quiet [of nd']) auto
  next
    case (NetTick a ord iter now)
    from tick_node_ok [OF ok log ps, of ord iter now] NetTick may obtain nd' where
      "tp_tick ord iter nd now = Some nd'" "node_ok cfg ?st a nd'" by auto
    with NetTick show ?thesis by (intro quiet [of nd']) auto
  next
    case (NetRecv a deadline now)
    from recv_node_ok [OF ok, of deadline now] NetRecv log show ?thesis by fastforce
  next
    case (NetShutdown a)
    with shutdown_node_ok [OF ok] show ?thesis by (intro quiet) auto
  qed
qed

lemma net_exec_ok:
  assumes ok: "net_ok cfg net" and ps: "0 < packet_size cfg" and en: "enabled True net ev" "orders_ok ev"
  shows "\<exists>net'. net_exec net ev = Some net' \<and> net_ok cfg net'"
proof -
  let ?a = "at_node ev"
  have nodes: "node_ok cfg (nt_started net) b nb" if "hm_get (nt_nodes net) b = Some nb" for b nb using ok that unfolding net_ok_def by blast
  have log: "log_ok (nt_started net)" using ok by (simp add: net_ok_def)
  from en(1) obtain nd where nd: "hm_get (nt_nodes net) ?a = Some nd" "may_happen True net nd ev" by (auto simp: enabled_def split: option.splits)
  from node_step_ok [OF nodes [OF nd(1)] log ps nd(2) en(2) nodes] obtain nd' st got where
    step: "node_step ev nd = Some (nd', st, got)" "log_ok (nt_started net @ st)" "node_ok cfg (nt_started net @ st) ?a nd'"
      "\<forall>(s, key, data) \<in> set st. s = ?a" "\<forall>(b, src, data) \<in> set got. sent_to (nt_started net) src b data" by blast
  let ?net = "\<lparr>nt_nodes = hm_insert ?a nd' (nt_nodes net), nt_started = nt_started net @ st, nt_got = nt_got net @ got\<rparr>"
  have "node_ok cfg (nt_started net @ st) b nb" if "hm_get (hm_insert ?a nd' (nt_nodes net)) b = Some nb" for b nb
    using that step(3,4) nodes [of b nb] node_ok_more [of cfg "nt_started net" b nb st] by (cases "b = ?a") auto
  moreover have "\<forall>(b, src, data) \<in> set (nt_got net @ got). sent_to (nt_started net @ st) src b data"
    using ok step(5) sent_to_more unfolding net_ok_def set_append by blast
  ultimately have "net_ok cfg ?net" using ok step(2) unfolding net_ok_def by simp
  with nd(1) step(1) show ?thesis by (simp add: net_exec_def)
qed

lemma net_reach_ok: "net_reach True cfg addrs net \<Longrightarrow> distinct addrs \<Longrightarrow> 0 < packet_size cfg \<Longrightarrow> net_ok cfg net"
proof (induction rule: net_reach.induct)
  case net_start
  have "node_ok cfg [] a (tp_bind cfg)" for a
    using rc_ok_new [of cfg "content_at [] a"] txq_wf_new
    unfolding node_ok_def by (auto simp: tp_bind_def all_sends_def sc_ok_def sc_new_def started_at_def txq_new_def txq_order_def txq_lists_def)
  moreover have "nd = tp_bind cfg" if "hm_get (nt_nodes (net_init cfg addrs)) a = Some nd" for a nd
    using map_of_SomeD [OF that] unfolding net_init_def by auto
  ultimately have "node_ok cfg (nt_started (net_init cfg addrs)) a nd" if "hm_get (nt_nodes (net_init cfg addrs)) a = Some nd" for a nd
    using that by (metis net.select_convs(2) net_init_def)
  moreover have "hm_wf (nt_nodes (net_init cfg addrs))" using net_start(1) by (simp add: net_init_def hm_wf_def o_def)
  ultimately show ?case unfolding net_ok_def by (simp add: net_init_def log_ok_def)
next
  case (net_next net ev net')
  with net_exec_ok [of cfg net ev] show ?case by auto
qed

section \<open>Evaluation\<close>

text \<open>The facts that evaluate a run on concrete nodes, packets being kept in the form they are encoded from.\<close>

lemma pieces_one: "bs \<noteq> [] \<Longrightarrow> length bs \<le> n \<Longrightarrow> 0 < k \<Longrightarrow> pieces k n bs = [bs]"
  by (cases k; cases "k - 1") simp_all

lemma replicate_numeral_Cons: "replicate (numeral k) x = x # replicate (pred_numeral k) x"
  by (simp add: numeral_eq_Suc)

lemma txq_new_eval: "txq_new = \<lparr>tq_control = [], tq_queues = [[], [], [], [], [], [], [], []], tq_shutdown = False\<rparr>"
  by (simp add: txq_new_def NUM_PRIORITIES_def numeral_eq_Suc)

lemma pk_encode_eval: "pk_encode p body ! Suc 0 = pk_priority p" "pk_encode p body \<noteq> []" "Suc 0 < length (pk_encode p body)"
  using pk_fields [of p body] by (auto simp: HEADER_LEN_def)

lemmas node_eval = net_init_def tp_bind_def net_exec_def enabled_def send_begin_def send_queue_def send_round_def
  process_batch_def handle_datagram_def tp_tick_def tp_recv_def drain_def no_stray_resend_def resend_fits_def Let_def
  txq_new_eval txq_push_def wait_batch_def FLUSH_BUDGET_def NUM_PRIORITIES_def pieces_one replicate_numeral_Cons

lemmas packet_eval = data_packet_def vec_slice_def control_packet_def seg_packet_def packet_new_def HEADER_LEN_def
  pk_fields pk_round pk_wf_def pk_encode_eval priority_for_len_def THRESHOLDS_def

lemmas sender_eval = sc_start_def start_inner_def pump_def sc_put_def sc_new_def handle_grant_def handle_resend_def
  sc_tick_def sc_tick_one_def keep_lingering_def chunk_range_def resend_loop.simps pump_loop.simps

lemmas receiver_eval = rc_new_def handle_data_def data_for_def accept_chunk_def copy_at_def fresh_in_msg_def rc_put_def deliver_def
  schedule_def add_starving_def wants_grant_def starving_def im_remaining_def im_complete_def issue_grant_def starve_check_def
  rc_tick_def rc_tick_one_def first_missing_offset_def regrant_stalled_def
  COMPLETED_CACHE_def MAX_MSG_LEN_def MAX_UNANSWERED_RESENDS_def transport_config_default_def millis_def

definition ex_order :: rc_order where
  "ex_order = \<lparr>ro_iter = (\<lambda>ms. ms), ro_top = (\<lambda>h. hd (sort_key fst h))\<rparr>"

lemma ex_order_ok: "order_ok ex_order"
  by (simp add: order_ok_def ex_order_def)

section \<open>Properties\<close>



text \<open>
  C39. A RESEND that ends inside a packet corrupts a message. There is a run of two transports,
  in which one GRANT is lost and nothing else goes wrong, whose receiver returns bytes that were never sent: the
  receiver asks again up to what it has granted, the sender continues from there in the middle of a
  packet, and the receiver counts the shifted packet as the chunk it lacks.
\<close>

theorem lost_grant_corrupts_message:
  "\<exists>cfg addrs net b src data. 0 < packet_size cfg \<and> distinct addrs \<and> net_reach False cfg addrs net \<and>
     (b, src, data) \<in> set (nt_got net) \<and> (\<forall>mid. (src, (b, mid), data) \<notin> set (nt_started net))"
proof -
  let ?a = "([1], 1) :: sock_addr" and ?b = "([2], 2) :: sock_addr" and ?msg = "[1, 2, 3, 4, 5, 6, 7, 8, 9] :: bytes"
  let ?cfg = "transport_config_default\<lparr>packet_size := 2, unscheduled_bytes := 2, grant_increment := 3\<rparr>"
  let ?chunk = "seg_packet ?msg 1" and ?ctl = "\<lambda>t. control_packet t (priority_for_len 9) 1" and ?o = ex_order
  let ?evs = "[NetSend ?a ?b ?msg False 0, NetQueue ?a 0 None, NetRound ?a, NetArrive ?b ?a (?chunk 0 2) ?o 1, NetRound ?b,
    NetTick ?b ?o (map fst) 30000000, NetRound ?b, NetArrive ?a ?b (?ctl Resend 2 3) ?o 30000001, NetRound ?a,
    NetArrive ?b ?a (?chunk 2 4) ?o 30000002, NetArrive ?b ?a (?chunk 4 6) ?o 30000003, NetRound ?b,
    NetArrive ?a ?b (?ctl Grant 9 4) ?o 30000004, NetRound ?a, NetArrive ?b ?a (?chunk 5 7) ?o 30000005,
    NetArrive ?b ?a (?chunk 7 9) ?o 30000006, NetTick ?b ?o (map fst) 60000000, NetRound ?b,
    NetArrive ?a ?b (?ctl Resend 8 1) ?o 60000001, NetRound ?a, NetArrive ?b ?a (?chunk 8 9) ?o 60000002, NetRecv ?b 0 60000003]"
  have "map_option (\<lambda>net. (nt_got net, nt_started net)) (net_run False (net_init ?cfg [?a, ?b]) ?evs) =
      Some ([(?b, ?a, [1, 2, 3, 4, 5, 6, 0, 8, 9])], [(?a, (?b, 1), ?msg)])"
    by (simp add: node_eval packet_eval sender_eval receiver_eval ex_order_def)
  then obtain net where net: "net_run False (net_init ?cfg [?a, ?b]) ?evs = Some net"
      "nt_got net = [(?b, ?a, [1, 2, 3, 4, 5, 6, 0, 8, 9])]" "nt_started net = [(?a, (?b, 1), ?msg)]" by auto
  have "net_reach False ?cfg [?a, ?b] net" by (rule net_run_reach [OF net_start _ net(1)]) (simp add: ex_order_ok)
  with net show ?thesis by (intro exI [of _ ?cfg] exI [of _ "[?a, ?b]"] exI [of _ net] exI [of _ ?b] exI [of _ ?a]) auto
qed

end
