(* ===== verification/Homa_Rpc.thy ===== *)
theory Homa_Rpc
  imports Homa_Transport
begin

text \<open>
  The RPC layer (\<^verbatim>\<open>crates/homa-rpc/src/rpc/mod.rs\<close>): frames, the server with its duplicate
  suppression and thread pool, the client with its table of waiting calls, and a system of one server and any number of clients.
  Every definition is one stretch of code between two points where another thread may act.
  The handler is arbitrary: what an invocation returns, or that it panics, is an argument.
\<close>

section \<open>Frames\<close>

definition RPC_HDR :: nat where "RPC_HDR = 8"

definition encode_frame :: "u64 \<Rightarrow> bytes \<Rightarrow> bytes" where
  "encode_frame rpc_id body = le_bytes 8 rpc_id @ body"

definition decode_frame :: "bytes \<Rightarrow> (u64 \<times> bytes) option" where
  "decode_frame frame = (if length frame < RPC_HDR then None else Some (le_val (take 8 frame), drop RPC_HDR frame))"

lemma frame_round [simp]: "decode_frame (encode_frame rpc_id body) = Some (rpc_id, body)"
  by (simp add: decode_frame_def encode_frame_def RPC_HDR_def)

lemma encode_frame_inject [simp]: "encode_frame i b = encode_frame j c \<longleftrightarrow> i = j \<and> b = c"
  by (metis frame_round option.inject prod.inject)

lemma drop_frame [simp]: "drop RPC_HDR (encode_frame rpc_id body) = body"
  by (simp add: encode_frame_def RPC_HDR_def)

section \<open>Server\<close>

type_synonym rpc_key = "sock_addr \<times> u64"

text \<open>
  A job of the pool, and how far a worker has got with it: a cached answer to replay, a request to compute,
  a handler that runs, an answer to store and then to send.
\<close>

datatype rpc_job =
    Replay sock_addr bytes
  | Compute sock_addr u64 bytes
  | Running sock_addr u64 bytes
  | Store sock_addr u64 bytes
  | Respond sock_addr bytes

text \<open>
  \<open>sv_jobs\<close> is the queue of the pool, \<open>sv_active\<close> what its workers hold. \<open>sv_calls\<close> and \<open>sv_results\<close> are the
  history of the handler: its invocations, and those that returned, with the answer.
\<close>

record rpc_server =
  sv_dedup :: "(rpc_key, bytes option) hmap"
  sv_jobs :: "rpc_job list"
  sv_active :: "rpc_job list"
  sv_calls :: "(rpc_key \<times> bytes) list"
  sv_results :: "(rpc_key \<times> bytes \<times> bytes) list"

definition server_new :: rpc_server where
  "server_new = \<lparr>sv_dedup = [], sv_jobs = [], sv_active = [], sv_calls = [], sv_results = []\<rparr>"

definition pool_submit :: "rpc_job \<Rightarrow> rpc_server \<Rightarrow> rpc_server" where
  "pool_submit job sv = sv\<lparr>sv_jobs := sv_jobs sv @ [job]\<rparr>"

text \<open>The server thread with one received frame.\<close>

definition server_recv :: "sock_addr \<Rightarrow> bytes \<Rightarrow> rpc_server \<Rightarrow> rpc_server" where
  "server_recv src frame sv =
     (case decode_frame frame of
        None \<Rightarrow> sv
      | Some (rpc_id, body) \<Rightarrow>
          (case hm_get (sv_dedup sv) (src, rpc_id) of
             Some (Some cached) \<Rightarrow> pool_submit (Replay src cached) sv
           | Some None \<Rightarrow> sv
           | None \<Rightarrow> pool_submit (Compute src rpc_id frame) (sv\<lparr>sv_dedup := hm_insert (src, rpc_id) None (sv_dedup sv)\<rparr>)))"

text \<open>A worker: takes a job, and performs the stretches of the job it holds in position \<open>j\<close>.\<close>

definition pool_take :: "rpc_server \<Rightarrow> rpc_server" where
  "pool_take sv = (case sv_jobs sv of [] \<Rightarrow> sv | job # jobs \<Rightarrow> sv\<lparr>sv_jobs := jobs, sv_active := sv_active sv @ [job]\<rparr>)"

definition drop_job :: "nat \<Rightarrow> rpc_server \<Rightarrow> rpc_server" where
  "drop_job j sv = sv\<lparr>sv_active := take j (sv_active sv) @ drop (Suc j) (sv_active sv)\<rparr>"

definition set_job :: "nat \<Rightarrow> rpc_job \<Rightarrow> rpc_server \<Rightarrow> rpc_server" where
  "set_job j job sv = sv\<lparr>sv_active := (sv_active sv)[j := job]\<rparr>"

text \<open>
  The closure of a job: the handler is called, it returns or panics (\<^term>\<open>None\<close>, caught by the pool, which drops the
  job), the answer is stored, and sent (the second component).
\<close>

fun job_step :: "nat \<Rightarrow> bytes option \<Rightarrow> rpc_job \<Rightarrow> rpc_server \<Rightarrow> rpc_server \<times> (sock_addr \<times> bytes) list" where
  "job_step j outcome (Replay src resp) sv = (drop_job j sv, [(src, resp)])"
| "job_step j outcome (Compute src rpc_id frame) sv =
     (set_job j (Running src rpc_id (drop RPC_HDR frame)) (sv\<lparr>sv_calls := sv_calls sv @ [((src, rpc_id), drop RPC_HDR frame)]\<rparr>), [])"
| "job_step j outcome (Running src rpc_id body) sv =
     (case outcome of
        None \<Rightarrow> (drop_job j sv, [])
      | Some resp_body \<Rightarrow>
          (set_job j (Store src rpc_id (encode_frame rpc_id resp_body))
             (sv\<lparr>sv_results := sv_results sv @ [((src, rpc_id), body, resp_body)]\<rparr>), []))"
| "job_step j outcome (Store src rpc_id resp) sv =
     (set_job j (Respond src resp) (sv\<lparr>sv_dedup := hm_insert (src, rpc_id) (Some resp) (sv_dedup sv)\<rparr>), [])"
| "job_step j outcome (Respond src resp) sv = (drop_job j sv, [(src, resp)])"

section \<open>Client\<close>

text \<open>
  A call in progress: its payload, the attempts left, the number of the current attempt, and its result
  once it has returned. Every attempt has a channel of its own, named by the id of the call
  and the number of the attempt; \<open>cl_waiters\<close> gives the channel of the newest attempt.
\<close>

record rpc_call =
  ca_payload :: bytes
  ca_left :: nat
  ca_attempt :: nat
  ca_result :: "bytes result option"

record rpc_client =
  cl_next_id :: u64
  cl_waiters :: "(u64, nat) hmap"
  cl_chans :: "(u64 \<times> nat, bytes) hmap"
  cl_calls :: "(u64, rpc_call) hmap"

definition client_new :: rpc_client where
  "client_new = \<lparr>cl_next_id = 1, cl_waiters = [], cl_chans = [], cl_calls = []\<rparr>"

text \<open>The dispatcher thread with one received frame: the waiter is removed and its channel gets the body.\<close>

definition client_dispatch :: "bytes \<Rightarrow> rpc_client \<Rightarrow> rpc_client" where
  "client_dispatch frame cl =
     (case decode_frame frame of
        None \<Rightarrow> cl
      | Some (rpc_id, body) \<Rightarrow>
          (case hm_get (cl_waiters cl) rpc_id of
             None \<Rightarrow> cl
           | Some k \<Rightarrow> cl\<lparr>cl_waiters := hm_remove rpc_id (cl_waiters cl), cl_chans := hm_insert (rpc_id, k) body (cl_chans cl)\<rparr>))"

text \<open>
  \<open>call_with_timeout\<close>: the first attempt registers its waiter and sends the frame. When the transport reports an
  error (\<open>sent\<close>) the call returns it and leaves the waiter in the table; some or all of the frame may have been sent before.
\<close>

definition call_begin :: "bytes \<Rightarrow> nat \<Rightarrow> io_error option \<Rightarrow> rpc_client \<Rightarrow> rpc_client \<times> bytes list" where
  "call_begin payload max_attempts sent cl =
     (let rpc_id = cl_next_id cl;
          call = \<lparr>ca_payload = payload, ca_left = max max_attempts 1 - 1, ca_attempt = 0,
                  ca_result = map_option Err sent\<rparr>
      in (cl\<lparr>cl_next_id := rpc_id + 1, cl_waiters := hm_insert rpc_id 0 (cl_waiters cl), cl_calls := hm_insert rpc_id call (cl_calls cl)\<rparr>,
          [encode_frame rpc_id payload]))"

text \<open>\<open>recv_timeout\<close> returned a body: the call returns it. A call that has returned takes no more steps.\<close>

definition call_answered :: "u64 \<Rightarrow> rpc_client \<Rightarrow> rpc_client" where
  "call_answered rpc_id cl =
     (case hm_get (cl_calls cl) rpc_id of
        None \<Rightarrow> cl
      | Some call \<Rightarrow>
          if ca_result call \<noteq> None then cl
          else (case hm_get (cl_chans cl) (rpc_id, ca_attempt call) of
             None \<Rightarrow> cl
           | Some body \<Rightarrow> cl\<lparr>cl_calls := hm_insert rpc_id (call\<lparr>ca_result := Some (Ok body)\<rparr>) (cl_calls cl)\<rparr>))"

text \<open>
  It timed out: the waiter is removed and the message given up; then the next attempt, with a new channel and the same id,
  or the error after the last one.
\<close>

definition call_timed_out :: "u64 \<Rightarrow> io_error option \<Rightarrow> rpc_client \<Rightarrow> rpc_client \<times> bytes list" where
  "call_timed_out rpc_id sent cl =
     (case hm_get (cl_calls cl) rpc_id of
        None \<Rightarrow> (cl, [])
      | Some call \<Rightarrow>
          let cl1 = cl\<lparr>cl_waiters := hm_remove rpc_id (cl_waiters cl)\<rparr>; k = ca_attempt call + 1 in
          if ca_result call \<noteq> None then (cl, [])
          else if ca_left call = 0
          then (cl1\<lparr>cl_calls := hm_insert rpc_id (call\<lparr>ca_result := Some (Err TimedOut)\<rparr>) (cl_calls cl1)\<rparr>, [])
          else
            (cl1\<lparr>cl_waiters := hm_insert rpc_id k (cl_waiters cl1),
                 cl_calls := hm_insert rpc_id (call\<lparr>ca_left := ca_left call - 1, ca_attempt := k,
                    ca_result := map_option Err sent\<rparr>) (cl_calls cl1)\<rparr>,
             [encode_frame rpc_id (ca_payload call)]))"

section \<open>The system\<close>

text \<open>
  One server and its clients by address. The network may lose, repeat and reorder messages: what was sent stays
  available for arrival (\<open>rs_requests\<close>, with the client's address, and \<open>rs_responses\<close>, with the destination).
\<close>

record rpc_system =
  rs_server :: rpc_server
  rs_clients :: "(sock_addr, rpc_client) hmap"
  rs_requests :: "(sock_addr \<times> bytes) list"
  rs_responses :: "(sock_addr \<times> bytes) list"

definition system_new :: "sock_addr list \<Rightarrow> rpc_system" where
  "system_new addrs = \<lparr>rs_server = server_new, rs_clients = map (\<lambda>a. (a, client_new)) addrs, rs_requests = [], rs_responses = []\<rparr>"

datatype rpc_event =
    RpcCall sock_addr bytes nat "io_error option"
  | RpcArrive sock_addr bytes
  | RpcTake
  | RpcJob nat "bytes option"
  | RpcAnswer sock_addr bytes
  | RpcReturn sock_addr u64
  | RpcTimeout sock_addr u64 "io_error option"

definition with_client :: "sock_addr \<Rightarrow> (rpc_client \<Rightarrow> rpc_client \<times> bytes list) \<Rightarrow> rpc_system \<Rightarrow> rpc_system option" where
  "with_client a f rs = (case hm_get (rs_clients rs) a of
     None \<Rightarrow> None
   | Some cl \<Rightarrow> (case f cl of (cl1, out) \<Rightarrow>
       Some (rs\<lparr>rs_clients := hm_insert a cl1 (rs_clients rs), rs_requests := rs_requests rs @ map (Pair a) out\<rparr>)))"

text \<open>
  A step of the system; \<^term>\<open>None\<close> when the event cannot happen. A client stops after \<open>2 ^ 64 - 1\<close> calls, before
  its counter repeats an id.
\<close>

fun rpc_step :: "rpc_system \<Rightarrow> rpc_event \<Rightarrow> rpc_system option" where
  "rpc_step rs (RpcCall a payload n sent) =
     (case hm_get (rs_clients rs) a of
        None \<Rightarrow> None
      | Some cl \<Rightarrow> if cl_next_id cl = 0 then None else with_client a (call_begin payload n sent) rs)"
| "rpc_step rs (RpcArrive a frame) =
     (if (a, frame) \<in> set (rs_requests rs) then Some (rs\<lparr>rs_server := server_recv a frame (rs_server rs)\<rparr>) else None)"
| "rpc_step rs RpcTake = Some (rs\<lparr>rs_server := pool_take (rs_server rs)\<rparr>)"
| "rpc_step rs (RpcJob j outcome) =
     (if j < length (sv_active (rs_server rs))
      then case job_step j outcome (sv_active (rs_server rs) ! j) (rs_server rs) of
        (sv, out) \<Rightarrow> Some (rs\<lparr>rs_server := sv, rs_responses := rs_responses rs @ out\<rparr>)
      else None)"
| "rpc_step rs (RpcAnswer a frame) =
     (if (a, frame) \<in> set (rs_responses rs) then with_client a (\<lambda>cl. (client_dispatch frame cl, [])) rs else None)"
| "rpc_step rs (RpcReturn a rpc_id) = with_client a (\<lambda>cl. (call_answered rpc_id cl, [])) rs"
| "rpc_step rs (RpcTimeout a rpc_id sent) = with_client a (call_timed_out rpc_id sent) rs"

definition rpc_run :: "rpc_system \<Rightarrow> rpc_event list \<Rightarrow> rpc_system option" where
  "rpc_run = run_steps rpc_step"

section \<open>Invariant of the server\<close>

text \<open>The keys of the jobs whose handler is still to be called, and of those whose handler runs.\<close>

fun compute_key :: "rpc_job \<Rightarrow> rpc_key list" where
  "compute_key (Compute src rpc_id frame) = [(src, rpc_id)]"
| "compute_key _ = []"

fun running_key :: "rpc_job \<Rightarrow> rpc_key list" where
  "running_key (Running src rpc_id body) = [(src, rpc_id)]"
| "running_key _ = []"

abbreviation keys_of :: "(rpc_job \<Rightarrow> rpc_key list) \<Rightarrow> rpc_job list \<Rightarrow> rpc_key list" where
  "keys_of f jobs \<equiv> concat (map f jobs)"

lemma keys_of_perm: "mset js = mset js' \<Longrightarrow> mset (keys_of f js) = mset (keys_of f js')"
  by (simp add: mset_concat sum_mset_sum_list [symmetric] flip: mset_map) (metis mset_map)

text \<open>The bytes that answer a request: the frame of a result the handler returned for it.\<close>

type_synonym rpc_results = "(rpc_key \<times> bytes \<times> bytes) list"

definition answer :: "rpc_results \<Rightarrow> rpc_key \<Rightarrow> bytes \<Rightarrow> bool" where
  "answer rs key resp \<longleftrightarrow> (\<exists>body rb. (key, body, rb) \<in> set rs \<and> resp = encode_frame (snd key) rb)"

fun job_ok :: "(rpc_key \<times> bytes) list \<Rightarrow> rpc_results \<Rightarrow> (sock_addr \<times> bytes) set \<Rightarrow> rpc_job \<Rightarrow> bool" where
  "job_ok cs rs reqs (Replay src resp) = (\<exists>rpc_id. answer rs (src, rpc_id) resp)"
| "job_ok cs rs reqs (Compute src rpc_id frame) = (\<exists>body. frame = encode_frame rpc_id body \<and> (src, frame) \<in> reqs)"
| "job_ok cs rs reqs (Running src rpc_id body) = (((src, rpc_id), body) \<in> set cs)"
| "job_ok cs rs reqs (Store src rpc_id resp) = answer rs (src, rpc_id) resp"
| "job_ok cs rs reqs (Respond src resp) = (\<exists>rpc_id. answer rs (src, rpc_id) resp)"

definition jobs_ok :: "(rpc_key, bytes option) hmap \<Rightarrow> (rpc_key \<times> bytes) list \<Rightarrow> rpc_results \<Rightarrow> (sock_addr \<times> bytes) set \<Rightarrow>
    rpc_job list \<Rightarrow> bool" where
  "jobs_ok dd cs rs reqs js \<longleftrightarrow>
     distinct (keys_of compute_key js @ map fst cs) \<and> distinct (keys_of running_key js @ map fst rs) \<and>
     (\<forall>key \<in> set (keys_of compute_key js) \<union> fst ` set cs. hm_get dd key \<noteq> None) \<and>
     (\<forall>key resp. hm_get dd key = Some (Some resp) \<longrightarrow> answer rs key resp) \<and>
     (\<forall>job \<in> set js. job_ok cs rs reqs job) \<and>
     (\<forall>(key, body) \<in> set cs. (fst key, encode_frame (snd key) body) \<in> reqs) \<and>
     (\<forall>(key, body, rb) \<in> set rs. (key, body) \<in> set cs)"

definition server_ok :: "rpc_server \<Rightarrow> (sock_addr \<times> bytes) set \<Rightarrow> bool" where
  "server_ok sv reqs \<longleftrightarrow> jobs_ok (sv_dedup sv) (sv_calls sv) (sv_results sv) reqs (sv_jobs sv @ sv_active sv)"

lemma jobs_ok_perm:
  assumes "jobs_ok dd cs rs reqs js" "mset js = mset js'"
  shows "jobs_ok dd cs rs reqs js'"
proof -
  have perm: "mset (keys_of f js' @ xs) = mset (keys_of f js @ xs)" for f xs using keys_of_perm [OF assms(2), of f] by simp
  note dist = mset_eq_imp_distinct_iff [OF perm] and keys = mset_eq_setD [OF keys_of_perm [OF assms(2), symmetric]]
    and set = mset_eq_setD [OF assms(2), symmetric]
  have "jobs_ok dd cs rs reqs js' = jobs_ok dd cs rs reqs js" unfolding jobs_ok_def by (simp only: dist keys set)
  with assms(1) show ?thesis by simp
qed

lemma answer_more: "answer rs key resp \<Longrightarrow> answer (rs @ rs') key resp"
  by (auto simp: answer_def)

lemma job_ok_more: "job_ok cs rs reqs job \<Longrightarrow> reqs \<subseteq> reqs' \<Longrightarrow> job_ok (cs @ cs') (rs @ rs') reqs' job"
  by (cases job) (auto intro: answer_more)

lemma server_ok_more: "server_ok sv reqs \<Longrightarrow> reqs \<subseteq> reqs' \<Longrightarrow> server_ok sv reqs'"
  unfolding server_ok_def jobs_ok_def using job_ok_more [of _ _ reqs _ reqs' "[]" "[]"] by fastforce

lemma server_ok_new: "server_ok server_new reqs"
  by (simp add: server_ok_def jobs_ok_def server_new_def)

lemma recv_ok:
  assumes ok: "server_ok sv reqs" and req: "(src, encode_frame rpc_id body) \<in> reqs"
  shows "server_ok (server_recv src (encode_frame rpc_id body) sv) reqs"
proof -
  let ?js = "sv_jobs sv @ sv_active sv" and ?dd = "sv_dedup sv"
  have jobs: "jobs_ok ?dd (sv_calls sv) (sv_results sv) reqs ?js" using ok by (simp add: server_ok_def)
  have add: "server_ok (pool_submit job (sv\<lparr>sv_dedup := dd\<rparr>)) reqs" if "jobs_ok dd (sv_calls sv) (sv_results sv) reqs (job # ?js)" for job dd
    using that unfolding server_ok_def pool_submit_def by (auto elim!: jobs_ok_perm)
  show ?thesis
  proof (cases "hm_get ?dd (src, rpc_id)")
    case None
    with jobs have "(src, rpc_id) \<notin> set (keys_of compute_key ?js) \<union> fst ` set (sv_calls sv)" unfolding jobs_ok_def by blast
    with jobs req None have "jobs_ok (hm_insert (src, rpc_id) None ?dd) (sv_calls sv) (sv_results sv) reqs (Compute src rpc_id (encode_frame rpc_id body) # ?js)"
      unfolding jobs_ok_def by auto
    from add [OF this] None show ?thesis by (simp add: server_recv_def)
  next
    case (Some r)
    show ?thesis
    proof (cases r)
      case None
      with Some ok show ?thesis by (simp add: server_recv_def)
    next
      case cached: (Some resp)
      with Some jobs have "answer (sv_results sv) (src, rpc_id) resp" unfolding jobs_ok_def by blast
      with jobs have "jobs_ok ?dd (sv_calls sv) (sv_results sv) reqs (Replay src resp # ?js)" unfolding jobs_ok_def by auto
      from add [OF this] Some cached show ?thesis by (simp add: server_recv_def)
    qed
  qed
qed

lemma take_ok: "server_ok sv reqs \<Longrightarrow> server_ok (pool_take sv) reqs"
  unfolding server_ok_def by (cases "sv_jobs sv") (auto simp: pool_take_def elim!: jobs_ok_perm)

text \<open>The job in position \<open>j\<close> in front of the others.\<close>

lemma active_front:
  assumes "j < length xs"
  shows "mset (js @ xs) = mset (xs ! j # js @ take j xs @ drop (Suc j) xs)" "mset (js @ xs[j := x]) = mset (x # js @ take j xs @ drop (Suc j) xs)"
proof -
  have "mset xs = mset (take j xs @ xs ! j # drop (Suc j) xs)" using id_take_nth_drop [OF assms] by simp
  then show "mset (js @ xs) = mset (xs ! j # js @ take j xs @ drop (Suc j) xs)" by simp
  show "mset (js @ xs[j := x]) = mset (x # js @ take j xs @ drop (Suc j) xs)" using assms by (simp add: upd_conv_take_nth_drop)
qed

lemma jobs_okD:
  assumes "jobs_ok dd cs rs reqs js"
  shows "job \<in> set js \<Longrightarrow> job_ok cs rs reqs job" and "(key, body, rb) \<in> set rs \<Longrightarrow> (key, body) \<in> set cs"
    and "hm_get dd key = Some (Some resp) \<Longrightarrow> answer rs key resp"
    and "key \<in> set (keys_of compute_key js) \<union> fst ` set cs \<Longrightarrow> hm_get dd key \<noteq> None"
    and "(key, body) \<in> set cs \<Longrightarrow> (fst key, encode_frame (snd key) body) \<in> reqs"
    and "distinct (keys_of compute_key js @ map fst cs)" "distinct (keys_of running_key js @ map fst rs)"
proof -
  note ok = assms [unfolded jobs_ok_def]
  note c = ok [THEN conjunct2, THEN conjunct2]
  note d = c [THEN conjunct2, THEN conjunct2]
  show "job \<in> set js \<Longrightarrow> job_ok cs rs reqs job" by (rule bspec [OF d [THEN conjunct1]])
  show "(key, body) \<in> set cs" if "(key, body, rb) \<in> set rs"
    using bspec [OF d [THEN conjunct2, THEN conjunct2] that] by (simp only: prod.case)
  show "hm_get dd key = Some (Some resp) \<Longrightarrow> answer rs key resp" by (rule c [THEN conjunct2, THEN conjunct1, rule_format])
  show "key \<in> set (keys_of compute_key js) \<union> fst ` set cs \<Longrightarrow> hm_get dd key \<noteq> None" by (rule bspec [OF c [THEN conjunct1]])
  show "(fst key, encode_frame (snd key) body) \<in> reqs" if "(key, body) \<in> set cs"
    using bspec [OF d [THEN conjunct2, THEN conjunct1] that] by (simp only: prod.case)
  show "distinct (keys_of compute_key js @ map fst cs)" by (rule ok [THEN conjunct1])
  show "distinct (keys_of running_key js @ map fst rs)" by (rule ok [THEN conjunct2, THEN conjunct1])
qed

lemma jobs_okI:
  assumes "\<And>job. job \<in> set js \<Longrightarrow> job_ok cs rs reqs job" and "\<And>key body rb. (key, body, rb) \<in> set rs \<Longrightarrow> (key, body) \<in> set cs"
    and "\<And>key resp. hm_get dd key = Some (Some resp) \<Longrightarrow> answer rs key resp"
    and "\<And>key. key \<in> set (keys_of compute_key js) \<union> fst ` set cs \<Longrightarrow> hm_get dd key \<noteq> None"
    and "\<And>key body. (key, body) \<in> set cs \<Longrightarrow> (fst key, encode_frame (snd key) body) \<in> reqs"
    and "distinct (keys_of compute_key js @ map fst cs)" "distinct (keys_of running_key js @ map fst rs)"
  shows "jobs_ok dd cs rs reqs js"
proof -
  have "\<forall>(key, body) \<in> set cs. (fst key, encode_frame (snd key) body) \<in> reqs" using assms(5) by blast
  moreover have "\<forall>(key, body, rb) \<in> set rs. (key, body) \<in> set cs" using assms(2) by blast
  moreover have "\<forall>job \<in> set js. job_ok cs rs reqs job" using assms(1) by blast
  moreover have "\<forall>key \<in> set (keys_of compute_key js) \<union> fst ` set cs. hm_get dd key \<noteq> None" using assms(4) by (rule ballI)
  moreover have "\<forall>key resp. hm_get dd key = Some (Some resp) \<longrightarrow> answer rs key resp" using assms(3) by simp
  ultimately show ?thesis unfolding jobs_ok_def using assms(6,7) by (intro conjI)
qed

lemma running_called:
  assumes ok: "jobs_ok dd cs rs reqs js" and key: "key \<in> set (keys_of running_key js) \<union> fst ` set rs"
  shows "key \<in> fst ` set cs"
proof -
  have "\<exists>body. (key, body) \<in> set cs"
    using key
  proof
    assume "key \<in> set (keys_of running_key js)"
    then obtain job where job: "job \<in> set js" "key \<in> set (running_key job)" unfolding set_concat set_map by blast
    from jobs_okD(1) [OF ok job(1)] job(2) show ?thesis by (cases job) auto
  next
    assume "key \<in> fst ` set rs"
    then obtain x where x: "x \<in> set rs" "key = fst x" by blast
    obtain k body rb where "x = (k, body, rb)" by (rule prod_cases3)
    with jobs_okD(2) [OF ok, of k body rb] x show ?thesis by auto
  qed
  then show ?thesis by force
qed

lemma handler_called:
  assumes ok: "jobs_ok dd cs rs reqs (Compute src rpc_id (encode_frame rpc_id body) # js)"
  shows "jobs_ok dd (cs @ [((src, rpc_id), body)]) rs reqs (Running src rpc_id body # js)"
proof -
  let ?key = "(src, rpc_id)"
  have key: "?key \<notin> fst ` set cs" "?key \<notin> set (keys_of compute_key js)" using jobs_okD(6) [OF ok] by auto
  have run: "?key \<notin> set (keys_of running_key js) \<union> fst ` set rs" using running_called [OF ok, of ?key] key(1) by auto
  have "job_ok (cs @ [(?key, body)]) rs reqs job" if "job \<in> set js" for job
    using job_ok_more [of cs rs reqs job reqs "[(?key, body)]" "[]"] jobs_okD(1) [OF ok, of job] that by simp
  moreover have "(src, encode_frame rpc_id body) \<in> reqs" using jobs_okD(1) [OF ok, of "Compute src rpc_id (encode_frame rpc_id body)"] by simp
  moreover have "distinct (keys_of compute_key (Running src rpc_id body # js) @ map fst (cs @ [(?key, body)]))"
    using jobs_okD(6) [OF ok] key by simp
  moreover have "distinct (keys_of running_key (Running src rpc_id body # js) @ map fst rs)" using jobs_okD(7) [OF ok] run by simp
  ultimately show ?thesis
    using jobs_okD(2,3,5) [OF ok] jobs_okD(4) [OF ok] by (intro jobs_okI) (auto simp del: distinct_append)
qed

lemma handler_returned:
  assumes ok: "jobs_ok dd cs rs reqs (Running src rpc_id body # js)"
  shows "jobs_ok dd cs (rs @ [((src, rpc_id), body, rb)]) reqs (Store src rpc_id (encode_frame rpc_id rb) # js)"
proof -
  let ?rs = "rs @ [((src, rpc_id), body, rb)]"
  have "job_ok cs ?rs reqs job" if "job \<in> set js" for job
    using job_ok_more [of cs rs reqs job reqs "[]" "[((src, rpc_id), body, rb)]"] jobs_okD(1) [OF ok, of job] that by simp
  moreover have "answer ?rs (src, rpc_id) (encode_frame rpc_id rb)" by (auto simp: answer_def)
  moreover have "((src, rpc_id), body) \<in> set cs" using jobs_okD(1) [OF ok, of "Running src rpc_id body"] by simp
  moreover have "distinct (keys_of running_key (Store src rpc_id (encode_frame rpc_id rb) # js) @ map fst ?rs)" using jobs_okD(7) [OF ok] by auto
  moreover have "distinct (keys_of compute_key (Store src rpc_id (encode_frame rpc_id rb) # js) @ map fst cs)" using jobs_okD(6) [OF ok] by simp
  ultimately show ?thesis
    using jobs_okD(2,5) [OF ok] jobs_okD(4) [OF ok] answer_more [OF jobs_okD(3) [OF ok]] by (intro jobs_okI) (auto simp del: distinct_append)
qed

lemma job_step_ok:
  assumes ok: "server_ok sv reqs" and j: "j < length (sv_active sv)" and step: "job_step j outcome (sv_active sv ! j) sv = (sv', out)"
  shows "server_ok sv' reqs \<and> (\<forall>(a, frame) \<in> set out. \<exists>rpc_id. answer (sv_results sv') (a, rpc_id) frame) \<and>
    (\<exists>more. sv_results sv' = sv_results sv @ more)"
proof -
  let ?rest = "sv_jobs sv @ take j (sv_active sv) @ drop (Suc j) (sv_active sv)"
  have jobs: "jobs_ok (sv_dedup sv) (sv_calls sv) (sv_results sv) reqs (sv_active sv ! j # ?rest)"
    using ok active_front(1) [OF j] unfolding server_ok_def by (rule jobs_ok_perm)
  have set: "server_ok (set_job j job s) reqs" if "jobs_ok (sv_dedup s) (sv_calls s) (sv_results s) reqs (job # ?rest)"
      "sv_jobs s = sv_jobs sv" "sv_active s = sv_active sv" for job s
    using that active_front(2) [OF j, of "sv_jobs sv" job] unfolding server_ok_def set_job_def by (auto elim!: jobs_ok_perm)
  have drop: "server_ok (drop_job j sv) reqs" if "jobs_ok (sv_dedup sv) (sv_calls sv) (sv_results sv) reqs ?rest"
    using that by (simp add: server_ok_def drop_job_def)
  have drop': "server_ok (drop_job j sv) reqs" using jobs by (intro drop) (auto simp: jobs_ok_def)
  show ?thesis
  proof (cases "sv_active sv ! j")
    case (Replay src resp)
    with step drop' jobs show ?thesis by (auto simp: jobs_ok_def drop_job_def)
  next
    case (Compute src rpc_id frame)
    then obtain body where f: "frame = encode_frame rpc_id body" "(src, frame) \<in> reqs" using jobs by (auto simp: jobs_ok_def)
    with jobs Compute have "jobs_ok (sv_dedup sv) (sv_calls sv) (sv_results sv) reqs (Compute src rpc_id (encode_frame rpc_id body) # ?rest)" by simp
    from set [of "sv\<lparr>sv_calls := sv_calls sv @ [((src, rpc_id), body)]\<rparr>"] handler_called [OF this] Compute step f
    show ?thesis by (auto simp: set_job_def)
  next
    case (Running src rpc_id body)
    show ?thesis
    proof (cases outcome)
      case None
      with Running step drop' show ?thesis by (auto simp: drop_job_def)
    next
      case (Some rb)
      from jobs Running have "jobs_ok (sv_dedup sv) (sv_calls sv) (sv_results sv) reqs (Running src rpc_id body # ?rest)" by simp
      from set [of "sv\<lparr>sv_results := sv_results sv @ [((src, rpc_id), body, rb)]\<rparr>"] handler_returned [OF this, of rb] Running Some step
      show ?thesis by (auto simp: set_job_def)
    qed
  next
    case (Store src rpc_id resp)
    have "jobs_ok (hm_insert (src, rpc_id) (Some resp) (sv_dedup sv)) (sv_calls sv) (sv_results sv) reqs (Respond src resp # ?rest)"
      using jobs Store by (auto simp: jobs_ok_def)
    from set [of "sv\<lparr>sv_dedup := hm_insert (src, rpc_id) (Some resp) (sv_dedup sv)\<rparr>"] this Store step show ?thesis by (auto simp: set_job_def)
  next
    case (Respond src resp)
    with step drop' jobs show ?thesis by (auto simp: jobs_ok_def drop_job_def)
  qed
qed

section \<open>Invariant of the system\<close>

definition asked :: "rpc_client \<Rightarrow> bytes \<Rightarrow> bool" where
  "asked cl frame \<longleftrightarrow> (\<exists>rpc_id call. hm_get (cl_calls cl) rpc_id = Some call \<and> frame = encode_frame rpc_id (ca_payload call))"

definition client_ok :: "sock_addr \<Rightarrow> (sock_addr \<times> bytes) set \<Rightarrow> (sock_addr \<times> bytes) set \<Rightarrow> rpc_client \<Rightarrow> bool" where
  "client_ok a reqs resps cl \<longleftrightarrow>
     (\<forall>rpc_id k body. hm_get (cl_chans cl) (rpc_id, k) = Some body \<longrightarrow> (a, encode_frame rpc_id body) \<in> resps) \<and>
     (\<forall>rpc_id call body. hm_get (cl_calls cl) rpc_id = Some call \<longrightarrow> ca_result call = Some (Ok body) \<longrightarrow> (a, encode_frame rpc_id body) \<in> resps) \<and>
     (\<forall>frame. (a, frame) \<in> reqs \<longrightarrow> asked cl frame) \<and>
     (cl_next_id cl = 0 \<or> (\<forall>rpc_id call. hm_get (cl_calls cl) rpc_id = Some call \<longrightarrow> unat rpc_id < unat (cl_next_id cl)))"

definition system_ok :: "rpc_system \<Rightarrow> bool" where
  "system_ok rs \<longleftrightarrow> server_ok (rs_server rs) (set (rs_requests rs)) \<and>
     (\<forall>a cl. hm_get (rs_clients rs) a = Some cl \<longrightarrow> client_ok a (set (rs_requests rs)) (set (rs_responses rs)) cl) \<and>
     (\<forall>(a, frame) \<in> set (rs_requests rs). hm_get (rs_clients rs) a \<noteq> None) \<and>
     (\<forall>(a, frame) \<in> set (rs_responses rs). \<exists>rpc_id. answer (sv_results (rs_server rs)) (a, rpc_id) frame)"

lemma client_okD:
  assumes "client_ok a reqs resps cl"
  shows "hm_get (cl_chans cl) (rpc_id, k) = Some body \<Longrightarrow> (a, encode_frame rpc_id body) \<in> resps"
    and "hm_get (cl_calls cl) rpc_id = Some call \<Longrightarrow> ca_result call = Some (Ok body) \<Longrightarrow> (a, encode_frame rpc_id body) \<in> resps"
    and "(a, frame) \<in> reqs \<Longrightarrow> asked cl frame"
    and "hm_get (cl_calls cl) rpc_id = Some call \<Longrightarrow> cl_next_id cl = 0 \<or> unat rpc_id < unat (cl_next_id cl)"
  using assms unfolding client_ok_def by blast+

lemma client_okI:
  assumes "\<And>rpc_id k body. hm_get (cl_chans cl) (rpc_id, k) = Some body \<Longrightarrow> (a, encode_frame rpc_id body) \<in> resps"
    and "\<And>rpc_id call body. hm_get (cl_calls cl) rpc_id = Some call \<Longrightarrow> ca_result call = Some (Ok body) \<Longrightarrow> (a, encode_frame rpc_id body) \<in> resps"
    and "\<And>frame. (a, frame) \<in> reqs \<Longrightarrow> asked cl frame"
    and "\<And>rpc_id call. hm_get (cl_calls cl) rpc_id = Some call \<Longrightarrow> cl_next_id cl = 0 \<or> unat rpc_id < unat (cl_next_id cl)"
  shows "client_ok a reqs resps cl"
  using assms unfolding client_ok_def by blast

lemma client_ok_more: "client_ok a reqs resps cl \<Longrightarrow> resps \<subseteq> resps' \<Longrightarrow> (\<And>f. (a, f) \<in> reqs' \<Longrightarrow> (a, f) \<in> reqs) \<Longrightarrow> client_ok a reqs' resps' cl"
  unfolding client_ok_def by blast

lemma dispatch_ok:
  assumes ok: "client_ok a reqs resps cl" and f: "(a, encode_frame rpc_id body) \<in> resps"
  shows "client_ok a reqs resps (client_dispatch (encode_frame rpc_id body) cl)"
proof (cases "hm_get (cl_waiters cl) rpc_id")
  case None
  with ok show ?thesis by (simp add: client_dispatch_def)
next
  case (Some k)
  let ?cl = "cl\<lparr>cl_waiters := hm_remove rpc_id (cl_waiters cl), cl_chans := hm_insert (rpc_id, k) body (cl_chans cl)\<rparr>"
  have "client_ok a reqs resps ?cl"
    using f client_okD [OF ok] by (intro client_okI) (auto simp: asked_def split: if_splits)
  with Some show ?thesis by (simp add: client_dispatch_def)
qed

text \<open>A change of one call that keeps its payload.\<close>

lemma update_call_ok:
  assumes ok: "client_ok a reqs resps cl" and call: "hm_get (cl_calls cl) rpc_id = Some call" and same: "ca_payload call' = ca_payload call"
    and res: "\<And>body. ca_result call' = Some (Ok body) \<Longrightarrow> (a, encode_frame rpc_id body) \<in> resps"
    and out: "set out \<subseteq> {encode_frame rpc_id (ca_payload call)}"
  shows "client_ok a (reqs \<union> Pair a ` set out) resps (cl\<lparr>cl_waiters := w, cl_calls := hm_insert rpc_id call' (cl_calls cl)\<rparr>)"
proof -
  let ?cl = "cl\<lparr>cl_waiters := w, cl_calls := hm_insert rpc_id call' (cl_calls cl)\<rparr>"
  have keep: "asked ?cl frame" if "asked cl frame" for frame
  proof -
    from that obtain i c where ic: "hm_get (cl_calls cl) i = Some c" "frame = encode_frame i (ca_payload c)" by (auto simp: asked_def)
    then show ?thesis unfolding asked_def using call same
      by (intro exI [of _ i] exI [of _ "if i = rpc_id then call' else c"]) auto
  qed
  have "asked ?cl (encode_frame rpc_id (ca_payload call))" using same unfolding asked_def by (intro exI [of _ rpc_id] exI [of _ call']) simp
  with keep client_okD(3) [OF ok] out have req: "asked ?cl frame" if "(a, frame) \<in> reqs \<union> Pair a ` set out" for frame using that by blast
  show ?thesis
  proof (rule client_okI)
    fix i c b
    assume "hm_get (cl_calls ?cl) i = Some c" "ca_result c = Some (Ok b)"
    then show "(a, encode_frame i b) \<in> resps" using res client_okD(2) [OF ok] by (auto split: if_splits)
  next
    fix i c
    assume "hm_get (cl_calls ?cl) i = Some c"
    then show "cl_next_id ?cl = 0 \<or> unat i < unat (cl_next_id ?cl)" using client_okD(4) [OF ok] call by (auto split: if_splits)
  qed (use req client_okD(1) [OF ok] in auto)
qed

lemma answered_ok:
  assumes "client_ok a reqs resps cl"
  shows "client_ok a reqs resps (call_answered rpc_id cl)"
proof (cases "hm_get (cl_calls cl) rpc_id")
  case None
  with assms show ?thesis by (simp add: call_answered_def)
next
  case (Some call)
  have "client_ok a reqs resps (cl\<lparr>cl_calls := hm_insert rpc_id (call\<lparr>ca_result := Some (Ok body)\<rparr>) (cl_calls cl)\<rparr>)"
    if "hm_get (cl_chans cl) (rpc_id, ca_attempt call) = Some body" for body
    using update_call_ok [OF assms Some, of "call\<lparr>ca_result := Some (Ok body)\<rparr>" "[]" "cl_waiters cl"] client_okD(1) [OF assms that] by simp
  with assms Some show ?thesis by (simp add: call_answered_def split: option.split)
qed

lemma timed_out_ok:
  assumes ok: "client_ok a reqs resps cl" and step: "call_timed_out rpc_id sent cl = (cl', out)"
  shows "client_ok a (reqs \<union> Pair a ` set out) resps cl'"
proof (cases "hm_get (cl_calls cl) rpc_id")
  case None
  with assms show ?thesis by (auto simp: call_timed_out_def)
next
  case (Some call)
  consider "ca_result call \<noteq> None" | "ca_result call = None" "ca_left call = 0" | "ca_result call = None" "ca_left call \<noteq> 0" by blast
  then show ?thesis
  proof cases
    case 1
    with Some assms show ?thesis by (auto simp: call_timed_out_def)
  next
    case 2
    with Some step update_call_ok [OF ok Some, of "call\<lparr>ca_result := Some (Err TimedOut)\<rparr>" "[]" "hm_remove rpc_id (cl_waiters cl)"]
    show ?thesis by (auto simp: call_timed_out_def Let_def)
  next
    case 3
    let ?call = "call\<lparr>ca_left := ca_left call - 1, ca_attempt := ca_attempt call + 1, ca_result := map_option Err sent\<rparr>"
    let ?w = "hm_insert rpc_id (ca_attempt call + 1) (hm_remove rpc_id (cl_waiters cl))"
    have "out = [encode_frame rpc_id (ca_payload call)]"
      "cl' = cl\<lparr>cl_waiters := ?w, cl_calls := hm_insert rpc_id ?call (cl_calls cl)\<rparr>"
      using 3 Some step by (auto simp: call_timed_out_def Let_def)
    with update_call_ok [OF ok Some, of ?call out ?w] show ?thesis by (simp split: if_splits)
  qed
qed

lemma begin_ok:
  assumes ok: "client_ok a reqs resps cl" and n: "cl_next_id cl \<noteq> 0" and step: "call_begin payload m sent cl = (cl', out)"
  shows "client_ok a (reqs \<union> Pair a ` set out) resps cl'"
proof -
  let ?id = "cl_next_id cl"
  let ?call = "\<lparr>ca_payload = payload, ca_left = max m 1 - 1, ca_attempt = 0, ca_result = map_option Err sent\<rparr>"
  let ?cl = "cl\<lparr>cl_next_id := ?id + 1, cl_waiters := hm_insert ?id 0 (cl_waiters cl), cl_calls := hm_insert ?id ?call (cl_calls cl)\<rparr>"
  have cl': "cl' = ?cl" "set out \<subseteq> {encode_frame ?id payload}" using step by (auto simp: call_begin_def Let_def split: if_splits)
  have new: "i \<noteq> ?id" if "hm_get (cl_calls cl) i = Some c" for i c using client_okD(4) [OF ok that] n by auto
  have "asked ?cl (encode_frame ?id payload)" unfolding asked_def by (intro exI [of _ ?id] exI [of _ ?call]) simp
  moreover have "asked ?cl frame" if "asked cl frame" for frame
  proof -
    from that obtain i c where "hm_get (cl_calls cl) i = Some c" "frame = encode_frame i (ca_payload c)" by (auto simp: asked_def)
    with new [of i c] show ?thesis unfolding asked_def by (intro exI [of _ i] exI [of _ c]) auto
  qed
  ultimately have req: "asked ?cl frame" if "(a, frame) \<in> reqs \<union> Pair a ` set out" for frame using that client_okD(3) [OF ok] cl'(2) by blast
  show ?thesis unfolding cl'(1)
  proof (rule client_okI)
    fix i c b
    assume "hm_get (cl_calls ?cl) i = Some c" "ca_result c = Some (Ok b)"
    then show "(a, encode_frame i b) \<in> resps" using client_okD(2) [OF ok] by (auto split: if_splits)
  next
    fix i c
    assume "hm_get (cl_calls ?cl) i = Some c"
    then show "cl_next_id ?cl = 0 \<or> unat i < unat (cl_next_id ?cl)"
      using client_okD(4) [OF ok, of i c] n counter_suc [of ?id] by (auto split: if_splits)
  qed (use req client_okD(1) [OF ok] in auto)
qed

text \<open>The parts of the invariant, one at a time.\<close>

lemma system_okD:
  assumes "system_ok rs"
  shows "server_ok (rs_server rs) (set (rs_requests rs))"
    and "(a, frame) \<in> set (rs_responses rs) \<Longrightarrow> \<exists>rpc_id. answer (sv_results (rs_server rs)) (a, rpc_id) frame"
    and "hm_get (rs_clients rs) a = Some cl \<Longrightarrow> client_ok a (set (rs_requests rs)) (set (rs_responses rs)) cl"
    and "(a, frame) \<in> set (rs_requests rs) \<Longrightarrow> hm_get (rs_clients rs) a \<noteq> None"
  using assms unfolding system_ok_def by blast+

lemma system_okI:
  assumes "server_ok (rs_server rs) (set (rs_requests rs))"
    and "\<And>a frame. (a, frame) \<in> set (rs_responses rs) \<Longrightarrow> \<exists>rpc_id. answer (sv_results (rs_server rs)) (a, rpc_id) frame"
    and "\<And>a cl. hm_get (rs_clients rs) a = Some cl \<Longrightarrow> client_ok a (set (rs_requests rs)) (set (rs_responses rs)) cl"
    and "\<And>a frame. (a, frame) \<in> set (rs_requests rs) \<Longrightarrow> hm_get (rs_clients rs) a \<noteq> None"
  shows "system_ok rs"
  using assms unfolding system_ok_def by blast

text \<open>A request that arrives is a frame of a call of its client.\<close>

lemma request_frame:
  assumes "system_ok rs" "(a, frame) \<in> set (rs_requests rs)"
  shows "\<exists>cl. hm_get (rs_clients rs) a = Some cl \<and> client_ok a (set (rs_requests rs)) (set (rs_responses rs)) cl \<and> asked cl frame"
proof -
  have "hm_get (rs_clients rs) a \<noteq> None" using assms unfolding system_ok_def by blast
  then obtain cl where cl: "hm_get (rs_clients rs) a = Some cl" by blast
  then have "client_ok a (set (rs_requests rs)) (set (rs_responses rs)) cl" using assms(1) unfolding system_ok_def by blast
  with cl client_okD(3) [OF this assms(2)] show ?thesis by blast
qed

lemma with_client_ok:
  assumes ok: "system_ok rs" and step: "with_client a f rs = Some rs'"
    and f: "\<And>cl cl' out. hm_get (rs_clients rs) a = Some cl \<Longrightarrow> client_ok a (set (rs_requests rs)) (set (rs_responses rs)) cl \<Longrightarrow>
      f cl = (cl', out) \<Longrightarrow> client_ok a (set (rs_requests rs) \<union> Pair a ` set out) (set (rs_responses rs)) cl'"
  shows "system_ok rs'"
proof -
  from step obtain cl cl' out where cl: "hm_get (rs_clients rs) a = Some cl" "f cl = (cl', out)"
    and rs': "rs' = rs\<lparr>rs_clients := hm_insert a cl' (rs_clients rs), rs_requests := rs_requests rs @ map (Pair a) out\<rparr>"
    by (auto simp: with_client_def split: option.splits prod.splits)
  have reqs: "set (rs_requests rs') = set (rs_requests rs) \<union> Pair a ` set out" using rs' by auto
  show ?thesis
  proof (rule system_okI)
    show "server_ok (rs_server rs') (set (rs_requests rs'))"
      using server_ok_more [OF system_okD(1) [OF ok], of "set (rs_requests rs')"] reqs rs' by simp
    show "client_ok b (set (rs_requests rs')) (set (rs_responses rs')) c" if get: "hm_get (rs_clients rs') b = Some c" for b c
    proof (cases "b = a")
      case True
      with get rs' have "c = cl'" by simp
      with f [OF cl(1) system_okD(3) [OF ok cl(1)] cl(2)] reqs True rs' show ?thesis by simp
    next
      case False
      with get rs' have "hm_get (rs_clients rs) b = Some c" by simp
      from client_ok_more [OF system_okD(3) [OF ok this] subset_refl, of "set (rs_requests rs')"] False reqs rs' show ?thesis by auto
    qed
    show "hm_get (rs_clients rs') b \<noteq> None" if "(b, frame) \<in> set (rs_requests rs')" for b frame
      using that reqs rs' system_okD(4) [OF ok, of b frame] by auto
    show "\<exists>rpc_id. answer (sv_results (rs_server rs')) (b, rpc_id) frame" if "(b, frame) \<in> set (rs_responses rs')" for b frame
      using that rs' system_okD(2) [OF ok, of b frame] by simp
  qed
qed

lemma response_frame:
  assumes "system_ok rs" "(a, frame) \<in> set (rs_responses rs)"
  shows "\<exists>rpc_id body rb. frame = encode_frame rpc_id rb \<and> ((a, rpc_id), body, rb) \<in> set (sv_results (rs_server rs))"
proof -
  have "\<exists>rpc_id. answer (sv_results (rs_server rs)) (a, rpc_id) frame" using assms unfolding system_ok_def by blast
  then show ?thesis unfolding answer_def by auto
qed

lemma rpc_step_ok:
  assumes ok: "system_ok rs" and step: "rpc_step rs ev = Some rs'"
  shows "system_ok rs'"
proof (cases ev)
  case (RpcCall a payload n sent)
  with step obtain cl where cl: "hm_get (rs_clients rs) a = Some cl" "cl_next_id cl \<noteq> 0" "with_client a (call_begin payload n sent) rs = Some rs'"
    by (auto split: option.splits if_splits)
  from ok cl(3) show ?thesis by (rule with_client_ok) (use cl(1,2) begin_ok in auto)
next
  case (RpcArrive a frame)
  then have req: "(a, frame) \<in> set (rs_requests rs)" and rs': "rs' = rs\<lparr>rs_server := server_recv a frame (rs_server rs)\<rparr>"
    using step by (auto split: if_splits)
  from request_frame [OF ok req] obtain rpc_id body where f: "frame = encode_frame rpc_id body" by (auto simp: asked_def)
  have "sv_results (server_recv a frame (rs_server rs)) = sv_results (rs_server rs)"
    by (auto simp: server_recv_def pool_submit_def split: option.split)
  moreover have "server_ok (server_recv a frame (rs_server rs)) (set (rs_requests rs))"
    using ok req recv_ok unfolding system_ok_def f by blast
  ultimately show ?thesis using ok rs' unfolding system_ok_def by simp
next
  case RpcTake
  have "sv_results (pool_take (rs_server rs)) = sv_results (rs_server rs)" by (simp add: pool_take_def split: list.split)
  moreover have "server_ok (pool_take (rs_server rs)) (set (rs_requests rs))" using ok take_ok unfolding system_ok_def by blast
  ultimately show ?thesis using ok RpcTake step unfolding system_ok_def by auto
next
  case (RpcJob j outcome)
  obtain sv out where js: "job_step j outcome (sv_active (rs_server rs) ! j) (rs_server rs) = (sv, out)" by fastforce
  with RpcJob step have j: "j < length (sv_active (rs_server rs))"
    and rs': "rs' = rs\<lparr>rs_server := sv, rs_responses := rs_responses rs @ out\<rparr>" by (auto split: if_splits)
  have "server_ok (rs_server rs) (set (rs_requests rs))" using ok by (simp add: system_ok_def)
  from job_step_ok [OF this j js] obtain more where sv: "server_ok sv (set (rs_requests rs))"
    "\<forall>(a, frame) \<in> set out. \<exists>rpc_id. answer (sv_results sv) (a, rpc_id) frame" "sv_results sv = sv_results (rs_server rs) @ more" by blast
  have "client_ok a (set (rs_requests rs)) (set (rs_responses rs @ out)) cl" if "hm_get (rs_clients rs) a = Some cl" for a cl
  proof -
    have "client_ok a (set (rs_requests rs)) (set (rs_responses rs)) cl" using ok that unfolding system_ok_def by blast
    then show ?thesis by (rule client_ok_more) auto
  qed
  moreover have "\<exists>rpc_id. answer (sv_results sv) (a, rpc_id) frame" if "(a, frame) \<in> set (rs_responses rs @ out)" for a frame
  proof (cases "(a, frame) \<in> set out")
    case False
    with that have "\<exists>rpc_id. answer (sv_results (rs_server rs)) (a, rpc_id) frame" using ok unfolding system_ok_def by auto
    then show ?thesis using sv(3) answer_more by metis
  qed (use sv(2) in blast)
  ultimately show ?thesis using ok rs' sv(1) unfolding system_ok_def by auto
next
  case (RpcAnswer a frame)
  then have resp: "(a, frame) \<in> set (rs_responses rs)" and w: "with_client a (\<lambda>cl. (client_dispatch frame cl, [])) rs = Some rs'"
    using step by (auto split: if_splits)
  from response_frame [OF ok resp] obtain rpc_id rb where "frame = encode_frame rpc_id rb" by blast
  with resp show ?thesis by (intro with_client_ok [OF ok w]) (auto intro: dispatch_ok)
next
  case (RpcReturn a rpc_id)
  with step show ?thesis by (intro with_client_ok [OF ok, of a "\<lambda>cl. (call_answered rpc_id cl, [])"]) (auto intro: answered_ok)
next
  case (RpcTimeout a rpc_id sent)
  with step show ?thesis by (intro with_client_ok [OF ok, of a "call_timed_out rpc_id sent"]) (auto intro: timed_out_ok)
qed

lemma client_ok_new: "client_ok a {} resps client_new"
  by (simp add: client_ok_def client_new_def)

lemma system_ok_new: "system_ok (system_new addrs)"
proof (rule system_okI)
  fix a cl
  assume "hm_get (rs_clients (system_new addrs)) a = Some cl"
  from map_of_SomeD [OF this] have "cl = client_new" by (auto simp: system_new_def)
  then show "client_ok a (set (rs_requests (system_new addrs))) (set (rs_responses (system_new addrs))) cl"
    using client_ok_new by (simp add: system_new_def)
qed (simp_all add: system_new_def server_ok_new)

interpretation rpc: safe_machine "\<lambda>rs. \<exists>addrs. rs = system_new addrs" rpc_step system_ok
  by unfold_locales (auto simp: system_ok_new intro: rpc_step_ok)

text \<open>
  A request whose handler was called and neither runs nor has returned. Its entry in the table keeps a second
  invocation away, so nothing will ever answer it.
\<close>

definition forsaken :: "rpc_key \<Rightarrow> rpc_system \<Rightarrow> bool" where
  "forsaken key rs \<longleftrightarrow> system_ok rs \<and> key \<in> fst ` set (sv_calls (rs_server rs)) \<and> key \<notin> fst ` set (sv_results (rs_server rs)) \<and>
     key \<notin> set (keys_of running_key (sv_jobs (rs_server rs) @ sv_active (rs_server rs)))"

lemma job_step_forsaken:
  assumes calls: "key \<in> fst ` set (sv_calls sv)" and dist: "distinct (keys_of compute_key (sv_jobs sv @ sv_active sv) @ map fst (sv_calls sv))"
    and results: "key \<notin> fst ` set (sv_results sv)" and run: "key \<notin> set (keys_of running_key (sv_jobs sv @ sv_active sv))"
    and j: "j < length (sv_active sv)" and step: "job_step j outcome (sv_active sv ! j) sv = (sv', out)"
  shows "key \<in> fst ` set (sv_calls sv') \<and> key \<notin> fst ` set (sv_results sv') \<and> key \<notin> set (keys_of running_key (sv_jobs sv' @ sv_active sv'))"
proof -
  let ?job = "sv_active sv ! j"
  have job: "?job \<in> set (sv_active sv)" using j by simp
  have new: "key \<notin> set (compute_key ?job)" using calls dist job by auto
  have old: "key \<notin> set (running_key job)" if "job \<in> set (sv_jobs sv) \<union> set (sv_active sv)" for job using run that by auto
  have set: "key \<notin> set (keys_of running_key (sv_jobs sv @ (sv_active sv)[j := x]))" if "key \<notin> set (running_key x)" for x
    using that old set_update_subset_insert [of "sv_active sv" j x] by fastforce
  have "key \<notin> set (keys_of running_key (sv_jobs sv @ take j (sv_active sv) @ drop (Suc j) (sv_active sv)))"
    using old in_set_takeD [of _ j "sv_active sv"] in_set_dropD [of _ "Suc j" "sv_active sv"] by auto
  with calls results have drop: ?thesis if "sv' = drop_job j sv" using that by (simp add: drop_job_def)
  show ?thesis
  proof (cases ?job)
    case (Compute src rpc_id frame)
    with step have "sv' = sv\<lparr>sv_calls := sv_calls sv @ [((src, rpc_id), drop RPC_HDR frame)],
      sv_active := (sv_active sv)[j := Running src rpc_id (drop RPC_HDR frame)]\<rparr>" by (simp add: set_job_def)
    with Compute new calls results set [of "Running src rpc_id (drop RPC_HDR frame)"] show ?thesis by simp
  next
    case (Running src rpc_id body)
    with old [of ?job] job have key: "key \<noteq> (src, rpc_id)" by simp
    show ?thesis
    proof (cases outcome)
      case None
      with Running step have "sv' = drop_job j sv" by simp
      then show ?thesis by (rule drop)
    next
      case (Some rb)
      with Running step have "sv' = sv\<lparr>sv_results := sv_results sv @ [((src, rpc_id), body, rb)],
        sv_active := (sv_active sv)[j := Store src rpc_id (encode_frame rpc_id rb)]\<rparr>" by (simp add: set_job_def)
      with key calls results set [of "Store src rpc_id (encode_frame rpc_id rb)"] show ?thesis by simp
    qed
  next
    case (Store src rpc_id resp)
    with step have "sv_calls sv' = sv_calls sv" "sv_results sv' = sv_results sv" "sv_jobs sv' = sv_jobs sv"
      "sv_active sv' = (sv_active sv)[j := Respond src resp]" by (auto simp: set_job_def)
    with calls results set [of "Respond src resp"] show ?thesis by simp
  qed (use step drop in simp_all)
qed

lemma with_client_server: "with_client a f rs = Some rs' \<Longrightarrow> rs_server rs' = rs_server rs"
  by (auto simp: with_client_def split: option.splits prod.splits)

lemma forsaken_same:
  assumes "forsaken key rs" "system_ok rs'" "rs_server rs' = sv" "sv_calls sv = sv_calls (rs_server rs)" "sv_results sv = sv_results (rs_server rs)"
    "set (keys_of running_key (sv_jobs sv @ sv_active sv)) = set (keys_of running_key (sv_jobs (rs_server rs) @ sv_active (rs_server rs)))"
  shows "forsaken key rs'"
  using assms unfolding forsaken_def by (simp only: simp_thms)

lemma rpc_step_forsaken:
  assumes dead: "forsaken key rs" and step: "rpc_step rs ev = Some rs'"
  shows "forsaken key rs'"
proof -
  let ?sv = "rs_server rs"
  have old: "system_ok rs" using dead unfolding forsaken_def by (rule conjunct1)
  have ok: "system_ok rs'" by (rule rpc_step_ok [OF old step])
  have keep: ?thesis if "with_client a f rs = Some rs'" for a f
    using dead ok with_client_server [OF that] by (rule forsaken_same) simp_all
  show ?thesis
  proof (cases ev)
    case (RpcArrive a frame)
    with step have "rs_server rs' = server_recv a frame ?sv" by (auto split: if_splits)
    with dead ok show ?thesis by (rule forsaken_same) (auto simp: server_recv_def pool_submit_def split: option.split)
  next
    case RpcTake
    with step have "rs_server rs' = pool_take ?sv" by auto
    with dead ok show ?thesis by (rule forsaken_same) (auto simp: pool_take_def split: list.split)
  next
    case (RpcJob j outcome)
    obtain sv out where js: "job_step j outcome (sv_active ?sv ! j) ?sv = (sv, out)" by fastforce
    with RpcJob step have j: "j < length (sv_active ?sv)" and rs': "rs_server rs' = sv" by (auto split: if_splits)
    have "jobs_ok (sv_dedup ?sv) (sv_calls ?sv) (sv_results ?sv) (set (rs_requests rs)) (sv_jobs ?sv @ sv_active ?sv)"
      using system_okD(1) [OF old] unfolding server_ok_def .
    from job_step_forsaken [OF _ jobs_okD(6) [OF this] _ _ j js, of key] dead ok rs' show ?thesis
      unfolding forsaken_def by (simp only: simp_thms)
  next
    case (RpcCall a payload n sent)
    with step have "with_client a (call_begin payload n sent) rs = Some rs'" by (auto split: option.splits if_splits)
    then show ?thesis by (rule keep)
  next
    case (RpcAnswer a frame)
    with step have "with_client a (\<lambda>cl. (client_dispatch frame cl, [])) rs = Some rs'" by (auto split: if_splits)
    then show ?thesis by (rule keep)
  qed (use step keep in simp_all)
qed

interpretation dead: safe_machine "forsaken key" rpc_step "forsaken key" for key
  by unfold_locales (auto intro: rpc_step_forsaken)

lemma forsaken_unanswered:
  assumes "forsaken (a, rpc_id) rs"
  shows "(a, encode_frame rpc_id b) \<notin> set (rs_responses rs)"
proof
  assume "(a, encode_frame rpc_id b) \<in> set (rs_responses rs)"
  from response_frame [OF _ this] assms show False unfolding forsaken_def by force
qed

lemma panic_forsakes:
  assumes ok: "system_ok rs" and j: "j < length (sv_active (rs_server rs))" and job: "sv_active (rs_server rs) ! j = Running a rpc_id body"
    and step: "rpc_step rs (RpcJob j None) = Some rs'"
  shows "forsaken (a, rpc_id) rs'"
proof -
  let ?sv = "rs_server rs" and ?rest = "sv_jobs (rs_server rs) @ take j (sv_active (rs_server rs)) @ drop (Suc j) (sv_active (rs_server rs))"
  have rs': "rs_server rs' = drop_job j ?sv" using j job step by auto
  have "jobs_ok (sv_dedup ?sv) (sv_calls ?sv) (sv_results ?sv) (set (rs_requests rs)) (sv_jobs ?sv @ sv_active ?sv)"
    using system_okD(1) [OF ok] unfolding server_ok_def .
  then have jobs: "jobs_ok (sv_dedup ?sv) (sv_calls ?sv) (sv_results ?sv) (set (rs_requests rs)) (Running a rpc_id body # ?rest)"
    using active_front(1) [OF j] job by (metis jobs_ok_perm)
  have "(a, rpc_id) \<in> fst ` set (sv_calls ?sv)" using jobs_okD(1) [OF jobs, of "Running a rpc_id body"] by force
  moreover have "(a, rpc_id) \<notin> set (keys_of running_key ?rest) \<union> fst ` set (sv_results ?sv)" using jobs_okD(7) [OF jobs] by auto
  ultimately show ?thesis using rs' rpc_step_ok [OF ok step] unfolding forsaken_def drop_job_def by simp
qed

section \<open>Properties\<close>

text \<open>
  C7. Answers of calls. However requests and responses are lost, repeated and reordered, whatever times out and however
  the threads of the server interleave, the handler is invoked at most once for every call, and a call
  that returns successfully returns what the handler returned for the payload of that call.
\<close>

theorem rpc_call_returns_its_answer:
  assumes "rpc_run (system_new addrs) evs = Some rs"
  shows "distinct (map fst (sv_calls (rs_server rs))) \<and> distinct (map fst (sv_results (rs_server rs))) \<and>
    (\<forall>a cl rpc_id call body. hm_get (rs_clients rs) a = Some cl \<longrightarrow> hm_get (cl_calls cl) rpc_id = Some call \<longrightarrow>
       ca_result call = Some (Ok body) \<longrightarrow>
       ((a, rpc_id), ca_payload call) \<in> set (sv_calls (rs_server rs)) \<and> ((a, rpc_id), ca_payload call, body) \<in> set (sv_results (rs_server rs)))"
proof -
  let ?sv = "rs_server rs" and ?reqs = "set (rs_requests rs)"
  have ok: "system_ok rs" using rpc.run_inv [OF system_ok_new] assms unfolding rpc_run_def by blast
  then have jobs: "jobs_ok (sv_dedup ?sv) (sv_calls ?sv) (sv_results ?sv) ?reqs (sv_jobs ?sv @ sv_active ?sv)"
    by (simp add: system_ok_def server_ok_def)
  have "((a, i), ca_payload call) \<in> set (sv_calls ?sv) \<and> ((a, i), ca_payload call, body) \<in> set (sv_results ?sv)"
    if cl: "hm_get (rs_clients rs) a = Some cl" and call: "hm_get (cl_calls cl) i = Some call" and r: "ca_result call = Some (Ok body)" for a cl i call body
  proof -
    have c: "client_ok a ?reqs (set (rs_responses rs)) cl" using ok cl unfolding system_ok_def by blast
    from response_frame [OF ok client_okD(2) [OF c call r]] obtain b where res: "((a, i), b, body) \<in> set (sv_results ?sv)" by auto
    from jobs_okD(2) [OF jobs res] have called: "((a, i), b) \<in> set (sv_calls ?sv)" .
    from jobs_okD(5) [OF jobs called] have "(a, encode_frame i b) \<in> ?reqs" by simp
    from client_okD(3) [OF c this] call have "b = ca_payload call" by (auto simp: asked_def)
    with res called show ?thesis by simp
  qed
  moreover have "distinct (map fst (sv_calls ?sv))" "distinct (map fst (sv_results ?sv))" using jobs_okD(6,7) [OF jobs] by simp_all
  ultimately show ?thesis by blast
qed

text \<open>Two clients; a request that arrives twice, a timeout with a second attempt, and a replayed response.\<close>

abbreviation client_a :: sock_addr where "client_a \<equiv> ([10, 0, 0, 1], 4000)"

abbreviation client_b :: sock_addr where "client_b \<equiv> ([10, 0, 0, 2], 4000)"

definition demo_calls :: "rpc_event list" where
  "demo_calls =
     [RpcCall client_a [1, 2] 3 None, RpcCall client_b [3] 1 None, RpcArrive client_a (encode_frame 1 [1, 2]), RpcTake,
      RpcTimeout client_a 1 None, RpcArrive client_a (encode_frame 1 [1, 2]), RpcJob 0 None, RpcJob 0 (Some [9]), RpcJob 0 None,
      RpcArrive client_a (encode_frame 1 [1, 2]), RpcTake, RpcJob 1 None, RpcAnswer client_a (encode_frame 1 [9]), RpcReturn client_a 1]"

lemmas rpc_eval = rpc_run_def system_new_def server_new_def client_new_def with_client_def call_begin_def call_timed_out_def
  call_answered_def client_dispatch_def server_recv_def pool_submit_def pool_take_def drop_job_def set_job_def

text \<open>The run of the example, its last state kept under a name.\<close>

definition demo_state :: rpc_system where
  "demo_state = the (rpc_run (system_new [client_a, client_b]) demo_calls)"

lemma demo_run: "rpc_run (system_new [client_a, client_b]) demo_calls = Some demo_state"
  unfolding demo_state_def by (simp add: demo_calls_def rpc_eval Let_def)

lemma demo_call: "hm_get (rs_clients demo_state) client_a \<noteq> None" "hm_get (cl_calls (the (hm_get (rs_clients demo_state) client_a))) 1 \<noteq> None"
  "ca_result (the (hm_get (cl_calls (the (hm_get (rs_clients demo_state) client_a))) 1)) = Some (Ok [9])"
  "ca_payload (the (hm_get (cl_calls (the (hm_get (rs_clients demo_state) client_a))) 1)) = [1, 2]"
  unfolding demo_state_def by (simp_all add: demo_calls_def rpc_eval Let_def)

theorem rpc_call_returns_its_answer_witness: "((client_a, 1), [1, 2], [9]) \<in> set (sv_results (rs_server demo_state))"
proof -
  obtain cl where cl: "hm_get (rs_clients demo_state) client_a = Some cl" using demo_call(1) by blast
  obtain call where call: "hm_get (cl_calls cl) 1 = Some call" using demo_call(2) cl by auto
  have "ca_result call = Some (Ok [9])" "ca_payload call = [1, 2]" using demo_call(3,4) cl call by auto
  with rpc_call_returns_its_answer [OF demo_run, THEN conjunct2, THEN conjunct2, rule_format, OF cl call] show ?thesis by auto
qed

text \<open>
  C40. A handler that panics. When the handler panics, the request keeps its place in the table of the server:
  whatever happens later, also when the client repeats the request, no answer is ever sent, and the call never succeeds.
\<close>

theorem panicked_request_never_answered:
  assumes "rpc_run (system_new addrs) evs = Some rs" and "j < length (sv_active (rs_server rs))"
    and "sv_active (rs_server rs) ! j = Running a rpc_id body" and "rpc_run rs (RpcJob j None # later) = Some rs'"
  shows "(\<forall>b. (a, encode_frame rpc_id b) \<notin> set (rs_responses rs')) \<and>
    (\<forall>cl call b. hm_get (rs_clients rs') a = Some cl \<longrightarrow> hm_get (cl_calls cl) rpc_id = Some call \<longrightarrow> ca_result call \<noteq> Some (Ok b))"
proof -
  have ok: "system_ok rs" using rpc.run_inv [OF system_ok_new] assms(1) unfolding rpc_run_def by blast
  from assms(4) obtain rs1 where rs1: "rpc_step rs (RpcJob j None) = Some rs1" "run_steps rpc_step rs1 later = Some rs'"
    by (auto simp: rpc_run_def split: option.splits)
  have dead: "forsaken (a, rpc_id) rs'" by (rule dead.run_inv [OF panic_forsakes [OF ok assms(2,3) rs1(1)] rs1(2)])
  have ok': "system_ok rs'" using dead unfolding forsaken_def by (rule conjunct1)
  have "ca_result call \<noteq> Some (Ok b)" if "hm_get (rs_clients rs') a = Some cl" "hm_get (cl_calls cl) rpc_id = Some call" for cl call b
    using forsaken_unanswered [OF dead, of b] client_okD(2) [OF system_okD(3) [OF ok' that(1)] that(2), of b] by blast
  with forsaken_unanswered [OF dead] show ?thesis by blast
qed

definition demo_panic :: "rpc_event list" where
  "demo_panic = [RpcCall client_a [1, 2] 3 None, RpcArrive client_a (encode_frame 1 [1, 2]), RpcTake, RpcJob 0 None]"

definition panic_state :: rpc_system where
  "panic_state = the (rpc_run (system_new [client_a]) demo_panic)"

definition retried_state :: rpc_system where
  "retried_state = the (rpc_run panic_state [RpcJob 0 None, RpcTimeout client_a 1 None, RpcArrive client_a (encode_frame 1 [1, 2]), RpcTake])"

lemma demo_panic_run:
  "rpc_run (system_new [client_a]) demo_panic = Some panic_state"
  "0 < length (sv_active (rs_server panic_state))" "sv_active (rs_server panic_state) ! 0 = Running client_a 1 [1, 2]"
  "rpc_run panic_state [RpcJob 0 None, RpcTimeout client_a 1 None, RpcArrive client_a (encode_frame 1 [1, 2]), RpcTake] = Some retried_state"
  unfolding panic_state_def retried_state_def by (simp_all add: demo_panic_def rpc_eval Let_def)

theorem panicked_request_never_answered_witness: "(client_a, encode_frame 1 [9]) \<notin> set (rs_responses retried_state)"
  using panicked_request_never_answered [OF demo_panic_run] by blast

end
