(* ===== verification/Gm_Crypto.thy ===== *)
theory Gm_Crypto
  imports Wire
begin

text \<open>
  The primitives of the hybrid handshake (\<^verbatim>\<open>crates/gm-pq-stack/src/{lib,rng,crypto}.rs\<close>): the
  error type, the source of randomness, and the wrappers around the libsmx library. The library itself (SM2, SM3, SM4-GCM)
  is a parameter, a record of its functions; \<open>smx_law\<close> is what its documentation promises.
\<close>

section \<open>Results\<close>

text \<open>The error type of the crate, without the message texts, and results with a case for panics.\<close>

datatype hs_error = SmError | InvalidEncoding | AuthFailed | HandshakeState | Replay | PeerAuth | IoError

datatype 'a hs = Good (the_good: 'a) | Bad hs_error | Panics

text \<open>The \<open>?\<close> operator.\<close>

fun hs_try :: "'a hs \<Rightarrow> ('a \<Rightarrow> 'b hs) \<Rightarrow> 'b hs" where
  "hs_try (Good x) f = f x"
| "hs_try (Bad e) f = Bad e"
| "hs_try Panics f = Panics"

lemma hs_try_Good [simp]: "hs_try m f = Good y \<longleftrightarrow> (\<exists>x. m = Good x \<and> f x = Good y)"
  by (cases m) auto

text \<open>\<open>ok_or\<close> and \<open>map_err\<close>.\<close>

definition ok_or :: "hs_error \<Rightarrow> 'a option \<Rightarrow> 'a hs" where
  "ok_or e v = (case v of None \<Rightarrow> Bad e | Some x \<Rightarrow> Good x)"

definition hs_guard :: "bool \<Rightarrow> hs_error \<Rightarrow> unit hs" where
  "hs_guard b e = (if b then Good () else Bad e)"

lemma ok_or_Good [simp]: "ok_or e v = Good x \<longleftrightarrow> v = Some x"
  by (simp add: ok_or_def split: option.split)

lemma ok_or_Some [simp]: "ok_or e (Some x) = Good x"
  by (simp add: ok_or_def)

lemma hs_guard_Good [simp]: "hs_guard b e = Good u \<longleftrightarrow> b"
  by (simp add: hs_guard_def)

lemma hs_guard_True [simp]: "b \<Longrightarrow> hs_guard b e = Good ()"
  by (simp add: hs_guard_def)

section \<open>Randomness\<close>

text \<open>A source of randomness is the sequence of the bytes it will yield; a failure of the operating system aborts the process.\<close>

type_synonym rng = "nat \<Rightarrow> u8"

definition fill_bytes :: "nat \<Rightarrow> rng \<Rightarrow> bytes \<times> rng" where
  "fill_bytes n r = (map r [0..<n], \<lambda>i. r (n + i))"

definition next_u32 :: "rng \<Rightarrow> u32 \<times> rng" where
  "next_u32 r = (case fill_bytes 4 r of (b, r') \<Rightarrow> (le_val b, r'))"

definition next_u64 :: "rng \<Rightarrow> u64 \<times> rng" where
  "next_u64 r = (case fill_bytes 8 r of (b, r') \<Rightarrow> (le_val b, r'))"

lemma length_fill_bytes [simp]: "length (fst (fill_bytes n r)) = n"
  by (simp add: fill_bytes_def)

section \<open>The library\<close>

text \<open>SM3 takes the concatenation of what the hasher was updated with; decryption and \<open>ecdh\<close> may fail.\<close>

record 'sk smx_lib =
  smx_sm3 :: "bytes \<Rightarrow> bytes"
  smx_hmac_sm3 :: "bytes \<Rightarrow> bytes \<Rightarrow> bytes"
  smx_hkdf_extract :: "bytes option \<Rightarrow> bytes \<Rightarrow> bytes"
  smx_hkdf_expand :: "bytes \<Rightarrow> bytes \<Rightarrow> nat \<Rightarrow> bytes option"
  smx_encrypt_gcm :: "bytes \<Rightarrow> bytes \<Rightarrow> bytes \<Rightarrow> bytes \<Rightarrow> bytes \<times> bytes"
  smx_decrypt_gcm :: "bytes \<Rightarrow> bytes \<Rightarrow> bytes \<Rightarrow> bytes \<Rightarrow> bytes \<Rightarrow> bytes option"
  smx_generate_keypair :: "rng \<Rightarrow> ('sk \<times> bytes) \<times> rng"
  smx_public_key :: "'sk \<Rightarrow> bytes"
  smx_ecdh :: "'sk \<Rightarrow> bytes \<Rightarrow> bytes option"
  smx_sign :: "bytes \<Rightarrow> 'sk \<Rightarrow> rng \<Rightarrow> bytes"
  smx_verify :: "bytes \<Rightarrow> bytes \<Rightarrow> bytes \<Rightarrow> bool"

text \<open>
  What the wrappers rely on: the sizes of the outputs, that decryption inverts encryption, that a generated key pair
  belongs together, that both ends of an ECDH exchange agree, and that a signature verifies.
\<close>

definition generated :: "'sk smx_lib \<Rightarrow> 'sk \<Rightarrow> bytes \<Rightarrow> bool" where
  "generated L sk pk \<longleftrightarrow> (\<exists>r. fst (smx_generate_keypair L r) = (sk, pk))"

definition hash_law :: "'sk smx_lib \<Rightarrow> bool" where
  "hash_law L \<longleftrightarrow> (\<forall>m. length (smx_sm3 L m) = 32) \<and> (\<forall>k m. length (smx_hmac_sm3 L k m) = 32) \<and>
     (\<forall>s m. length (smx_hkdf_extract L s m) = 32) \<and>
     (\<forall>k info n. n \<le> 8160 \<longrightarrow> (\<exists>out. smx_hkdf_expand L k info n = Some out \<and> length out = n))"

definition gcm_law :: "'sk smx_lib \<Rightarrow> bool" where
  "gcm_law L \<longleftrightarrow> (\<forall>k n a m ct tag. smx_encrypt_gcm L k n a m = (ct, tag) \<longrightarrow>
     length ct = length m \<and> length tag = 16 \<and> smx_decrypt_gcm L k n a ct tag = Some m)"

definition sm2_law :: "'sk smx_lib \<Rightarrow> bool" where
  "sm2_law L \<longleftrightarrow>
     (\<forall>sk pk. generated L sk pk \<longrightarrow> length pk = 65 \<and> smx_public_key L sk = pk) \<and>
     (\<forall>sk pk sk' pk'. generated L sk pk \<longrightarrow> generated L sk' pk' \<longrightarrow>
        (\<exists>ss. smx_ecdh L sk pk' = Some ss \<and> smx_ecdh L sk' pk = Some ss)) \<and>
     (\<forall>sk pk ss. smx_ecdh L sk pk = Some ss \<longrightarrow> length ss = 32) \<and>
     (\<forall>sk pk h r. generated L sk pk \<longrightarrow> length (smx_sign L h sk r) = 64 \<and> smx_verify L h pk (smx_sign L h sk r))"

definition smx_law :: "'sk smx_lib \<Rightarrow> bool" where
  "smx_law L \<longleftrightarrow> hash_law L \<and> gcm_law L \<and> sm2_law L"

lemma hash_lawD:
  assumes "hash_law L"
  shows "length (smx_sm3 L m) = 32" "length (smx_hmac_sm3 L k m) = 32" "length (smx_hkdf_extract L s m) = 32"
    and "n \<le> 8160 \<Longrightarrow> \<exists>out. smx_hkdf_expand L k info n = Some out \<and> length out = n"
  using assms by (simp_all add: hash_law_def)

lemma gcm_lawD:
  assumes "gcm_law L" "smx_encrypt_gcm L k n a m = (ct, tag)"
  shows "length ct = length m" "length tag = 16" "smx_decrypt_gcm L k n a ct tag = Some m"
  using assms by (simp_all add: gcm_law_def)

section \<open>Wrappers\<close>

definition ascii :: "string \<Rightarrow> bytes" where
  "ascii s = map of_char s"

definition KDF_DOMAIN :: bytes where
  "KDF_DOMAIN = ascii ''gm-pq-stack v0.1''"

definition sm3 :: "'sk smx_lib \<Rightarrow> bytes list \<Rightarrow> bytes" where
  "sm3 L parts = smx_sm3 L (concat parts)"

definition hkdf_extract :: "'sk smx_lib \<Rightarrow> bytes option \<Rightarrow> bytes \<Rightarrow> bytes" where
  "hkdf_extract L salt ikm = smx_hkdf_extract L salt ikm"

definition hkdf_expand :: "'sk smx_lib \<Rightarrow> bytes \<Rightarrow> bytes \<Rightarrow> nat \<Rightarrow> bytes hs" where
  "hkdf_expand L prk info len =
     (case smx_hkdf_expand L prk (KDF_DOMAIN @ info) len of None \<Rightarrow> Panics | Some out \<Rightarrow> Good out)"

definition hkdf_sm3 :: "'sk smx_lib \<Rightarrow> bytes option \<Rightarrow> bytes \<Rightarrow> bytes \<Rightarrow> nat \<Rightarrow> bytes hs" where
  "hkdf_sm3 L salt ikm info len = hkdf_expand L (hkdf_extract L salt ikm) info len"

record aead =
  ae_key :: bytes
  ae_tx_seq :: u64

definition aead_new :: "bytes \<Rightarrow> aead" where
  "aead_new key = \<lparr>ae_key = key, ae_tx_seq = 0\<rparr>"

definition aead_nonce :: "u64 \<Rightarrow> bytes" where
  "aead_nonce seq = replicate 4 0 @ be_bytes 8 seq"

definition seal_with_seq :: "'sk smx_lib \<Rightarrow> aead \<Rightarrow> u64 \<Rightarrow> bytes \<Rightarrow> bytes \<Rightarrow> bytes" where
  "seal_with_seq L a seq aad plaintext =
     (case smx_encrypt_gcm L (ae_key a) (aead_nonce seq) aad plaintext of (ct, tag) \<Rightarrow> be_bytes 8 seq @ ct @ tag)"

text \<open>\<open>checked_add\<close> panics when the last sequence number is used up.\<close>

definition aead_seal :: "'sk smx_lib \<Rightarrow> aead \<Rightarrow> bytes \<Rightarrow> bytes \<Rightarrow> (bytes \<times> aead) hs" where
  "aead_seal L a aad plaintext =
     (if ae_tx_seq a = - 1 then Panics
      else Good (seal_with_seq L (a\<lparr>ae_tx_seq := ae_tx_seq a + 1\<rparr>) (ae_tx_seq a) aad plaintext, a\<lparr>ae_tx_seq := ae_tx_seq a + 1\<rparr>))"

definition aead_open :: "'sk smx_lib \<Rightarrow> aead \<Rightarrow> bytes \<Rightarrow> bytes \<Rightarrow> (u64 \<times> bytes) hs" where
  "aead_open L a aad packet =
     (if length packet < 8 + 16 then Bad InvalidEncoding
      else
        let seq = be_val (take 8 packet); ct_end = length packet - 16;
            ct = take (ct_end - 8) (drop 8 packet); tag = drop ct_end packet
        in case smx_decrypt_gcm L (ae_key a) (aead_nonce seq) aad ct tag of
             None \<Rightarrow> Bad AuthFailed
           | Some pt \<Rightarrow> Good (seq, pt))"

lemma length_sm3 [simp]: "hash_law L \<Longrightarrow> length (sm3 L parts) = 32"
  by (simp add: sm3_def hash_lawD)

lemma length_hkdf_extract [simp]: "hash_law L \<Longrightarrow> length (hkdf_extract L s m) = 32"
  by (simp add: hkdf_extract_def hash_lawD)

lemma hkdf_expand_length:
  assumes "hash_law L" "n \<le> 8160"
  shows "\<exists>out. hkdf_expand L prk info n = Good out \<and> length out = n"
  using hash_lawD(4) [OF assms, of prk "KDF_DOMAIN @ info"] by (auto simp: hkdf_expand_def)

text \<open>Opening what was sealed, with the same key and associated data.\<close>

lemma open_sealed:
  assumes "gcm_law L" "ae_key b = ae_key a"
  shows "aead_open L b aad (seal_with_seq L a seq aad m) = Good (seq, m)"
proof -
  obtain ct tag where e: "smx_encrypt_gcm L (ae_key a) (aead_nonce seq) aad m = (ct, tag)" by fastforce
  note g = gcm_lawD [OF assms(1) e]
  have "be_val (be_bytes 8 seq) = seq" by (simp add: be_val_bytes)
  with e g assms(2) show ?thesis by (simp add: aead_open_def seal_with_seq_def Let_def)
qed

lemma length_sealed:
  assumes "gcm_law L"
  shows "length (seal_with_seq L a seq aad m) = 24 + length m"
proof -
  obtain ct tag where e: "smx_encrypt_gcm L (ae_key a) (aead_nonce seq) aad m = (ct, tag)" by fastforce
  from gcm_lawD [OF assms this] e show ?thesis by (simp add: seal_with_seq_def)
qed

lemma take_sealed: "take 8 (seal_with_seq L a seq aad m) = be_bytes 8 seq"
  by (simp add: seal_with_seq_def split: prod.split)

section \<open>A small library\<close>

text \<open>A library that obeys the laws, for concrete runs: a secret key is its own public key.\<close>

definition pad :: "nat \<Rightarrow> bytes \<Rightarrow> bytes" where
  "pad n xs = take n (xs @ replicate n 0)"

lemma length_pad [simp]: "length (pad n xs) = n"
  by (simp add: pad_def)

definition demo_smx :: "bytes smx_lib" where
  "demo_smx = \<lparr>smx_sm3 = pad 32, smx_hmac_sm3 = (\<lambda>k m. pad 32 (k @ m)), smx_hkdf_extract = (\<lambda>s m. pad 32 m),
     smx_hkdf_expand = (\<lambda>k info n. Some (pad n k)), smx_encrypt_gcm = (\<lambda>k n a m. (m, pad 16 k)),
     smx_decrypt_gcm = (\<lambda>k n a ct tag. if tag = pad 16 k then Some ct else None),
     smx_generate_keypair = (\<lambda>r. case fill_bytes 65 r of (b, r1) \<Rightarrow> ((b, b), r1)), smx_public_key = (\<lambda>sk. sk),
     smx_ecdh = (\<lambda>sk pk. Some (map2 (+) (pad 32 sk) (pad 32 pk))), smx_sign = (\<lambda>h sk r. pad 64 sk),
     smx_verify = (\<lambda>h pk sig. sig = pad 64 pk)\<rparr>"

lemma map2_plus_commute: "map2 (+) xs ys = map2 (+) ys (xs :: bytes)"
  by (induction xs ys rule: list_induct2') (auto simp: add.commute)

lemma demo_smx_law: "smx_law demo_smx"
proof -
  have "sm2_law demo_smx"
    by (auto simp: sm2_law_def generated_def demo_smx_def fill_bytes_def intro: map2_plus_commute)
  moreover have "hash_law demo_smx" "gcm_law demo_smx" by (simp_all add: hash_law_def gcm_law_def demo_smx_def)
  ultimately show ?thesis by (simp add: smx_law_def)
qed

end
