(* ===== verification/Gm_Kem.thy ===== *)
theory Gm_Kem
  imports Gm_Crypto
begin

text \<open>
  Key encapsulation (\<^verbatim>\<open>crates/gm-pq-stack/src/kem/\<close>): the traits \<open>Kem\<close> and \<open>StaticAuth\<close> as records of
  their functions, the SM2 and ML-KEM instances over their libraries, and the combiner. The ml-kem crate is a
  parameter with the law \<open>mlkem_law\<close>. The contract of the traits is proved for the hybrid from the laws of the two libraries.
\<close>

section \<open>The traits\<close>

record 'sk kem =
  kem_name :: bytes
  kem_pk_len :: nat
  kem_ct_len :: nat
  kem_keypair :: "rng \<Rightarrow> (('sk \<times> bytes) \<times> rng) hs"
  kem_encapsulate :: "bytes \<Rightarrow> rng \<Rightarrow> ((bytes \<times> bytes) \<times> rng) hs"
  kem_decapsulate :: "'sk \<Rightarrow> bytes \<Rightarrow> bytes hs"
  kem_public_of :: "'sk \<Rightarrow> bytes"
  kem_validate_public :: "bytes \<Rightarrow> unit hs"

record 'sk auth_kem = "'sk kem" +
  ka_signature_len :: nat
  ka_sign :: "'sk \<Rightarrow> bytes \<Rightarrow> rng \<Rightarrow> bytes hs"
  ka_verify :: "bytes \<Rightarrow> bytes \<Rightarrow> bytes \<Rightarrow> unit hs"

section \<open>SM2\<close>

definition sm2_validate_public :: "bytes \<Rightarrow> unit hs" where
  "sm2_validate_public pk = hs_guard (length pk = 65) InvalidEncoding"

definition sm2_keypair :: "'sk smx_lib \<Rightarrow> rng \<Rightarrow> (('sk \<times> bytes) \<times> rng) hs" where
  "sm2_keypair L r = Good (smx_generate_keypair L r)"

definition sm2_encapsulate :: "'sk smx_lib \<Rightarrow> bytes \<Rightarrow> rng \<Rightarrow> ((bytes \<times> bytes) \<times> rng) hs" where
  "sm2_encapsulate L peer r =
     hs_try (sm2_validate_public peer) (\<lambda>_.
       case smx_generate_keypair L r of ((eph_sk, eph_pk), r1) \<Rightarrow>
       hs_try (ok_or SmError (smx_ecdh L eph_sk peer)) (\<lambda>ss. Good ((eph_pk, ss), r1)))"

definition sm2_decapsulate :: "'sk smx_lib \<Rightarrow> 'sk \<Rightarrow> bytes \<Rightarrow> bytes hs" where
  "sm2_decapsulate L sk ct = hs_try (sm2_validate_public ct) (\<lambda>_. ok_or SmError (smx_ecdh L sk ct))"

definition sm2_sign :: "'sk smx_lib \<Rightarrow> 'sk \<Rightarrow> bytes \<Rightarrow> rng \<Rightarrow> bytes hs" where
  "sm2_sign L sk h r = Good (smx_sign L h sk r)"

definition sm2_verify :: "'sk smx_lib \<Rightarrow> bytes \<Rightarrow> bytes \<Rightarrow> bytes \<Rightarrow> unit hs" where
  "sm2_verify L pk h sig =
     hs_try (sm2_validate_public pk) (\<lambda>_.
     hs_try (hs_guard (length sig = 64) InvalidEncoding) (\<lambda>_. hs_guard (smx_verify L h pk sig) PeerAuth))"

definition sm2_kem :: "'sk smx_lib \<Rightarrow> 'sk auth_kem" where
  "sm2_kem L = \<lparr>kem_name = ascii ''SM2-ECDH'', kem_pk_len = 65, kem_ct_len = 65, kem_keypair = sm2_keypair L,
     kem_encapsulate = sm2_encapsulate L, kem_decapsulate = sm2_decapsulate L, kem_public_of = smx_public_key L,
     kem_validate_public = sm2_validate_public, ka_signature_len = 64, ka_sign = sm2_sign L, ka_verify = sm2_verify L\<rparr>"

section \<open>ML-KEM-768\<close>

text \<open>The crate: key generation, whether bytes decode to an encapsulation key, encapsulation, decapsulation.\<close>

record 'sk mlkem_lib =
  ml_generate_keypair :: "rng \<Rightarrow> ('sk \<times> bytes) \<times> rng"
  ml_key_decodes :: "bytes \<Rightarrow> bool"
  ml_encapsulate :: "bytes \<Rightarrow> rng \<Rightarrow> (bytes \<times> bytes) \<times> rng"
  ml_decapsulate :: "'sk \<Rightarrow> bytes \<Rightarrow> bytes"
  ml_encapsulation_key :: "'sk \<Rightarrow> bytes"

definition mlkem_law :: "'sk mlkem_lib \<Rightarrow> bool" where
  "mlkem_law M \<longleftrightarrow>
     (\<forall>r sk pk r1. ml_generate_keypair M r = ((sk, pk), r1) \<longrightarrow> length pk = 1184 \<and> ml_key_decodes M pk \<and> ml_encapsulation_key M sk = pk \<and>
        (\<forall>r' ct ss r2. ml_encapsulate M pk r' = ((ct, ss), r2) \<longrightarrow> ml_decapsulate M sk ct = ss)) \<and>
     (\<forall>pk r ct ss r2. ml_encapsulate M pk r = ((ct, ss), r2) \<longrightarrow> length ct = 1088 \<and> length ss = 32) \<and>
     (\<forall>sk ct. length (ml_decapsulate M sk ct) = 32)"

definition mlkem_validate_public :: "bytes \<Rightarrow> unit hs" where
  "mlkem_validate_public pk = hs_guard (length pk = 1184) InvalidEncoding"

definition mlkem_keypair :: "'sk mlkem_lib \<Rightarrow> rng \<Rightarrow> (('sk \<times> bytes) \<times> rng) hs" where
  "mlkem_keypair M r = Good (ml_generate_keypair M r)"

definition mlkem_encapsulate :: "'sk mlkem_lib \<Rightarrow> bytes \<Rightarrow> rng \<Rightarrow> ((bytes \<times> bytes) \<times> rng) hs" where
  "mlkem_encapsulate M peer r =
     hs_try (mlkem_validate_public peer) (\<lambda>_.
     hs_try (hs_guard (ml_key_decodes M peer) InvalidEncoding) (\<lambda>_. Good (ml_encapsulate M peer r)))"

definition mlkem_decapsulate :: "'sk mlkem_lib \<Rightarrow> 'sk \<Rightarrow> bytes \<Rightarrow> bytes hs" where
  "mlkem_decapsulate M sk ct = hs_try (hs_guard (length ct = 1088) InvalidEncoding) (\<lambda>_. Good (ml_decapsulate M sk ct))"

definition mlkem768_kem :: "'sk mlkem_lib \<Rightarrow> 'sk kem" where
  "mlkem768_kem M = \<lparr>kem_name = ascii ''ML-KEM-768'', kem_pk_len = 1184, kem_ct_len = 1088, kem_keypair = mlkem_keypair M,
     kem_encapsulate = mlkem_encapsulate M, kem_decapsulate = mlkem_decapsulate M, kem_public_of = ml_encapsulation_key M,
     kem_validate_public = mlkem_validate_public\<rparr>"

section \<open>The combiner\<close>

definition COMBINER_LABEL :: bytes where
  "COMBINER_LABEL = ascii ''gm-pq-stack/hybrid/v1''"

definition combine :: "'k smx_lib \<Rightarrow> bytes \<Rightarrow> bytes \<Rightarrow> bytes \<Rightarrow> bytes \<Rightarrow> bytes \<Rightarrow> bytes \<Rightarrow> bytes" where
  "combine L ss_c ct_c pk_c ss_p ct_p pk_p = sm3 L [[1], ss_c, ss_p, ct_c, ct_p, pk_c, pk_p, COMBINER_LABEL]"

record ('c, 'p) hybrid_secret_key =
  classical :: 'c
  pq :: 'p

definition hybrid_validate_public :: "'c auth_kem \<Rightarrow> 'p kem \<Rightarrow> bytes \<Rightarrow> unit hs" where
  "hybrid_validate_public C P pk =
     hs_try (hs_guard (length pk = kem_pk_len C + kem_pk_len P) InvalidEncoding) (\<lambda>_.
     hs_try (kem_validate_public C (take (kem_pk_len C) pk)) (\<lambda>_. kem_validate_public P (drop (kem_pk_len C) pk)))"

definition hybrid_keypair :: "'c auth_kem \<Rightarrow> 'p kem \<Rightarrow> rng \<Rightarrow> ((('c, 'p) hybrid_secret_key \<times> bytes) \<times> rng) hs" where
  "hybrid_keypair C P r =
     hs_try (kem_keypair C r) (\<lambda>((sk_c, pk_c), r1).
     hs_try (kem_keypair P r1) (\<lambda>((sk_p, pk_p), r2). Good ((\<lparr>classical = sk_c, pq = sk_p\<rparr>, pk_c @ pk_p), r2)))"

definition hybrid_encapsulate :: "'k smx_lib \<Rightarrow> 'c auth_kem \<Rightarrow> 'p kem \<Rightarrow> bytes \<Rightarrow> rng \<Rightarrow> ((bytes \<times> bytes) \<times> rng) hs" where
  "hybrid_encapsulate L C P peer r =
     hs_try (hybrid_validate_public C P peer) (\<lambda>_.
       let pk_c = take (kem_pk_len C) peer; pk_p = drop (kem_pk_len C) peer in
       hs_try (kem_encapsulate C pk_c r) (\<lambda>((ct_c, ss_c), r1).
       hs_try (kem_encapsulate P pk_p r1) (\<lambda>((ct_p, ss_p), r2).
       Good ((ct_c @ ct_p, combine L ss_c ct_c pk_c ss_p ct_p pk_p), r2))))"

definition hybrid_decapsulate :: "'k smx_lib \<Rightarrow> 'c auth_kem \<Rightarrow> 'p kem \<Rightarrow> ('c, 'p) hybrid_secret_key \<Rightarrow> bytes \<Rightarrow> bytes hs" where
  "hybrid_decapsulate L C P sk ct =
     hs_try (hs_guard (length ct = kem_ct_len C + kem_ct_len P) InvalidEncoding) (\<lambda>_.
       let ct_c = take (kem_ct_len C) ct; ct_p = drop (kem_ct_len C) ct in
       hs_try (kem_decapsulate C (classical sk) ct_c) (\<lambda>ss_c.
       hs_try (kem_decapsulate P (pq sk) ct_p) (\<lambda>ss_p.
       Good (combine L ss_c ct_c (kem_public_of C (classical sk)) ss_p ct_p (kem_public_of P (pq sk))))))"

definition hybrid_public_of :: "'c auth_kem \<Rightarrow> 'p kem \<Rightarrow> ('c, 'p) hybrid_secret_key \<Rightarrow> bytes" where
  "hybrid_public_of C P sk = kem_public_of C (classical sk) @ kem_public_of P (pq sk)"

definition hybrid_sign :: "'c auth_kem \<Rightarrow> ('c, 'p) hybrid_secret_key \<Rightarrow> bytes \<Rightarrow> rng \<Rightarrow> bytes hs" where
  "hybrid_sign C sk h r = ka_sign C (classical sk) h r"

definition hybrid_verify :: "'c auth_kem \<Rightarrow> 'p kem \<Rightarrow> bytes \<Rightarrow> bytes \<Rightarrow> bytes \<Rightarrow> unit hs" where
  "hybrid_verify C P pk h sig = hs_try (hybrid_validate_public C P pk) (\<lambda>_. ka_verify C (take (kem_pk_len C) pk) h sig)"

definition hybrid_kem :: "'k smx_lib \<Rightarrow> 'c auth_kem \<Rightarrow> 'p kem \<Rightarrow> ('c, 'p) hybrid_secret_key auth_kem" where
  "hybrid_kem L C P = \<lparr>kem_name = ascii ''SM2-ECDH+ML-KEM-768'', kem_pk_len = kem_pk_len C + kem_pk_len P,
     kem_ct_len = kem_ct_len C + kem_ct_len P, kem_keypair = hybrid_keypair C P, kem_encapsulate = hybrid_encapsulate L C P,
     kem_decapsulate = hybrid_decapsulate L C P, kem_public_of = hybrid_public_of C P,
     kem_validate_public = hybrid_validate_public C P, ka_signature_len = ka_signature_len C, ka_sign = hybrid_sign C,
     ka_verify = hybrid_verify C P\<rparr>"

definition default_hybrid :: "'c smx_lib \<Rightarrow> 'p mlkem_lib \<Rightarrow> ('c, 'p) hybrid_secret_key auth_kem" where
  "default_hybrid L M = hybrid_kem L (sm2_kem L) (mlkem768_kem M)"

section \<open>The contract of the traits\<close>

definition kem_pair :: "('sk, 'x) kem_scheme \<Rightarrow> 'sk \<Rightarrow> bytes \<Rightarrow> bool" where
  "kem_pair K sk pk \<longleftrightarrow> (\<exists>r r1. kem_keypair K r = Good ((sk, pk), r1))"

text \<open>Key generation succeeds; keys, ciphertexts and secrets have the advertised sizes; what was encapsulated to a key is recovered with it.\<close>

definition kem_contract :: "('sk, 'x) kem_scheme \<Rightarrow> bool" where
  "kem_contract K \<longleftrightarrow>
     (\<forall>r. \<exists>sk pk r1. kem_keypair K r = Good ((sk, pk), r1)) \<and>
     (\<forall>sk pk. kem_pair K sk pk \<longrightarrow> kem_validate_public K pk = Good () \<and> kem_public_of K sk = pk) \<and>
     (\<forall>pk. kem_validate_public K pk = Good () \<longrightarrow> length pk = kem_pk_len K) \<and>
     (\<forall>pk. kem_validate_public K pk \<noteq> Panics) \<and>
     (\<forall>sk pk r. kem_pair K sk pk \<longrightarrow> (\<exists>ct ss r1. kem_encapsulate K pk r = Good ((ct, ss), r1) \<and> kem_decapsulate K sk ct = Good ss)) \<and>
     (\<forall>pk r ct ss r1. kem_encapsulate K pk r = Good ((ct, ss), r1) \<longrightarrow> length ct = kem_ct_len K \<and> length ss = 32) \<and>
     (\<forall>pk r. kem_encapsulate K pk r \<noteq> Panics) \<and>
     (\<forall>sk ct ss. kem_decapsulate K sk ct = Good ss \<longrightarrow> length ct = kem_ct_len K \<and> length ss = 32) \<and>
     (\<forall>sk ct. kem_decapsulate K sk ct \<noteq> Panics)"

definition auth_contract :: "'sk auth_kem \<Rightarrow> bool" where
  "auth_contract A \<longleftrightarrow>
     (\<forall>sk pk h r. kem_pair A sk pk \<longrightarrow> (\<exists>sig. ka_sign A sk h r = Good sig \<and> length sig = ka_signature_len A \<and> ka_verify A pk h sig = Good ())) \<and>
     (\<forall>pk h sig. ka_verify A pk h sig = Good () \<longrightarrow> length pk = kem_pk_len A \<and> length sig = ka_signature_len A) \<and>
     (\<forall>pk h sig. ka_verify A pk h sig \<noteq> Panics)"

lemma kem_contractD:
  assumes "kem_contract K"
  shows "\<exists>sk pk r1. kem_keypair K r = Good ((sk, pk), r1)"
    and "kem_pair K sk pk \<Longrightarrow> kem_validate_public K pk = Good ()" "kem_pair K sk pk \<Longrightarrow> kem_public_of K sk = pk"
    and "kem_validate_public K pk = Good () \<Longrightarrow> length pk = kem_pk_len K" "kem_validate_public K pk \<noteq> Panics"
    and "kem_pair K sk pk \<Longrightarrow> \<exists>ct ss r1. kem_encapsulate K pk r = Good ((ct, ss), r1) \<and> kem_decapsulate K sk ct = Good ss"
    and "kem_encapsulate K pk r = Good ((ct, ss), r1) \<Longrightarrow> length ct = kem_ct_len K" "kem_encapsulate K pk r = Good ((ct, ss), r1) \<Longrightarrow> length ss = 32"
    and "kem_encapsulate K pk r \<noteq> Panics"
    and "kem_decapsulate K sk ct = Good ss \<Longrightarrow> length ct = kem_ct_len K" "kem_decapsulate K sk ct = Good ss \<Longrightarrow> length ss = 32"
    and "kem_decapsulate K sk ct \<noteq> Panics"
  using assms unfolding kem_contract_def by (elim conjE; metis)+

lemma kem_pair_length: "kem_contract K \<Longrightarrow> kem_pair K sk pk \<Longrightarrow> length pk = kem_pk_len K"
  by (rule kem_contractD(4) [OF _ kem_contractD(2)])

lemma auth_contractD:
  assumes "auth_contract A"
  shows "kem_pair A sk pk \<Longrightarrow> \<exists>sig. ka_sign A sk h r = Good sig \<and> length sig = ka_signature_len A \<and> ka_verify A pk h sig = Good ()"
    and "ka_verify A pk h sig = Good () \<Longrightarrow> length pk = kem_pk_len A" "ka_verify A pk h sig = Good () \<Longrightarrow> length sig = ka_signature_len A"
    and "ka_verify A pk h sig \<noteq> Panics"
  using assms unfolding auth_contract_def by (elim conjE; simp)+

lemmas sm2_defs = sm2_kem_def sm2_validate_public_def sm2_keypair_def sm2_encapsulate_def sm2_decapsulate_def sm2_sign_def sm2_verify_def

lemmas mlkem_defs = mlkem768_kem_def mlkem_validate_public_def mlkem_keypair_def mlkem_encapsulate_def mlkem_decapsulate_def

lemma hs_no_panic [simp]: "hs_guard b e \<noteq> Panics" "ok_or e v \<noteq> Panics"
  by (simp_all add: hs_guard_def ok_or_def split: option.split)

lemma hs_try_Panics: "hs_try m f = Panics \<longleftrightarrow> m = Panics \<or> (\<exists>x. m = Good x \<and> f x = Panics)"
  by (cases m) auto

lemma sm2_pair: "kem_pair (sm2_kem L) sk pk \<longleftrightarrow> generated L sk pk"
  unfolding kem_pair_def generated_def by (simp add: sm2_defs) (metis prod.collapse fst_conv)

lemma sm2_lawD:
  assumes "sm2_law L"
  shows "generated L sk pk \<Longrightarrow> length pk = 65" "generated L sk pk \<Longrightarrow> smx_public_key L sk = pk"
    and "generated L sk pk \<Longrightarrow> generated L sk' pk' \<Longrightarrow> \<exists>ss. smx_ecdh L sk pk' = Some ss \<and> smx_ecdh L sk' pk = Some ss"
    and "smx_ecdh L sk pk = Some ss \<Longrightarrow> length ss = 32"
    and "generated L sk pk \<Longrightarrow> length (smx_sign L h sk r) = 64" "generated L sk pk \<Longrightarrow> smx_verify L h pk (smx_sign L h sk r)"
  using assms unfolding sm2_law_def by blast+

lemma generated_keypair: "smx_generate_keypair L r = ((sk, pk), r1) \<Longrightarrow> generated L sk pk"
  by (auto simp: generated_def intro!: exI [of _ r])

lemma sm2_kem_contract:
  assumes "sm2_law L"
  shows "kem_contract (sm2_kem L)"
proof -
  note law = sm2_lawD [OF assms]
  have "\<exists>sk pk r1. kem_keypair (sm2_kem L) r = Good ((sk, pk), r1)" for r by (simp add: sm2_defs) (metis surj_pair)
  moreover have "kem_validate_public (sm2_kem L) pk = Good () \<and> kem_public_of (sm2_kem L) sk = pk" if "kem_pair (sm2_kem L) sk pk" for sk pk
    using that law(1,2) [of sk pk] by (simp add: sm2_pair) (simp add: sm2_defs)
  moreover have "\<exists>ct ss r1. kem_encapsulate (sm2_kem L) pk r = Good ((ct, ss), r1) \<and> kem_decapsulate (sm2_kem L) sk ct = Good ss"
    if "kem_pair (sm2_kem L) sk pk" for sk pk r
  proof -
    obtain d P r1 where e: "smx_generate_keypair L r = ((d, P), r1)" by (metis surj_pair)
    have g: "generated L sk pk" "generated L d P" using that generated_keypair [OF e] by (simp_all add: sm2_pair)
    from law(3) [OF g(2,1)] obtain ss where "smx_ecdh L d pk = Some ss" "smx_ecdh L sk P = Some ss" by blast
    with e law(1) [OF g(1)] law(1) [OF g(2)] show ?thesis by (simp add: sm2_defs)
  qed
  moreover have "length ct = 65 \<and> length ss = 32" if enc: "kem_encapsulate (sm2_kem L) pk r = Good ((ct, ss), r1)" for pk r ct ss r1
  proof -
    obtain d P r2 where e: "smx_generate_keypair L r = ((d, P), r2)" by (metis surj_pair)
    with enc law(1) [OF generated_keypair [OF e]] law(4) [of d pk ss] show ?thesis by (auto simp: sm2_defs)
  qed
  moreover have "kem_encapsulate (sm2_kem L) pk r \<noteq> Panics" for pk r
    by (cases "smx_generate_keypair L r") (auto simp: sm2_defs hs_try_Panics)
  moreover have "kem_pk_len (sm2_kem L) = 65" "kem_ct_len (sm2_kem L) = 65"
    "kem_validate_public (sm2_kem L) pk = Good () \<Longrightarrow> length pk = 65" "kem_validate_public (sm2_kem L) pk \<noteq> Panics"
    "kem_decapsulate (sm2_kem L) sk ct = Good ss \<Longrightarrow> length ct = 65 \<and> length ss = 32" "kem_decapsulate (sm2_kem L) sk ct \<noteq> Panics" for pk sk ct ss
    using law(4) [of sk ct ss] by (auto simp: sm2_defs hs_try_Panics)
  ultimately show ?thesis unfolding kem_contract_def by simp
qed

lemma sm2_auth_contract:
  assumes "sm2_law L"
  shows "auth_contract (sm2_kem L)"
  using sm2_lawD [OF assms] unfolding auth_contract_def sm2_pair by (simp add: sm2_defs hs_try_Panics)

lemma mlkem_pair: "kem_pair (mlkem768_kem M) sk pk \<longleftrightarrow> (\<exists>r r1. ml_generate_keypair M r = ((sk, pk), r1))"
  by (simp add: kem_pair_def mlkem_defs)

lemma mlkem_contract:
  assumes "mlkem_law M"
  shows "kem_contract (mlkem768_kem M)"
proof -
  have gen: "length pk = 1184" "ml_key_decodes M pk" "ml_encapsulation_key M sk = pk"
    and dec_enc: "ml_encapsulate M pk r = ((ct, ss), r2) \<Longrightarrow> ml_decapsulate M sk ct = ss"
    if pair: "kem_pair (mlkem768_kem M) sk pk" for sk pk r ct ss r2
  proof -
    from pair obtain r0 r1 where g: "ml_generate_keypair M r0 = ((sk, pk), r1)" by (auto simp: mlkem_pair)
    note l = assms [unfolded mlkem_law_def, THEN conjunct1, rule_format, OF g]
    show "length pk = 1184" "ml_key_decodes M pk" "ml_encapsulation_key M sk = pk" using l by simp_all
    show "ml_encapsulate M pk r = ((ct, ss), r2) \<Longrightarrow> ml_decapsulate M sk ct = ss" using l by blast
  qed
  have len: "length ct = 1088 \<and> length ss = 32" if "ml_encapsulate M pk r = ((ct, ss), r2)" for pk r ct ss r2
    using assms that unfolding mlkem_law_def by blast
  have dec: "length (ml_decapsulate M sk ct) = 32" for sk ct using assms unfolding mlkem_law_def by blast
  have "\<exists>sk pk r1. kem_keypair (mlkem768_kem M) r = Good ((sk, pk), r1)" for r by (simp add: mlkem_defs) (metis surj_pair)
  moreover have "kem_validate_public (mlkem768_kem M) pk = Good () \<and> kem_public_of (mlkem768_kem M) sk = pk" if "kem_pair (mlkem768_kem M) sk pk" for sk pk
    using gen [OF that] by (simp add: mlkem_defs)
  moreover have "\<exists>ct ss r1. kem_encapsulate (mlkem768_kem M) pk r = Good ((ct, ss), r1) \<and> kem_decapsulate (mlkem768_kem M) sk ct = Good ss"
    if "kem_pair (mlkem768_kem M) sk pk" for sk pk r
  proof -
    obtain ct ss r1 where e: "ml_encapsulate M pk r = ((ct, ss), r1)" by (metis surj_pair)
    with gen [OF that] dec_enc [OF that e] len [OF e] show ?thesis by (simp add: mlkem_defs)
  qed
  moreover have "kem_pk_len (mlkem768_kem M) = 1184" "kem_ct_len (mlkem768_kem M) = 1088"
    "kem_validate_public (mlkem768_kem M) pk = Good () \<Longrightarrow> length pk = 1184" "kem_validate_public (mlkem768_kem M) pk \<noteq> Panics"
    "kem_encapsulate (mlkem768_kem M) pk r \<noteq> Panics" "kem_decapsulate (mlkem768_kem M) sk ct \<noteq> Panics"
    "kem_encapsulate (mlkem768_kem M) pk r = Good ((ct, ss), r1) \<Longrightarrow> length ct = 1088 \<and> length ss = 32"
    "kem_decapsulate (mlkem768_kem M) sk ct = Good ss \<Longrightarrow> length ct = 1088 \<and> length ss = 32" for pk sk ct ss r r1
    using len [of pk r ct ss r1] dec by (auto simp: mlkem_defs hs_try_Panics)
  ultimately show ?thesis unfolding kem_contract_def by simp
qed

section \<open>The hybrid keeps the contract\<close>

lemmas hybrid_defs = hybrid_kem_def hybrid_validate_public_def hybrid_keypair_def hybrid_encapsulate_def hybrid_decapsulate_def
  hybrid_public_of_def hybrid_sign_def hybrid_verify_def

lemma hybrid_pair:
  assumes "kem_pair (hybrid_kem L C P) sk pk"
  shows "\<exists>pk_c pk_p. pk = pk_c @ pk_p \<and> kem_pair C (classical sk) pk_c \<and> kem_pair P (pq sk) pk_p"
proof -
  from assms obtain r r1 where "hybrid_keypair C P r = Good ((sk, pk), r1)" unfolding kem_pair_def hybrid_kem_def by auto
  then obtain a b r2 d e where "kem_keypair C r = Good ((a, b), r2)" "kem_keypair P r2 = Good ((d, e), r1)"
    "sk = \<lparr>classical = a, pq = d\<rparr>" "pk = b @ e" unfolding hybrid_keypair_def by auto
  then show ?thesis unfolding kem_pair_def by (intro exI [of _ b] exI [of _ e]) auto
qed

lemma hybrid_kem_fields [simp]:
  "kem_name (hybrid_kem L C P) = ascii ''SM2-ECDH+ML-KEM-768''"
  "kem_pk_len (hybrid_kem L C P) = kem_pk_len C + kem_pk_len P" "kem_ct_len (hybrid_kem L C P) = kem_ct_len C + kem_ct_len P"
  "kem_keypair (hybrid_kem L C P) = hybrid_keypair C P" "kem_encapsulate (hybrid_kem L C P) = hybrid_encapsulate L C P"
  "kem_decapsulate (hybrid_kem L C P) = hybrid_decapsulate L C P" "kem_public_of (hybrid_kem L C P) = hybrid_public_of C P"
  "kem_validate_public (hybrid_kem L C P) = hybrid_validate_public C P" "ka_signature_len (hybrid_kem L C P) = ka_signature_len C"
  "ka_sign (hybrid_kem L C P) = hybrid_sign C" "ka_verify (hybrid_kem L C P) = hybrid_verify C P"
  by (simp_all add: hybrid_kem_def)

lemma length_combine [simp]: "hash_law L \<Longrightarrow> length (combine L a b c d e f) = 32"
  by (simp add: combine_def)

lemma hybrid_keypair_total:
  assumes "kem_contract C" "kem_contract P"
  shows "\<exists>sk pk r1. hybrid_keypair C P r = Good ((sk, pk), r1)"
proof -
  obtain a b r1 where c: "kem_keypair C r = Good ((a, b), r1)" using kem_contractD(1) [OF assms(1)] by blast
  obtain d e r2 where "kem_keypair P r1 = Good ((d, e), r2)" using kem_contractD(1) [OF assms(2)] by blast
  with c show ?thesis by (simp add: hybrid_keypair_def)
qed

lemma hybrid_valid:
  assumes "kem_contract C" "kem_contract P" "kem_pair (hybrid_kem L C P) sk pk"
  shows "hybrid_validate_public C P pk = Good ()" "hybrid_public_of C P sk = pk"
proof -
  from hybrid_pair [OF assms(3)] obtain pk_c pk_p where
    pk: "pk = pk_c @ pk_p" "kem_pair C (classical sk) pk_c" "kem_pair P (pq sk) pk_p" by blast
  have "length pk_c = kem_pk_len C" "length pk_p = kem_pk_len P"
    by (rule kem_pair_length [OF assms(1) pk(2)], rule kem_pair_length [OF assms(2) pk(3)])
  with pk kem_contractD(2,3) [OF assms(1) pk(2)] kem_contractD(2,3) [OF assms(2) pk(3)]
  show "hybrid_validate_public C P pk = Good ()" "hybrid_public_of C P sk = pk"
    by (simp_all add: hybrid_validate_public_def hybrid_public_of_def)
qed

lemma hybrid_round:
  assumes "kem_contract C" "kem_contract P" "kem_pair (hybrid_kem L C P) sk pk"
  shows "\<exists>ct ss r1. hybrid_encapsulate L C P pk r = Good ((ct, ss), r1) \<and> hybrid_decapsulate L C P sk ct = Good ss"
proof -
  from hybrid_pair [OF assms(3)] obtain pk_c pk_p where
    pk: "pk = pk_c @ pk_p" "kem_pair C (classical sk) pk_c" "kem_pair P (pq sk) pk_p" by blast
  note c = kem_contractD [OF assms(1)] and p = kem_contractD [OF assms(2)]
  obtain ct_c ss_c r1 where ec: "kem_encapsulate C pk_c r = Good ((ct_c, ss_c), r1)" "kem_decapsulate C (classical sk) ct_c = Good ss_c"
    using c(6) [OF pk(2)] by blast
  obtain ct_p ss_p r2 where ep: "kem_encapsulate P pk_p r1 = Good ((ct_p, ss_p), r2)" "kem_decapsulate P (pq sk) ct_p = Good ss_p"
    using p(6) [OF pk(3)] by blast
  have "take (kem_pk_len C) pk = pk_c" "drop (kem_pk_len C) pk = pk_p" using kem_pair_length [OF assms(1) pk(2)] pk(1) by simp_all
  with ec ep hybrid_valid(1) [OF assms] have "hybrid_encapsulate L C P pk r = Good ((ct_c @ ct_p, combine L ss_c ct_c pk_c ss_p ct_p pk_p), r2)"
    by (simp add: hybrid_encapsulate_def)
  moreover have "hybrid_decapsulate L C P sk (ct_c @ ct_p) = Good (combine L ss_c ct_c pk_c ss_p ct_p pk_p)"
    using ec(2) ep(2) c(3) [OF pk(2)] p(3) [OF pk(3)] c(7) [OF ec(1)] p(7) [OF ep(1)] by (simp add: hybrid_decapsulate_def)
  ultimately show ?thesis by blast
qed

lemma hybrid_encapsulate_lengths:
  assumes "hash_law L" "kem_contract C" "kem_contract P" "hybrid_encapsulate L C P pk r = Good ((ct, ss), r1)"
  shows "length ct = kem_ct_len C + kem_ct_len P" "length ss = 32"
proof -
  from assms(4) obtain ct_c ss_c r2 ct_p ss_p where
    e: "kem_encapsulate C (take (kem_pk_len C) pk) r = Good ((ct_c, ss_c), r2)" "kem_encapsulate P (drop (kem_pk_len C) pk) r2 = Good ((ct_p, ss_p), r1)"
    and ct: "ct = ct_c @ ct_p" "ss = combine L ss_c ct_c (take (kem_pk_len C) pk) ss_p ct_p (drop (kem_pk_len C) pk)"
    unfolding hybrid_encapsulate_def Let_def by auto
  from kem_contractD(7) [OF assms(2) e(1)] kem_contractD(7) [OF assms(3) e(2)] ct assms(1)
  show "length ct = kem_ct_len C + kem_ct_len P" "length ss = 32" by auto
qed

lemma hybrid_decapsulate_lengths:
  assumes "hash_law L" "hybrid_decapsulate L C P sk ct = Good ss"
  shows "length ct = kem_ct_len C + kem_ct_len P" "length ss = 32"
  using assms by (auto simp: hybrid_decapsulate_def Let_def)

lemma hybrid_no_panics:
  assumes "kem_contract C" "kem_contract P"
  shows "hybrid_validate_public C P pk \<noteq> Panics" "hybrid_encapsulate L C P pk r \<noteq> Panics" "hybrid_decapsulate L C P sk ct \<noteq> Panics"
proof -
  note c = kem_contractD(5,9,12) [OF assms(1)] and p = kem_contractD(5,9,12) [OF assms(2)]
  show v: "hybrid_validate_public C P pk \<noteq> Panics" using c(1) p(1) by (simp add: hybrid_validate_public_def hs_try_Panics)
  show "hybrid_decapsulate L C P sk ct \<noteq> Panics" using c(3) p(3) by (simp add: hybrid_decapsulate_def hs_try_Panics Let_def)
  show "hybrid_encapsulate L C P pk r \<noteq> Panics"
    using v c(2) p(2) by (auto simp: hybrid_encapsulate_def hs_try_Panics Let_def)
qed

lemma hybrid_contract:
  assumes "hash_law L" "kem_contract C" "kem_contract P"
  shows "kem_contract (hybrid_kem L C P)"
proof -
  have valid: "hybrid_validate_public C P pk = Good () \<Longrightarrow> length pk = kem_pk_len C + kem_pk_len P" for pk by (auto simp: hybrid_validate_public_def)
  show ?thesis unfolding kem_contract_def hybrid_kem_fields
    by (intro conjI allI impI; (rule hybrid_keypair_total [OF assms(2,3)] hybrid_valid [OF assms(2,3)] hybrid_round [OF assms(2,3)]
        hybrid_encapsulate_lengths [OF assms] hybrid_decapsulate_lengths [OF assms(1)] hybrid_no_panics [OF assms(2,3)] valid), assumption?)
qed

lemma hybrid_auth:
  assumes "kem_contract C" "kem_contract P" "auth_contract C"
  shows "auth_contract (hybrid_kem L C P)"
proof -
  note a = auth_contractD [OF assms(3)]
  have "\<exists>sig. hybrid_sign C sk h r = Good sig \<and> length sig = ka_signature_len C \<and> hybrid_verify C P pk h sig = Good ()"
    if pair: "kem_pair (hybrid_kem L C P) sk pk" for sk pk h r
  proof -
    from hybrid_pair [OF pair] obtain pk_c pk_p where pk: "pk = pk_c @ pk_p" "kem_pair C (classical sk) pk_c" by blast
    then have "take (kem_pk_len C) pk = pk_c" using kem_pair_length [OF assms(1) pk(2)] by simp
    with a(1) [OF pk(2), of h r] hybrid_valid(1) [OF assms(1,2) pair] show ?thesis by (auto simp: hybrid_sign_def hybrid_verify_def)
  qed
  moreover have "length pk = kem_pk_len C + kem_pk_len P \<and> length sig = ka_signature_len C" if "hybrid_verify C P pk h sig = Good ()" for pk h sig
    using that a(3) [of "take (kem_pk_len C) pk" h sig] by (auto simp: hybrid_verify_def hybrid_validate_public_def)
  moreover have "hybrid_verify C P pk h sig \<noteq> Panics" for pk h sig
    using a(4) hybrid_no_panics(1) [OF assms(1,2)] by (auto simp: hybrid_verify_def hs_try_Panics)
  ultimately show ?thesis unfolding auth_contract_def by simp
qed

text \<open>The default scheme, with the two laws as the only hypotheses.\<close>

lemma default_hybrid_contract:
  assumes "smx_law L" "mlkem_law M"
  shows "kem_contract (default_hybrid L M)" "auth_contract (default_hybrid L M)"
proof -
  have L: "hash_law L" "kem_contract (sm2_kem L)" "auth_contract (sm2_kem L)"
    using assms(1) sm2_kem_contract sm2_auth_contract unfolding smx_law_def by auto
  have M: "kem_contract (mlkem768_kem M)" by (rule mlkem_contract [OF assms(2)])
  show "kem_contract (default_hybrid L M)" "auth_contract (default_hybrid L M)"
    unfolding default_hybrid_def by (rule hybrid_contract [OF L(1,2) M], rule hybrid_auth [OF L(2) M L(3)])
qed

lemma default_hybrid_lengths [simp]:
  "kem_pk_len (default_hybrid L M) = 1249" "kem_ct_len (default_hybrid L M) = 1153" "ka_signature_len (default_hybrid L M) = 64"
  by (simp_all add: default_hybrid_def sm2_kem_def mlkem768_kem_def)

section \<open>Properties\<close>


text \<open>A small library that obeys the laws: a secret key is its own public key.\<close>

definition demo_mlkem :: "bytes mlkem_lib" where
  "demo_mlkem = \<lparr>ml_generate_keypair = (\<lambda>r. case fill_bytes 1184 r of (b, r1) \<Rightarrow> ((b, b), r1)), ml_key_decodes = (\<lambda>pk. True),
     ml_encapsulate = (\<lambda>pk r. case fill_bytes 1088 r of (b, r1) \<Rightarrow> ((b, map2 (+) (pad 32 pk) (pad 32 b)), r1)),
     ml_decapsulate = (\<lambda>sk ct. map2 (+) (pad 32 sk) (pad 32 ct)), ml_encapsulation_key = (\<lambda>sk. sk)\<rparr>"

lemma demo_mlkem_law: "mlkem_law demo_mlkem"
  by (auto simp: mlkem_law_def demo_mlkem_def fill_bytes_def)

definition demo_secret :: "u8 \<Rightarrow> (bytes, bytes) hybrid_secret_key" where
  "demo_secret b = \<lparr>classical = replicate 65 b, pq = replicate 1184 b\<rparr>"

lemma demo_pair: "kem_pair (default_hybrid demo_smx demo_mlkem) (demo_secret b) (replicate 1249 b)"
proof -
  have "kem_keypair (default_hybrid demo_smx demo_mlkem) (\<lambda>_. b) = Good ((demo_secret b, replicate 65 b @ replicate 1184 b), \<lambda>_. b)"
    by (simp add: default_hybrid_def hybrid_keypair_def sm2_kem_def sm2_keypair_def mlkem768_kem_def mlkem_keypair_def demo_smx_def demo_mlkem_def
        fill_bytes_def map_replicate_const demo_secret_def)
  then show ?thesis unfolding kem_pair_def replicate_add [symmetric] by (intro exI) simp
qed


end
