(* ===== verification/Gm_Session.thy ===== *)
theory Gm_Session
  imports Gm_Crypto
begin

unbundle bit_operations_syntax

text \<open>
  The transport session after the handshake (\<^verbatim>\<open>crates/gm-pq-stack/src/handshake/session.rs\<close>): the sliding replay
  window on 64-bit words and the two directions of encryption. The window is shown to accept exactly the
  sequence numbers that were not accepted before and are less than 64 below the highest one.
\<close>

section \<open>Things that are accepted once\<close>

text \<open>
  The contract of a filter against replays: \<open>admits s e\<close> tells whether the event \<open>e\<close> is let through in state \<open>s\<close>,
  \<open>next s e\<close> is the state after it, \<open>spent s\<close> holds the keys that will not be let through any more. The
  replay window and the cache of redeemed tickets both provide it.
\<close>

locale one_shot =
  fixes admits :: "'s \<Rightarrow> 'e \<Rightarrow> bool" and after :: "'s \<Rightarrow> 'e \<Rightarrow> 's" and key :: "'e \<Rightarrow> 'k" and spent :: "'s \<Rightarrow> 'k set"
  assumes admits_fresh: "admits s e \<Longrightarrow> key e \<notin> spent s"
    and admits_spends: "admits s e \<Longrightarrow> key e \<in> spent (after s e)"
    and spent_mono: "spent s \<subseteq> spent (after s e)"
begin

fun admitted :: "'s \<Rightarrow> 'e list \<Rightarrow> 'e list" where
  "admitted s [] = []"
| "admitted s (e # es) = (if admits s e then [e] else []) @ admitted (after s e) es"

lemma admitted_unspent: "e \<in> set (admitted s es) \<Longrightarrow> key e \<notin> spent s"
proof (induction es arbitrary: s)
  case (Cons a es)
  with admits_fresh [of s a] spent_mono [of s a] show ?case by (auto split: if_splits)
qed simp

lemma admitted_once: "distinct (map key (admitted s es))"
proof (induction es arbitrary: s)
  case (Cons a es)
  have "key a \<notin> key ` set (admitted (after s a) es)" if "admits s a"
    using admitted_unspent [of _ "after s a" es] admits_spends [OF that] by (metis imageE)
  with Cons show ?case by simp
qed simp

end

section \<open>Replay window\<close>

definition WINDOW_SIZE :: u64 where "WINDOW_SIZE = 64"

record replay_window =
  rw_highest :: u64
  rw_bitmap :: u64
  rw_initialized :: bool

definition window_new :: replay_window where
  "window_new = \<lparr>rw_highest = 0, rw_bitmap = 0, rw_initialized = False\<rparr>"

definition check_and_mark :: "replay_window \<Rightarrow> u64 \<Rightarrow> replay_window hs" where
  "check_and_mark w seq =
     (if \<not> rw_initialized w then Good (w\<lparr>rw_initialized := True, rw_highest := seq, rw_bitmap := 1\<rparr>)
      else if seq > rw_highest w then
        let shift = seq - rw_highest w in
        Good (w\<lparr>rw_bitmap := (if shift \<ge> WINDOW_SIZE then 1 else push_bit (unat shift) (rw_bitmap w) OR 1), rw_highest := seq\<rparr>)
      else
        let delta = rw_highest w - seq in
        if delta \<ge> WINDOW_SIZE then Bad Replay
        else
          let b = push_bit (unat delta) 1 in
          if rw_bitmap w AND b \<noteq> 0 then Bad Replay
          else Good (w\<lparr>rw_bitmap := rw_bitmap w OR b\<rparr>))"

section \<open>Session\<close>

record session =
  se_tx :: aead
  se_rx :: aead
  se_window :: replay_window
  se_id :: bytes

definition session_new :: "bytes \<Rightarrow> bytes \<Rightarrow> bytes \<Rightarrow> session" where
  "session_new tx_key rx_key session_id =
     \<lparr>se_tx = aead_new tx_key, se_rx = aead_new rx_key, se_window = window_new, se_id = session_id\<rparr>"

definition session_send :: "'sk smx_lib \<Rightarrow> session \<Rightarrow> bytes \<Rightarrow> (bytes \<times> session) hs" where
  "session_send L s plaintext =
     hs_try (aead_seal L (se_tx s) (se_id s) plaintext) (\<lambda>(packet, tx). Good (packet, s\<lparr>se_tx := tx\<rparr>))"

text \<open>An error leaves the session as it was.\<close>

definition session_recv :: "'sk smx_lib \<Rightarrow> session \<Rightarrow> bytes \<Rightarrow> (bytes \<times> session) hs" where
  "session_recv L s packet =
     hs_try (aead_open L (se_rx s) (se_id s) packet) (\<lambda>(seq, pt).
     hs_try (check_and_mark (se_window s) seq) (\<lambda>w. Good (pt, s\<lparr>se_window := w\<rparr>)))"

section \<open>The window is exact\<close>

text \<open>The specification, on the list of the numbers accepted so far.\<close>

definition fresh_seq :: "u64 list \<Rightarrow> u64 \<Rightarrow> bool" where
  "fresh_seq acc seq \<longleftrightarrow> seq \<notin> set acc \<and> list_all (\<lambda>a. unat a < unat seq + 64) acc"

definition window_tracks :: "replay_window \<Rightarrow> u64 list \<Rightarrow> bool" where
  "window_tracks w acc \<longleftrightarrow> (rw_initialized w \<longleftrightarrow> acc \<noteq> []) \<and>
     (acc \<noteq> [] \<longrightarrow> rw_highest w \<in> set acc \<and> (\<forall>a \<in> set acc. unat a \<le> unat (rw_highest w)) \<and>
        (\<forall>i < 64. bit (rw_bitmap w) i \<longleftrightarrow> (\<exists>a \<in> set acc. unat a + i = unat (rw_highest w))))"

lemma tracks_new: "window_tracks window_new []"
  by (simp add: window_tracks_def window_new_def)

lemma and_bit_zero: "(w :: 'a::len word) AND 2 ^ n = 0 \<longleftrightarrow> n \<ge> LENGTH('a) \<or> \<not> bit w n"
  unfolding push_bit_of_1 [symmetric]
proof
  assume z: "w AND push_bit n 1 = 0"
  have "bit (w AND push_bit n 1) n \<longleftrightarrow> n < LENGTH('a) \<and> bit w n" by (auto simp: bit_simps)
  with z show "n \<ge> LENGTH('a) \<or> \<not> bit w n" by auto
next
  assume "n \<ge> LENGTH('a) \<or> \<not> bit w n"
  then show "w AND push_bit n 1 = 0" by (intro bit_word_eqI) (auto simp: bit_simps)
qed

lemma unat_minus: "(b :: u64) \<le> a \<Longrightarrow> unat (a - b) = unat a - unat b"
  by (rule unat_sub)

lemma unat_minus_less: "(b :: u64) < a \<Longrightarrow> unat (a - b) = unat a - unat b"
  by (simp add: unat_minus)

lemma first_tracks:
  assumes "window_tracks w []"
  shows "\<exists>w'. check_and_mark w seq = Good w' \<and> window_tracks w' [seq]"
  using assms by (auto simp: window_tracks_def check_and_mark_def bit_1_iff)

lemma newer_tracks:
  assumes tr: "window_tracks w acc" and ne: "acc \<noteq> []" and new: "seq > rw_highest w"
  shows "\<exists>w'. check_and_mark w seq = Good w' \<and> window_tracks w' (seq # acc)"
proof -
  let ?h = "unat (rw_highest w)" and ?s = "unat seq" and ?shift = "seq - rw_highest w"
  from tr ne have init: "rw_initialized w" and le: "\<forall>a \<in> set acc. unat a \<le> ?h"
    and bits: "\<forall>i < 64. bit (rw_bitmap w) i \<longleftrightarrow> (\<exists>a \<in> set acc. unat a + i = ?h)" by (simp_all add: window_tracks_def)
  have lt: "?h < ?s" using new by (simp add: word_less_nat_alt)
  have sh: "unat ?shift = ?s - ?h" using new by (simp add: unat_minus)
  define bm where "bm = (if ?shift \<ge> WINDOW_SIZE then 1 else push_bit (unat ?shift) (rw_bitmap w) OR 1)"
  have wide: "?shift \<ge> WINDOW_SIZE \<longleftrightarrow> ?h + 64 \<le> ?s" using sh lt by (auto simp: word_le_nat_alt WINDOW_SIZE_def)
  have "bit bm i \<longleftrightarrow> (\<exists>a \<in> set (seq # acc). unat a + i = ?s)" if i: "i < 64" for i
  proof (cases "?h + 64 \<le> ?s")
    case True
    have "unat a + i \<noteq> ?s" if "a \<in> set acc" for a using le that True i by fastforce
    with True wide i show ?thesis by (auto simp: bm_def bit_1_iff)
  next
    case False
    have "bit bm i \<longleftrightarrow> i = 0 \<or> (unat ?shift \<le> i \<and> bit (rw_bitmap w) (i - unat ?shift))"
      using False wide i by (auto simp: bm_def bit_simps)
    also have "\<dots> \<longleftrightarrow> i = 0 \<or> (?s - ?h \<le> i \<and> (\<exists>a \<in> set acc. unat a + (i - (?s - ?h)) = ?h))"
      using bits i sh by auto
    also have "\<dots> \<longleftrightarrow> (\<exists>a \<in> set (seq # acc). unat a + i = ?s)"
    proof -
      have "(?s - ?h \<le> i \<and> unat a + (i - (?s - ?h)) = ?h) \<longleftrightarrow> unat a + i = ?s" if "a \<in> set acc" for a
        using le that lt by fastforce
      then show ?thesis by auto
    qed
    finally show ?thesis .
  qed
  then have "window_tracks (w\<lparr>rw_bitmap := bm, rw_highest := seq\<rparr>) (seq # acc)"
    using init le lt by (fastforce simp: window_tracks_def)
  moreover have "check_and_mark w seq = Good (w\<lparr>rw_bitmap := bm, rw_highest := seq\<rparr>)"
    using init new by (simp add: check_and_mark_def bm_def Let_def)
  ultimately show ?thesis by blast
qed

lemma older_tracks:
  assumes tr: "window_tracks w acc" and ne: "acc \<noteq> []" and old: "\<not> seq > rw_highest w"
  shows "if fresh_seq acc seq then \<exists>w'. check_and_mark w seq = Good w' \<and> window_tracks w' (seq # acc) else check_and_mark w seq = Bad Replay"
proof -
  let ?h = "unat (rw_highest w)" and ?s = "unat seq" and ?delta = "rw_highest w - seq"
  from tr ne have init: "rw_initialized w" and hi: "rw_highest w \<in> set acc" "\<forall>a \<in> set acc. unat a \<le> ?h"
    and bits: "\<And>i. i < 64 \<Longrightarrow> bit (rw_bitmap w) i \<longleftrightarrow> (\<exists>a \<in> set acc. unat a + i = ?h)" by (simp_all add: window_tracks_def)
  have le: "?s \<le> ?h" using old by (simp add: word_less_nat_alt)
  have d: "unat ?delta = ?h - ?s" using old by (simp add: unat_minus not_less)
  have far: "?delta \<ge> WINDOW_SIZE \<longleftrightarrow> ?s + 64 \<le> ?h" using d le by (auto simp: word_le_nat_alt WINDOW_SIZE_def)
  have window: "list_all (\<lambda>a. unat a < ?s + 64) acc \<longleftrightarrow> ?h < ?s + 64" using hi by (fastforce simp: list_all_iff)
  show ?thesis
  proof (cases "?s + 64 \<le> ?h")
    case True
    with far old init window show ?thesis by (simp add: fresh_seq_def check_and_mark_def Let_def)
  next
    case False
    then have small: "unat ?delta < 64" using d by simp
    have seen: "bit (rw_bitmap w) (unat ?delta) \<longleftrightarrow> seq \<in> set acc"
    proof -
      have "bit (rw_bitmap w) (unat ?delta) \<longleftrightarrow> (\<exists>a \<in> set acc. unat a + (?h - ?s) = ?h)" using bits [OF small] d by simp
      also have "\<dots> \<longleftrightarrow> (\<exists>a \<in> set acc. unat a = ?s)" using le by (intro bex_cong) auto
      also have "\<dots> \<longleftrightarrow> seq \<in> set acc" by (metis word_unat_eq_iff)
      finally show ?thesis .
    qed
    let ?bm = "rw_bitmap w OR push_bit (unat ?delta) 1"
    have run: "check_and_mark w seq = (if seq \<in> set acc then Bad Replay else Good (w\<lparr>rw_bitmap := ?bm\<rparr>))"
      using False far old init small seen by (simp add: check_and_mark_def Let_def and_bit_zero)
    have "bit ?bm i \<longleftrightarrow> (\<exists>a \<in> set (seq # acc). unat a + i = ?h)" if "i < 64" for i
      using bits [OF that] d le that by (auto simp: bit_simps)
    then have "window_tracks (w\<lparr>rw_bitmap := ?bm\<rparr>) (seq # acc)" using init hi le by (simp add: window_tracks_def)
    with run window False show ?thesis by (auto simp: fresh_seq_def)
  qed
qed

lemma check_tracks:
  assumes "window_tracks w acc"
  shows "if fresh_seq acc seq then \<exists>w'. check_and_mark w seq = Good w' \<and> window_tracks w' (seq # acc) else check_and_mark w seq = Bad Replay"
proof (cases "acc = []")
  case True
  with first_tracks [of w seq] assms show ?thesis by (simp add: fresh_seq_def)
next
  case False
  show ?thesis
  proof (cases "seq > rw_highest w")
    case True
    with assms False have "fresh_seq acc seq" by (fastforce simp: fresh_seq_def window_tracks_def list_all_iff word_less_nat_alt)
    with newer_tracks [OF assms False True] show ?thesis by simp
  qed (rule older_tracks [OF assms False])
qed

section \<open>The window as a filter\<close>

definition window_admits :: "replay_window \<Rightarrow> u64 \<Rightarrow> bool" where
  "window_admits w seq \<longleftrightarrow> (case check_and_mark w seq of Good w' \<Rightarrow> True | _ \<Rightarrow> False)"

definition window_after :: "replay_window \<Rightarrow> u64 \<Rightarrow> replay_window" where
  "window_after w seq = (case check_and_mark w seq of Good w' \<Rightarrow> w' | _ \<Rightarrow> w)"

definition window_spent :: "replay_window \<Rightarrow> u64 set" where
  "window_spent w = (if rw_initialized w
     then {k. unat k \<le> unat (rw_highest w) \<and> (unat k + 64 \<le> unat (rw_highest w) \<or> bit (rw_bitmap w) (unat (rw_highest w) - unat k))} else {})"

lemma window_cases:
  obtains (first) "\<not> rw_initialized w" "check_and_mark w seq = Good (w\<lparr>rw_initialized := True, rw_highest := seq, rw_bitmap := 1\<rparr>)"
  | (far) "rw_initialized w" "unat (rw_highest w) + 64 \<le> unat seq" "check_and_mark w seq = Good (w\<lparr>rw_bitmap := 1, rw_highest := seq\<rparr>)"
  | (near) "rw_initialized w" "unat (rw_highest w) < unat seq" "unat seq < unat (rw_highest w) + 64"
      "check_and_mark w seq = Good (w\<lparr>rw_bitmap := push_bit (unat seq - unat (rw_highest w)) (rw_bitmap w) OR 1, rw_highest := seq\<rparr>)"
  | (mark) "rw_initialized w" "unat seq \<le> unat (rw_highest w)" "unat (rw_highest w) < unat seq + 64" "\<not> bit (rw_bitmap w) (unat (rw_highest w) - unat seq)"
      "check_and_mark w seq = Good (w\<lparr>rw_bitmap := rw_bitmap w OR push_bit (unat (rw_highest w) - unat seq) 1\<rparr>)"
  | (refused) "check_and_mark w seq = Bad Replay"
proof -
  let ?h = "unat (rw_highest w)" and ?s = "unat seq"
  consider "\<not> rw_initialized w" | "rw_initialized w" "seq > rw_highest w" | "rw_initialized w" "\<not> seq > rw_highest w" by blast
  then show thesis
  proof cases
    case 1
    then show thesis by (intro first) (auto simp: check_and_mark_def)
  next
    case 2
    then have lt: "?h < ?s" and sh: "unat (seq - rw_highest w) = ?s - ?h" by (simp add: word_less_nat_alt, simp add: unat_minus_less)
    show thesis
    proof (cases "?h + 64 \<le> ?s")
      case True
      with 2 sh show thesis by (intro far) (auto simp: check_and_mark_def Let_def word_le_nat_alt WINDOW_SIZE_def)
    next
      case False
      with 2 lt sh show thesis by (intro near) (auto simp: check_and_mark_def Let_def word_le_nat_alt WINDOW_SIZE_def)
    qed
  next
    case 3
    then have le: "?s \<le> ?h" and d: "unat (rw_highest w - seq) = ?h - ?s" by (simp add: word_less_nat_alt, simp add: unat_minus not_less)
    show thesis
    proof (cases "?s + 64 \<le> ?h \<or> bit (rw_bitmap w) (?h - ?s)")
      case True
      with 3 d le show thesis by (intro refused) (auto simp: check_and_mark_def Let_def word_le_nat_alt WINDOW_SIZE_def and_bit_zero dest: bit_imp_le_length)
    next
      case False
      with 3 d le show thesis by (intro mark) (auto simp: check_and_mark_def Let_def word_le_nat_alt WINDOW_SIZE_def and_bit_zero)
    qed
  qed
qed

interpretation win: one_shot window_admits window_after "\<lambda>seq. seq" window_spent
proof
  fix w seq
  show "seq \<notin> window_spent w" if "window_admits w seq"
    using that by (cases rule: window_cases [of w seq]) (auto simp: window_admits_def window_spent_def)
  show "seq \<in> window_spent (window_after w seq)" if "window_admits w seq"
    using that by (cases rule: window_cases [of w seq]) (auto simp: window_admits_def window_after_def window_spent_def bit_simps bit_1_iff)
  show "window_spent w \<subseteq> window_spent (window_after w seq)"
  proof
    fix k
    assume k: "k \<in> window_spent w"
    show "k \<in> window_spent (window_after w seq)"
    proof (cases rule: window_cases [of w seq])
      case near
      have "unat seq - unat k - (unat seq - unat (rw_highest w)) = unat (rw_highest w) - unat k" using near k by (auto simp: window_spent_def)
      with near k show ?thesis by (auto simp: window_after_def window_spent_def bit_simps)
    qed (use k in \<open>auto simp: window_after_def window_spent_def bit_simps\<close>)
  qed
qed

section \<open>Runs of a session\<close>

text \<open>The packets a session is given, one after the other, and what it answers.\<close>

fun recv_all :: "'sk smx_lib \<Rightarrow> session \<Rightarrow> bytes list \<Rightarrow> bytes hs list" where
  "recv_all L s [] = []"
| "recv_all L s (p # ps) =
     (case session_recv L s p of
        Good (pt, s1) \<Rightarrow> Good pt # recv_all L s1 ps
      | Bad e \<Rightarrow> Bad e # recv_all L s ps
      | Panics \<Rightarrow> Panics # recv_all L s ps)"

fun recv_spec :: "(bytes \<Rightarrow> (u64 \<times> bytes) hs) \<Rightarrow> u64 list \<Rightarrow> bytes list \<Rightarrow> bytes hs list" where
  "recv_spec dec acc [] = []"
| "recv_spec dec acc (p # ps) =
     (case dec p of
        Good (seq, pt) \<Rightarrow> if fresh_seq acc seq then Good pt # recv_spec dec (seq # acc) ps else Bad Replay # recv_spec dec acc ps
      | Bad e \<Rightarrow> Bad e # recv_spec dec acc ps
      | Panics \<Rightarrow> Panics # recv_spec dec acc ps)"

fun is_good :: "'a hs \<Rightarrow> bool" where
  "is_good (Good x) = True"
| "is_good _ = False"

lemma recv_all_spec:
  assumes "window_tracks (se_window s) acc"
  shows "recv_all L s ps = recv_spec (aead_open L (se_rx s) (se_id s)) acc ps"
  using assms
proof (induction ps arbitrary: s acc)
  case (Cons p ps)
  show ?case
  proof (cases "aead_open L (se_rx s) (se_id s) p")
    case (Good x)
    obtain seq pt where x: "x = (seq, pt)" by fastforce
    from check_tracks [OF Cons.prems, of seq] show ?thesis
    proof (cases "fresh_seq acc seq")
      case True
      with check_tracks [OF Cons.prems, of seq] obtain w where w: "check_and_mark (se_window s) seq = Good w" "window_tracks w (seq # acc)" by auto
      with Cons.IH [of "s\<lparr>se_window := w\<rparr>" "seq # acc"] Good x True show ?thesis by (simp add: session_recv_def)
    next
      case False
      with check_tracks [OF Cons.prems, of seq] have "check_and_mark (se_window s) seq = Bad Replay" by simp
      with Cons.IH [OF Cons.prems] Good x False show ?thesis by (simp add: session_recv_def)
    qed
  qed (use Cons.IH [OF Cons.prems] in \<open>simp_all add: session_recv_def\<close>)
qed simp

text \<open>The numbers of the accepted packets are those the window admitted.\<close>

definition packet_seq :: "'sk smx_lib \<Rightarrow> session \<Rightarrow> bytes \<Rightarrow> u64 option" where
  "packet_seq L s p = (case aead_open L (se_rx s) (se_id s) p of Good (seq, pt) \<Rightarrow> Some seq | _ \<Rightarrow> None)"

lemma accepted_seqs:
  "map (packet_seq L s) (map fst (filter (is_good \<circ> snd) (zip ps (recv_all L s ps)))) =
     map Some (win.admitted (se_window s) (List.map_filter (packet_seq L s) ps))"
proof (induction ps arbitrary: s)
  case (Cons p ps)
  show ?case
  proof (cases "aead_open L (se_rx s) (se_id s) p")
    case (Good x)
    obtain seq pt where x: "x = (seq, pt)" by fastforce
    have same: "packet_seq L (s\<lparr>se_window := w\<rparr>) = packet_seq L s" for w by (simp add: packet_seq_def fun_eq_iff)
    have seq: "packet_seq L s p = Some seq" using Good x by (simp add: packet_seq_def)
    show ?thesis
    proof (cases "check_and_mark (se_window s) seq")
      case w: (Good w)
      then have "window_admits (se_window s) seq" "window_after (se_window s) seq = w" by (simp_all add: window_admits_def window_after_def)
      with w Cons.IH [of "s\<lparr>se_window := w\<rparr>"] Good x seq show ?thesis by (simp add: session_recv_def same List.map_filter_def)
    next
      case (Bad e)
      then have "\<not> window_admits (se_window s) seq" "window_after (se_window s) seq = se_window s" by (simp_all add: window_admits_def window_after_def)
      with Bad Cons.IH [of s] Good x seq show ?thesis by (simp add: session_recv_def List.map_filter_def)
    next
      case Panics
      then have "\<not> window_admits (se_window s) seq" "window_after (se_window s) seq = se_window s" by (simp_all add: window_admits_def window_after_def)
      with Panics Cons.IH [of s] Good x seq show ?thesis by (simp add: session_recv_def List.map_filter_def)
    qed
  qed (use Cons.IH [of s] in \<open>simp_all add: session_recv_def packet_seq_def List.map_filter_def\<close>)
qed simp

lemma accepted_once: "distinct (map fst (filter (is_good \<circ> snd) (zip ps (recv_all L s ps))))"
proof -
  have "distinct (map Some (win.admitted (se_window s) (List.map_filter (packet_seq L s) ps)))"
    using win.admitted_once [of "se_window s"] by (simp add: distinct_map)
  then show ?thesis unfolding accepted_seqs [symmetric] by (rule distinct_map [THEN iffD1, THEN conjunct1])
qed

section \<open>Two ends of a session\<close>

text \<open>
  What \<open>a\<close> sends next is accepted by \<open>b\<close>: they share the key of that direction and the identifier, and \<open>b\<close> accepted only
  numbers \<open>a\<close> has used.
\<close>

definition may_send :: "session \<Rightarrow> session \<Rightarrow> bool" where
  "may_send a b \<longleftrightarrow> se_id a = se_id b \<and> ae_key (se_tx a) = ae_key (se_rx b) \<and>
     (\<exists>acc. window_tracks (se_window b) acc \<and> (\<forall>s \<in> set acc. s < ae_tx_seq (se_tx a)))"

lemma unat_plus_one: "(n :: u64) \<noteq> - 1 \<Longrightarrow> unat (n + 1) = unat n + 1"
  using counter_suc [of n] by (auto simp: eq_neg_iff_add_eq_0)

lemma may_send_new: "may_send (session_new k k' sid) (session_new k'' k sid)"
  using tracks_new by (auto simp: may_send_def session_new_def aead_new_def intro!: exI [of _ "[]"])

lemma sent_is_received:
  assumes L: "gcm_law L" and ms: "may_send a b" and room: "ae_tx_seq (se_tx a) \<noteq> - 1"
  shows "\<exists>p w. session_send L a m = Good (p, a\<lparr>se_tx := (se_tx a)\<lparr>ae_tx_seq := ae_tx_seq (se_tx a) + 1\<rparr>\<rparr>) \<and> length p = 24 + length m \<and>
    session_recv L b p = Good (m, b\<lparr>se_window := w\<rparr>) \<and>
    may_send (a\<lparr>se_tx := (se_tx a)\<lparr>ae_tx_seq := ae_tx_seq (se_tx a) + 1\<rparr>\<rparr>) (b\<lparr>se_window := w\<rparr>)"
proof -
  let ?seq = "ae_tx_seq (se_tx a)" and ?tx = "(se_tx a)\<lparr>ae_tx_seq := ae_tx_seq (se_tx a) + 1\<rparr>"
  let ?p = "seal_with_seq L ?tx ?seq (se_id a) m"
  from ms obtain acc where acc: "window_tracks (se_window b) acc" "\<forall>s \<in> set acc. s < ?seq"
    and same: "se_id b = se_id a" "ae_key (se_rx b) = ae_key ?tx" by (auto simp: may_send_def)
  have step: "unat (?seq + 1) = unat ?seq + 1" using room by (rule unat_plus_one)
  have "fresh_seq acc ?seq" using acc(2) by (fastforce simp: fresh_seq_def list_all_iff word_less_nat_alt)
  with check_tracks [OF acc(1), of ?seq] obtain w where w: "check_and_mark (se_window b) ?seq = Good w" "window_tracks w (?seq # acc)" by auto
  have "session_send L a m = Good (?p, a\<lparr>se_tx := ?tx\<rparr>)" using room by (simp add: session_send_def aead_seal_def)
  moreover have "session_recv L b ?p = Good (m, b\<lparr>se_window := w\<rparr>)"
    using open_sealed [OF L same(2), of "se_id a" ?seq m] same(1) w(1) by (simp add: session_recv_def)
  moreover have "may_send (a\<lparr>se_tx := ?tx\<rparr>) (b\<lparr>se_window := w\<rparr>)"
    unfolding may_send_def using w(2) same acc(2) step by (auto simp: word_less_nat_alt less_Suc_eq intro!: exI [of _ "?seq # acc"])
  ultimately show ?thesis using length_sealed [OF L] by blast
qed

text \<open>Messages sent at one end and received at the other, in order.\<close>

fun exchange :: "'sk smx_lib \<Rightarrow> session \<Rightarrow> session \<Rightarrow> bytes list \<Rightarrow> bytes list hs" where
  "exchange L a b [] = Good []"
| "exchange L a b (m # ms) =
     hs_try (session_send L a m) (\<lambda>(p, a1).
     hs_try (session_recv L b p) (\<lambda>(m1, b1).
     hs_try (exchange L a1 b1 ms) (\<lambda>ms1. Good (m1 # ms1))))"

lemma exchange_all:
  assumes "gcm_law L"
  shows "may_send a b \<Longrightarrow> unat (ae_tx_seq (se_tx a)) + length ms < 2 ^ 64 \<Longrightarrow> exchange L a b ms = Good ms"
proof (induction ms arbitrary: a b)
  case (Cons m ms)
  have room: "ae_tx_seq (se_tx a) \<noteq> - 1" using Cons.prems(2) by (auto simp: unsigned_minus_1_eq_mask mask_eq_exp_minus_1)
  from sent_is_received [OF assms Cons.prems(1) room, of m] obtain p w where
    sr: "session_send L a m = Good (p, a\<lparr>se_tx := (se_tx a)\<lparr>ae_tx_seq := ae_tx_seq (se_tx a) + 1\<rparr>\<rparr>)"
      "session_recv L b p = Good (m, b\<lparr>se_window := w\<rparr>)"
      "may_send (a\<lparr>se_tx := (se_tx a)\<lparr>ae_tx_seq := ae_tx_seq (se_tx a) + 1\<rparr>\<rparr>) (b\<lparr>se_window := w\<rparr>)" by blast
  have "exchange L (a\<lparr>se_tx := (se_tx a)\<lparr>ae_tx_seq := ae_tx_seq (se_tx a) + 1\<rparr>\<rparr>) (b\<lparr>se_window := w\<rparr>) ms = Good ms"
    using Cons.IH [OF sr(3)] Cons.prems(2) unat_plus_one [OF room] by simp
  with sr(1,2) show ?case by simp
qed simp

section \<open>Properties\<close>

text \<open>
  C13. Replay protection of a session. Whatever packets arrive, in any order and any number of times, the session accepts
  exactly those that authenticate and whose sequence number was not accepted before and is less than 64 below every accepted one;
  so no packet is accepted twice.
\<close>

theorem session_accepts_exactly_fresh:
  "recv_all L (session_new tx_key rx_key sid) ps = recv_spec (aead_open L (aead_new rx_key) sid) [] ps \<and>
   distinct (map fst (filter (is_good \<circ> snd) (zip ps (recv_all L (session_new tx_key rx_key sid) ps))))"
proof -
  have "recv_all L (session_new tx_key rx_key sid) ps = recv_spec (aead_open L (aead_new rx_key) sid) [] ps"
    using recv_all_spec [of "session_new tx_key rx_key sid" "[]" L ps] tracks_new by (simp add: session_new_def)
  with accepted_once [of ps L "session_new tx_key rx_key sid"] show ?thesis by simp
qed

end
