(* ===== verification/Gm_Handshake.thy ===== *)
theory Gm_Handshake
  imports Gm_Kem Gm_Session
begin

text \<open>
  The three messages of the handshake (\<^verbatim>\<open>crates/gm-pq-stack/src/handshake/mod.rs\<close>): the symmetric state, the
  initiator and the responder, for any KEM. The operations return the new state of the object with their result; after an
  error the callers drop the object.
\<close>

section \<open>Symmetric state\<close>

definition PROLOGUE :: bytes where "PROLOGUE = ascii ''gm-pq-stack-handshake/v1''"

definition INFO_STATIC_ENC :: bytes where "INFO_STATIC_ENC = ascii ''static-key-enc''"

definition INFO_SPLIT :: bytes where "INFO_SPLIT = ascii ''transport-split''"

definition INFO_EARLY :: bytes where "INFO_EARLY = ascii ''early-data''"

definition PSK_LABEL :: bytes where "PSK_LABEL = ascii ''psk''"

record sym_state =
  sy_ck :: bytes
  sy_h :: bytes

definition sym_new :: "'k smx_lib \<Rightarrow> bytes \<Rightarrow> sym_state" where
  "sym_new L proto_name = (let h = sm3 L [PROLOGUE, proto_name] in \<lparr>sy_ck = h, sy_h = h\<rparr>)"

definition mix_hash :: "'k smx_lib \<Rightarrow> bytes \<Rightarrow> sym_state \<Rightarrow> sym_state" where
  "mix_hash L data s = s\<lparr>sy_h := sm3 L [sy_h s, data]\<rparr>"

definition mix_key :: "'k smx_lib \<Rightarrow> bytes \<Rightarrow> sym_state \<Rightarrow> sym_state" where
  "mix_key L ikm s = s\<lparr>sy_ck := hkdf_extract L (Some (sy_ck s)) ikm\<rparr>"

definition sym_new_with_psk :: "'k smx_lib \<Rightarrow> bytes \<Rightarrow> bytes \<Rightarrow> sym_state" where
  "sym_new_with_psk L proto_name psk = mix_key L (PSK_LABEL @ psk) (sym_new L proto_name)"

definition encryption_key :: "'k smx_lib \<Rightarrow> sym_state \<Rightarrow> bytes \<Rightarrow> bytes hs" where
  "encryption_key L s info =
     hs_try (hkdf_expand L (sy_ck s) info 16) (\<lambda>key. if length key = 16 then Good key else Panics)"

definition early_data_aead :: "'k smx_lib \<Rightarrow> sym_state \<Rightarrow> aead hs" where
  "early_data_aead L s = hs_try (encryption_key L s INFO_EARLY) (\<lambda>key. Good (aead_new key))"

definition sym_split :: "'k smx_lib \<Rightarrow> sym_state \<Rightarrow> (bytes \<times> bytes \<times> bytes) hs" where
  "sym_split L s =
     hs_try (hkdf_expand L (sy_ck s) INFO_SPLIT 32) (\<lambda>material.
       if length material = 32 then Good (take 16 material, drop 16 material, sy_h s) else Panics)"

text \<open>A static key under the handshake key, with sequence number 0.\<close>

definition seal_static :: "'k smx_lib \<Rightarrow> aead \<Rightarrow> bytes \<Rightarrow> bytes \<Rightarrow> bytes" where
  "seal_static L a aad pk = drop 8 (seal_with_seq L a 0 aad pk)"

definition auth_to_peer :: "'a hs \<Rightarrow> 'a hs" where
  "auth_to_peer r = (case r of Bad AuthFailed \<Rightarrow> Bad PeerAuth | _ \<Rightarrow> r)"

definition open_static :: "'k smx_lib \<Rightarrow> aead \<Rightarrow> bytes \<Rightarrow> bytes \<Rightarrow> (u64 \<times> bytes) hs" where
  "open_static L a aad data = auth_to_peer (aead_open L a aad (be_bytes 8 (0 :: u64) @ data))"

section \<open>Initiator\<close>

record 'sk initiator =
  in_ss :: sym_state
  in_static_sk :: "'sk option"
  in_static_pk :: bytes
  in_eph_sk :: "'sk option"
  in_enc_peer_static :: "bytes option"
  in_peer_eph_pk :: "bytes option"
  in_peer_ct_ee :: "bytes option"
  in_peer_static :: "bytes option"

definition initiator_new :: "'k smx_lib \<Rightarrow> ('sk, 'x) kem_scheme \<Rightarrow> 'sk \<Rightarrow> bytes \<Rightarrow> 'sk initiator" where
  "initiator_new L K static_sk static_pk = \<lparr>in_ss = sym_new L (kem_name K), in_static_sk = Some static_sk, in_static_pk = static_pk,
     in_eph_sk = None, in_enc_peer_static = None, in_peer_eph_pk = None, in_peer_ct_ee = None, in_peer_static = None\<rparr>"

definition initiator_new_with_psk :: "'k smx_lib \<Rightarrow> ('sk, 'x) kem_scheme \<Rightarrow> 'sk \<Rightarrow> bytes \<Rightarrow> bytes \<Rightarrow> 'sk initiator" where
  "initiator_new_with_psk L K static_sk static_pk psk =
     (initiator_new L K static_sk static_pk)\<lparr>in_ss := sym_new_with_psk L (kem_name K) psk\<rparr>"

definition into_static_keys :: "'sk initiator \<Rightarrow> ('sk \<times> bytes) hs" where
  "into_static_keys i = hs_try (ok_or HandshakeState (in_static_sk i)) (\<lambda>sk. Good (sk, in_static_pk i))"

definition write_msg1 :: "'k smx_lib \<Rightarrow> ('sk, 'x) kem_scheme \<Rightarrow> 'sk initiator \<Rightarrow> rng \<Rightarrow> ((bytes \<times> 'sk initiator) \<times> rng) hs" where
  "write_msg1 L K i r =
     hs_try (hs_guard (in_eph_sk i = None) HandshakeState) (\<lambda>_.
     hs_try (kem_keypair K r) (\<lambda>((e_sk, e_pk), r1).
     Good ((e_pk, i\<lparr>in_ss := mix_hash L e_pk (in_ss i), in_eph_sk := Some e_sk\<rparr>), r1)))"

definition seal_early_data :: "'k smx_lib \<Rightarrow> 'sk initiator \<Rightarrow> bytes \<Rightarrow> bytes hs" where
  "seal_early_data L i plaintext =
     hs_try (hs_guard (in_eph_sk i \<noteq> None) HandshakeState) (\<lambda>_.
     hs_try (early_data_aead L (in_ss i)) (\<lambda>a. Good (drop 8 (seal_with_seq L a 0 (sy_h (in_ss i)) plaintext))))"

definition read_msg2 :: "'k smx_lib \<Rightarrow> ('sk, 'x) kem_scheme \<Rightarrow> 'sk initiator \<Rightarrow> bytes \<Rightarrow> 'sk initiator hs" where
  "read_msg2 L K i msg =
     (let expect = kem_pk_len K + kem_ct_len K in
      hs_try (hs_guard (\<not> length msg < expect + 16) InvalidEncoding) (\<lambda>_.
        let eph_pk = take (kem_pk_len K) msg; ct_ee = take (kem_ct_len K) (drop (kem_pk_len K) msg); enc_static = drop expect msg in
        hs_try (kem_validate_public K eph_pk) (\<lambda>_.
          let ss1 = mix_hash L ct_ee (mix_hash L eph_pk (in_ss i)) in
          hs_try (ok_or HandshakeState (in_eph_sk i)) (\<lambda>eph_sk.
          hs_try (kem_decapsulate K eph_sk ct_ee) (\<lambda>ss_ee.
          Good (i\<lparr>in_ss := mix_key L ss_ee ss1, in_enc_peer_static := Some enc_static, in_peer_eph_pk := Some eph_pk,
                  in_peer_ct_ee := Some ct_ee\<rparr>))))))"

definition write_msg3_inner :: "'k smx_lib \<Rightarrow> ('sk, 'x) kem_scheme \<Rightarrow> 'sk initiator \<Rightarrow> rng \<Rightarrow> (bytes \<Rightarrow> bytes hs) option \<Rightarrow>
    (bytes \<Rightarrow> unit hs) option \<Rightarrow> ((bytes \<times> session \<times> 'sk initiator) \<times> rng) hs" where
  "write_msg3_inner L K i r signer peer_check =
     hs_try (ok_or HandshakeState (in_enc_peer_static i)) (\<lambda>enc_static.
     hs_try (case in_peer_eph_pk i of None \<Rightarrow> Panics | Some pk \<Rightarrow> Good pk) (\<lambda>peer_eph_pk.
     hs_try (encryption_key L (in_ss i) INFO_STATIC_ENC) (\<lambda>key_s.
     hs_try (open_static L (aead_new key_s) (sy_h (in_ss i)) enc_static) (\<lambda>(_, s_r_pk).
     hs_try (kem_validate_public K s_r_pk) (\<lambda>_.
     hs_try (case peer_check of None \<Rightarrow> Good () | Some check \<Rightarrow> check s_r_pk) (\<lambda>_.
       let ss1 = mix_hash L enc_static (in_ss i) in
       hs_try (kem_encapsulate K peer_eph_pk r) (\<lambda>((ct_se, ss_se), r1).
       hs_try (kem_encapsulate K s_r_pk r1) (\<lambda>((ct_ss, ss_ss), r2).
         let ss2 = mix_hash L ct_ss (mix_hash L ct_se (mix_key L (ss_se @ ss_ss) ss1)) in
         hs_try (case signer of None \<Rightarrow> Good (in_static_pk i) | Some sign \<Rightarrow> hs_try (sign (sy_h ss2)) (\<lambda>sig. Good (in_static_pk i @ sig))) (\<lambda>plaintext.
         hs_try (encryption_key L ss2 INFO_STATIC_ENC) (\<lambda>key3.
           let enc_si = seal_static L (aead_new key3) (sy_h ss2) plaintext; ss3 = mix_hash L enc_si ss2 in
           hs_try (sym_split L ss3) (\<lambda>(k_i2r, k_r2i, session_id).
           Good ((ct_se @ ct_ss @ enc_si, session_new k_i2r k_r2i session_id,
                  i\<lparr>in_ss := ss3, in_enc_peer_static := None, in_peer_eph_pk := None, in_peer_static := Some s_r_pk\<rparr>), r2))))))))))))"

definition write_msg3 :: "'k smx_lib \<Rightarrow> ('sk, 'x) kem_scheme \<Rightarrow> 'sk initiator \<Rightarrow> rng \<Rightarrow> ((bytes \<times> session \<times> 'sk initiator) \<times> rng) hs" where
  "write_msg3 L K i r = write_msg3_inner L K i r None None"

text \<open>The roles of a trust anchor; an anchor decides about a static key in a role.\<close>

datatype peer_role = RoleInitiator | RoleResponder

type_synonym trust_anchor = "peer_role \<Rightarrow> bytes \<Rightarrow> unit hs"

text \<open>\<open>rs\<close> is the randomness the signature draws.\<close>

definition write_msg3_with_auth :: "'k smx_lib \<Rightarrow> 'sk auth_kem \<Rightarrow> 'sk initiator \<Rightarrow> rng \<Rightarrow> rng \<Rightarrow> trust_anchor \<Rightarrow>
    ((bytes \<times> session \<times> 'sk initiator) \<times> rng) hs" where
  "write_msg3_with_auth L K i r rs anchor =
     hs_try (ok_or HandshakeState (in_static_sk i)) (\<lambda>sk.
     write_msg3_inner L K (i\<lparr>in_static_sk := None\<rparr>) r (Some (\<lambda>h. ka_sign K sk h rs)) (Some (anchor RoleResponder)))"

section \<open>Responder\<close>

record 'sk responder =
  re_ss :: sym_state
  re_static_sk :: 'sk
  re_static_pk :: bytes
  re_eph_sk :: "'sk option"
  re_peer_eph_pk :: "bytes option"
  re_done :: "(bytes \<times> bytes \<times> bytes) option"

definition responder_new :: "'k smx_lib \<Rightarrow> ('sk, 'x) kem_scheme \<Rightarrow> 'sk \<Rightarrow> bytes \<Rightarrow> 'sk responder" where
  "responder_new L K static_sk static_pk = \<lparr>re_ss = sym_new L (kem_name K), re_static_sk = static_sk, re_static_pk = static_pk,
     re_eph_sk = None, re_peer_eph_pk = None, re_done = None\<rparr>"

definition responder_new_with_psk :: "'k smx_lib \<Rightarrow> ('sk, 'x) kem_scheme \<Rightarrow> 'sk \<Rightarrow> bytes \<Rightarrow> bytes \<Rightarrow> 'sk responder" where
  "responder_new_with_psk L K static_sk static_pk psk =
     (responder_new L K static_sk static_pk)\<lparr>re_ss := sym_new_with_psk L (kem_name K) psk\<rparr>"

definition read_msg1 :: "'k smx_lib \<Rightarrow> ('sk, 'x) kem_scheme \<Rightarrow> 'sk responder \<Rightarrow> bytes \<Rightarrow> 'sk responder hs" where
  "read_msg1 L K re msg =
     hs_try (kem_validate_public K msg) (\<lambda>_. Good (re\<lparr>re_ss := mix_hash L msg (re_ss re), re_peer_eph_pk := Some msg\<rparr>))"

definition open_early_data :: "'k smx_lib \<Rightarrow> 'sk responder \<Rightarrow> bytes \<Rightarrow> bytes hs" where
  "open_early_data L re data =
     hs_try (hs_guard (re_peer_eph_pk re \<noteq> None) HandshakeState) (\<lambda>_.
     hs_try (early_data_aead L (re_ss re)) (\<lambda>a.
     hs_try (auth_to_peer (aead_open L a (sy_h (re_ss re)) (be_bytes 8 (0 :: u64) @ data))) (\<lambda>(_, pt). Good pt)))"

definition write_msg2 :: "'k smx_lib \<Rightarrow> ('sk, 'x) kem_scheme \<Rightarrow> 'sk responder \<Rightarrow> rng \<Rightarrow> ((bytes \<times> 'sk responder) \<times> rng) hs" where
  "write_msg2 L K re r =
     hs_try (ok_or HandshakeState (re_peer_eph_pk re)) (\<lambda>peer_eph.
     hs_try (kem_keypair K r) (\<lambda>((e_sk, e_pk), r1).
     hs_try (kem_encapsulate K peer_eph r1) (\<lambda>((ct_ee, ss_ee), r2).
       let ss1 = mix_key L ss_ee (mix_hash L ct_ee (mix_hash L e_pk (re_ss re))) in
       hs_try (encryption_key L ss1 INFO_STATIC_ENC) (\<lambda>key_s.
         let enc_static = seal_static L (aead_new key_s) (sy_h ss1) (re_static_pk re) in
         Good ((e_pk @ ct_ee @ enc_static, re\<lparr>re_ss := mix_hash L enc_static ss1, re_eph_sk := Some e_sk\<rparr>), r2)))))"

text \<open>The session, the static key in the message, and the hash at the time of signing.\<close>

definition read_msg3_inner :: "'k smx_lib \<Rightarrow> ('sk, 'x) kem_scheme \<Rightarrow> 'sk responder \<Rightarrow> bytes \<Rightarrow>
    ((session \<times> bytes \<times> bytes) \<times> 'sk responder) hs" where
  "read_msg3_inner L K re msg =
     (let expect = 2 * kem_ct_len K in
      hs_try (hs_guard (\<not> length msg < expect + 16) InvalidEncoding) (\<lambda>_.
        let ct_se = take (kem_ct_len K) msg; ct_ss = take (kem_ct_len K) (drop (kem_ct_len K) msg); enc_static = drop expect msg in
        hs_try (ok_or HandshakeState (re_eph_sk re)) (\<lambda>eph_sk.
        hs_try (kem_decapsulate K eph_sk ct_se) (\<lambda>ss_se.
        hs_try (kem_decapsulate K (re_static_sk re) ct_ss) (\<lambda>ss_ss.
          let ss1 = mix_hash L ct_ss (mix_hash L ct_se (mix_key L (ss_se @ ss_ss) (re_ss re))) in
          hs_try (encryption_key L ss1 INFO_STATIC_ENC) (\<lambda>key3.
          hs_try (open_static L (aead_new key3) (sy_h ss1) enc_static) (\<lambda>(_, static_plain).
            let ss2 = mix_hash L enc_static ss1 in
            hs_try (sym_split L ss2) (\<lambda>(k_i2r, k_r2i, session_id).
            Good ((session_new k_r2i k_i2r session_id, static_plain, sy_h ss1),
                  re\<lparr>re_ss := ss2, re_eph_sk := None, re_done := Some (k_r2i, k_i2r, session_id)\<rparr>)))))))))"

definition read_msg3 :: "'k smx_lib \<Rightarrow> ('sk, 'x) kem_scheme \<Rightarrow> 'sk responder \<Rightarrow> bytes \<Rightarrow> (session \<times> 'sk responder) hs" where
  "read_msg3 L K re msg =
     hs_try (read_msg3_inner L K re msg) (\<lambda>((session, static_plain, _), re1).
     hs_try (hs_guard (length static_plain = kem_pk_len K) InvalidEncoding) (\<lambda>_.
     hs_try (kem_validate_public K static_plain) (\<lambda>_. Good (session, re1))))"

definition read_msg3_with_auth :: "'k smx_lib \<Rightarrow> 'sk auth_kem \<Rightarrow> 'sk responder \<Rightarrow> bytes \<Rightarrow> trust_anchor \<Rightarrow>
    ((session \<times> bytes) \<times> 'sk responder) hs" where
  "read_msg3_with_auth L K re msg anchor =
     hs_try (read_msg3_inner L K re msg) (\<lambda>((session, static_plain, h_sign), re1).
     hs_try (hs_guard (length static_plain = kem_pk_len K + ka_signature_len K) InvalidEncoding) (\<lambda>_.
       let pk = take (kem_pk_len K) static_plain; sig = drop (kem_pk_len K) static_plain in
       hs_try (kem_validate_public K pk) (\<lambda>_.
       hs_try (ka_verify K pk h_sign sig) (\<lambda>_.
       hs_try (anchor RoleInitiator pk) (\<lambda>_. Good ((session, pk), re1))))))"

section \<open>Honest messages\<close>

lemma encryption_key_total: "hash_law L \<Longrightarrow> \<exists>key. encryption_key L s info = Good key \<and> length key = 16"
  using hkdf_expand_length [of L 16 "sy_ck s" info] by (auto simp: encryption_key_def)

lemma sym_split_total: "hash_law L \<Longrightarrow> \<exists>a b. sym_split L s = Good (a, b, sy_h s)"
  using hkdf_expand_length [of L 32 "sy_ck s" INFO_SPLIT] by (auto simp: sym_split_def)

lemma be_bytes_drop: "be_bytes 8 seq @ drop 8 (seal_with_seq L a seq aad m) = seal_with_seq L a seq aad m"
  by (metis append_take_drop_id take_sealed)

lemma open_seal_static: "gcm_law L \<Longrightarrow> open_static L a aad (seal_static L a aad pk) = Good (0, pk)"
  by (simp add: open_static_def seal_static_def be_bytes_drop open_sealed auth_to_peer_def)

lemma length_seal_static: "gcm_law L \<Longrightarrow> length (seal_static L a aad pk) = 16 + length pk"
  by (simp add: seal_static_def length_sealed)

text \<open>The first message: both sides have mixed in the same ephemeral key.\<close>

lemma msg1_agrees:
  assumes K: "kem_contract K" and new: "in_eph_sk i = None"
  shows "\<exists>e_sk e_pk r1. write_msg1 L K i r = Good ((e_pk, i\<lparr>in_ss := mix_hash L e_pk (in_ss i), in_eph_sk := Some e_sk\<rparr>), r1) \<and>
    kem_pair K e_sk e_pk \<and> length e_pk = kem_pk_len K \<and>
    read_msg1 L K re e_pk = Good (re\<lparr>re_ss := mix_hash L e_pk (re_ss re), re_peer_eph_pk := Some e_pk\<rparr>)"
proof -
  obtain e_sk e_pk r1 where kp: "kem_keypair K r = Good ((e_sk, e_pk), r1)" using kem_contractD(1) [OF K] by blast
  then have pair: "kem_pair K e_sk e_pk" unfolding kem_pair_def by blast
  with kp new kem_contractD(2) [OF K pair] kem_pair_length [OF K pair] show ?thesis
    by (intro exI [of _ e_sk] exI [of _ e_pk] exI [of _ r1]) (simp add: write_msg1_def read_msg1_def)
qed

text \<open>
  The second message. Both sides hold the same symmetric state before it, the initiator has the ephemeral secret key; then the
  initiator reads what the responder wrote, and holds the sealed static key of the responder, with the states
  equal but for the hash of that sealed key.
\<close>

lemma msg2_agrees:
  assumes L: "hash_law L" "gcm_law L" and K: "kem_contract K" and same: "in_ss i = re_ss re"
    and eph: "in_eph_sk i = Some e_sk" "re_peer_eph_pk re = Some e_pk" "kem_pair K e_sk e_pk"
  shows "\<exists>msg ss1 key enc f_sk f_pk ct_ee r1.
    write_msg2 L K re r = Good ((msg, re\<lparr>re_ss := mix_hash L enc ss1, re_eph_sk := Some f_sk\<rparr>), r1) \<and>
    read_msg2 L K i msg = Good (i\<lparr>in_ss := ss1, in_enc_peer_static := Some enc, in_peer_eph_pk := Some f_pk, in_peer_ct_ee := Some ct_ee\<rparr>) \<and>
    kem_pair K f_sk f_pk \<and> encryption_key L ss1 INFO_STATIC_ENC = Good key \<and> enc = seal_static L (aead_new key) (sy_h ss1) (re_static_pk re) \<and>
    length msg = kem_pk_len K + kem_ct_len K + 16 + length (re_static_pk re)"
proof -
  obtain f_sk f_pk r1 where kp: "kem_keypair K r = Good ((f_sk, f_pk), r1)" using kem_contractD(1) [OF K] by blast
  then have pair: "kem_pair K f_sk f_pk" unfolding kem_pair_def by blast
  obtain ct ss r2 where enc: "kem_encapsulate K e_pk r1 = Good ((ct, ss), r2)" "kem_decapsulate K e_sk ct = Good ss"
    using kem_contractD(6) [OF K eph(3)] by blast
  have len: "length f_pk = kem_pk_len K" "length ct = kem_ct_len K" using kem_pair_length [OF K pair] kem_contractD(7) [OF K enc(1)] .
  define ss1 where "ss1 = mix_key L ss (mix_hash L ct (mix_hash L f_pk (re_ss re)))"
  obtain key where key: "encryption_key L ss1 INFO_STATIC_ENC = Good key" using encryption_key_total [OF L(1)] by blast
  define sealed where "sealed = seal_static L (aead_new key) (sy_h ss1) (re_static_pk re)"
  have n: "length sealed = 16 + length (re_static_pk re)" by (simp add: sealed_def length_seal_static [OF L(2)])
  have w: "write_msg2 L K re r = Good ((f_pk @ ct @ sealed, re\<lparr>re_ss := mix_hash L sealed ss1, re_eph_sk := Some f_sk\<rparr>), r2)"
    using kp enc eph(2) key by (simp add: write_msg2_def ss1_def sealed_def Let_def)
  have rd: "read_msg2 L K i (f_pk @ ct @ sealed) =
      Good (i\<lparr>in_ss := ss1, in_enc_peer_static := Some sealed, in_peer_eph_pk := Some f_pk, in_peer_ct_ee := Some ct\<rparr>)"
    using len n kem_contractD(2) [OF K pair] enc(2) eph(1) same by (simp add: read_msg2_def ss1_def Let_def)
  show ?thesis
    using w rd pair key sealed_def len n
    by (intro exI [of _ "f_pk @ ct @ sealed"] exI [of _ ss1] exI [of _ key] exI [of _ sealed] exI [of _ f_sk] exI [of _ f_pk] exI [of _ ct] exI [of _ r2]) simp
qed

text \<open>
  The third message: the initiator learns the static key of the responder, the responder that of the initiator, and both have the
  same session with the directions crossed.
\<close>

definition crossed :: "session \<Rightarrow> session \<Rightarrow> bool" where
  "crossed a b \<longleftrightarrow> (\<exists>k k'. a = session_new k k' (se_id b) \<and> b = session_new k' k (se_id a))"

lemma msg3_agrees:
  assumes L: "hash_law L" "gcm_law L" and K: "kem_contract K" "auth_contract K"
    and re: "re_ss re = mix_hash L enc (in_ss i)" "re_eph_sk re = Some f_sk" "kem_pair K f_sk f_pk" "kem_pair K (re_static_sk re) spk"
    and i: "in_enc_peer_static i = Some enc" "in_peer_eph_pk i = Some f_pk" "in_static_sk i = Some csk" "kem_pair K csk (in_static_pk i)"
    and key: "encryption_key L (in_ss i) INFO_STATIC_ENC = Good key" "enc = seal_static L (aead_new key) (sy_h (in_ss i)) spk"
    and trust: "anchor_c RoleResponder spk = Good ()" "anchor_s RoleInitiator (in_static_pk i) = Good ()"
  shows "\<exists>msg sc ss i' re' r1. write_msg3_with_auth L K i r rs anchor_c = Good ((msg, sc, i'), r1) \<and> in_peer_static i' = Some spk \<and>
    read_msg3_with_auth L K re msg anchor_s = Good ((ss, in_static_pk i), re') \<and> crossed sc ss \<and>
    length msg = 2 * kem_ct_len K + 16 + kem_pk_len K + ka_signature_len K"
proof -
  note c = kem_contractD [OF K(1)]
  let ?cpk = "in_static_pk i"
  have opened: "open_static L (aead_new key) (sy_h (in_ss i)) enc = Good (0, spk)" unfolding key(2) by (rule open_seal_static [OF L(2)])
  obtain ct1 s1 r1 where e1: "kem_encapsulate K f_pk r = Good ((ct1, s1), r1)" "kem_decapsulate K f_sk ct1 = Good s1" using c(6) [OF re(3)] by blast
  obtain ct2 s2 r2 where e2: "kem_encapsulate K spk r1 = Good ((ct2, s2), r2)" "kem_decapsulate K (re_static_sk re) ct2 = Good s2" using c(6) [OF re(4)] by blast
  have len: "length ct1 = kem_ct_len K" "length ct2 = kem_ct_len K" using c(7) [OF e1(1)] c(7) [OF e2(1)] .
  define ss2 where "ss2 = mix_hash L ct2 (mix_hash L ct1 (mix_key L (s1 @ s2) (mix_hash L enc (in_ss i))))"
  obtain sig where sig: "ka_sign K csk (sy_h ss2) rs = Good sig" "length sig = ka_signature_len K" "ka_verify K ?cpk (sy_h ss2) sig = Good ()"
    using auth_contractD(1) [OF K(2) i(4)] by blast
  obtain key3 where key3: "encryption_key L ss2 INFO_STATIC_ENC = Good key3" using encryption_key_total [OF L(1)] by blast
  define sealed where "sealed = seal_static L (aead_new key3) (sy_h ss2) (?cpk @ sig)"
  have n: "length sealed = 16 + (length ?cpk + length sig)" by (simp add: sealed_def length_seal_static [OF L(2)])
  have opened3: "open_static L (aead_new key3) (sy_h ss2) sealed = Good (0, ?cpk @ sig)" unfolding sealed_def by (rule open_seal_static [OF L(2)])
  obtain k k' where sp: "sym_split L (mix_hash L sealed ss2) = Good (k, k', sy_h (mix_hash L sealed ss2))" using sym_split_total [OF L(1)] by blast
  have cpk: "length ?cpk = kem_pk_len K" "kem_validate_public K ?cpk = Good ()" using kem_pair_length [OF K(1) i(4)] c(2) [OF i(4)] .
  let ?id = "sy_h (mix_hash L sealed ss2)"
  define i' where "i' = i\<lparr>in_static_sk := None, in_ss := mix_hash L sealed ss2, in_enc_peer_static := None, in_peer_eph_pk := None, in_peer_static := Some spk\<rparr>"
  have w: "write_msg3_with_auth L K i r rs anchor_c = Good ((ct1 @ ct2 @ sealed, session_new k k' ?id, i'), r2)"
    using i key(1) opened c(2) [OF re(4)] trust(1) e1(1) e2(1) sig(1) key3 sp
    by (simp add: write_msg3_with_auth_def write_msg3_inner_def Let_def i'_def sealed_def [symmetric] ss2_def [symmetric])
  have p: "in_peer_static i' = Some spk" by (simp add: i'_def)
  let ?re = "re\<lparr>re_ss := mix_hash L sealed ss2, re_eph_sk := None, re_done := Some (k', k, ?id)\<rparr>"
  have rd: "read_msg3_inner L K re (ct1 @ ct2 @ sealed) = Good ((session_new k' k ?id, ?cpk @ sig, sy_h ss2), ?re)"
    using len n re(1,2) e1(2) e2(2) key3 opened3 sp by (simp add: read_msg3_inner_def Let_def ss2_def [symmetric])
  then have rd': "read_msg3_with_auth L K re (ct1 @ ct2 @ sealed) anchor_s = Good ((session_new k' k ?id, ?cpk), ?re)"
    using cpk sig(2,3) trust(2) by (simp add: read_msg3_with_auth_def)
  have x: "crossed (session_new k k' ?id) (session_new k' k ?id)" by (auto simp: crossed_def session_new_def)
  show ?thesis using w p rd' x len n cpk(1) sig(2)
    by (intro exI [of _ "ct1 @ ct2 @ sealed"] exI [of _ "session_new k k' ?id"] exI [of _ "session_new k' k ?id"] exI [of _ i'] exI [of _ ?re] exI [of _ r2]) simp
qed

end
