(* ===== verification/Gm_Resume.thy ===== *)
theory Gm_Resume
  imports Gm_Session
begin

unbundle bit_operations_syntax

text \<open>
  What the server checks before it spends work on a client
  (\<^verbatim>\<open>crates/gm-pq-stack/src/handshake/{cookie,psk}.rs\<close>): the stateless cookie, the encrypted tickets and the
  cache of redeemed tickets. The clock, in seconds, is an argument.
\<close>

section \<open>Cookies\<close>

definition COOKIE_LEN :: nat where "COOKIE_LEN = 40"

definition HMAC_KEY_LABEL :: bytes where "HMAC_KEY_LABEL = ascii ''gm-pq-stack/cookie/v1''"

record cookie_issuer =
  ci_secret :: bytes
  ci_ttl_secs :: u64

definition cookie_mac :: "'sk smx_lib \<Rightarrow> cookie_issuer \<Rightarrow> u64 \<Rightarrow> bytes \<Rightarrow> bytes \<Rightarrow> bytes" where
  "cookie_mac L ci ts client_tag e_pk =
     smx_hmac_sm3 L (sm3 L [HMAC_KEY_LABEL, ci_secret ci]) (concat [be_bytes 8 ts, client_tag, e_pk])"

definition cookie_issue :: "'sk smx_lib \<Rightarrow> cookie_issuer \<Rightarrow> u64 \<Rightarrow> bytes \<Rightarrow> bytes \<Rightarrow> bytes" where
  "cookie_issue L ci now client_tag e_pk = be_bytes 8 now @ cookie_mac L ci now client_tag e_pk"

text \<open>The comparison accumulates the differences of all bytes.\<close>

definition bytes_diff :: "bytes \<Rightarrow> bytes \<Rightarrow> u8" where
  "bytes_diff xs ys = fold (\<lambda>(a, b) diff. diff OR (a XOR b)) (zip xs ys) 0"

definition cookie_verify :: "'sk smx_lib \<Rightarrow> cookie_issuer \<Rightarrow> u64 \<Rightarrow> bytes \<Rightarrow> bytes \<Rightarrow> bytes \<Rightarrow> unit hs" where
  "cookie_verify L ci now client_tag e_pk cookie =
     hs_try (hs_guard (length cookie = COOKIE_LEN) InvalidEncoding) (\<lambda>_.
       let ts = be_val (take 8 cookie) in
       hs_try (hs_guard (\<not> (unat ts > unat now + 5 \<or> unat now - unat ts > unat (ci_ttl_secs ci))) HandshakeState) (\<lambda>_.
       hs_guard (bytes_diff (cookie_mac L ci ts client_tag e_pk) (drop 8 cookie) = 0) HandshakeState))"

lemma bytes_diff_acc: "fold (\<lambda>(a, b) diff. diff OR (a XOR b)) zs d = 0 \<longleftrightarrow> d = 0 \<and> (\<forall>(a, b) \<in> set zs. a = (b :: u8))"
proof (induction zs arbitrary: d)
  case (Cons z zs)
  obtain a b where z: "z = (a, b)" by fastforce
  have "d OR (a XOR b) = 0 \<longleftrightarrow> d = 0 \<and> a = b"
    unfolding bit_eq_iff bit_or_iff bit_xor_iff by auto
  with Cons.IH z show ?case by auto
qed simp

lemma bytes_diff_eq: "length xs = length ys \<Longrightarrow> bytes_diff xs ys = 0 \<longleftrightarrow> xs = ys"
  unfolding bytes_diff_def bytes_diff_acc by (induction xs ys rule: list_induct2) auto

text \<open>A cookie passes exactly when it is fresh and its second part is the code of its time stamp.\<close>

lemma cookie_verify_iff:
  assumes "hash_law L"
  shows "cookie_verify L ci now client_tag e_pk cookie = Good () \<longleftrightarrow>
    (\<exists>ts. cookie = be_bytes 8 ts @ cookie_mac L ci ts client_tag e_pk \<and> unat ts \<le> unat now + 5 \<and> unat now \<le> unat ts + unat (ci_ttl_secs ci))"
proof -
  have mac: "length (cookie_mac L ci ts client_tag e_pk) = 32" for ts by (simp add: cookie_mac_def hash_lawD [OF assms])
  have ts: "be_val (take 8 (be_bytes 8 ts @ cookie_mac L ci ts client_tag e_pk)) = ts" for ts :: u64 by (simp add: be_val_bytes)
  have split: "cookie = be_bytes 8 (be_val (take 8 cookie) :: u64) @ drop 8 cookie" if "length cookie = 40"
    using that be_bytes_be_val [of "take 8 cookie" 8, where 'a = 64] by simp
  show ?thesis
  proof
    assume v: "cookie_verify L ci now client_tag e_pk cookie = Good ()"
    let ?ts = "be_val (take 8 cookie) :: u64"
    from v have len: "length cookie = 40" and fresh: "\<not> (unat ?ts > unat now + 5 \<or> unat now - unat ?ts > unat (ci_ttl_secs ci))"
      and "bytes_diff (cookie_mac L ci ?ts client_tag e_pk) (drop 8 cookie) = 0"
      by (auto simp: cookie_verify_def COOKIE_LEN_def Let_def)
    then have "cookie_mac L ci ?ts client_tag e_pk = drop 8 cookie" using bytes_diff_eq mac by simp
    with split [OF len] fresh show "\<exists>ts. cookie = be_bytes 8 ts @ cookie_mac L ci ts client_tag e_pk \<and>
        unat ts \<le> unat now + 5 \<and> unat now \<le> unat ts + unat (ci_ttl_secs ci)" by (intro exI [of _ ?ts]) auto
  next
    assume "\<exists>ts. cookie = be_bytes 8 ts @ cookie_mac L ci ts client_tag e_pk \<and> unat ts \<le> unat now + 5 \<and> unat now \<le> unat ts + unat (ci_ttl_secs ci)"
    then show "cookie_verify L ci now client_tag e_pk cookie = Good ()"
      using mac ts bytes_diff_eq by (auto simp: cookie_verify_def COOKIE_LEN_def Let_def)
  qed
qed

section \<open>Tickets\<close>

definition TICKET_PLAIN_LEN :: nat where "TICKET_PLAIN_LEN = 1 + 32 + 16 + 8 + 32"

definition TICKET_LEN :: nat where "TICKET_LEN = 12 + TICKET_PLAIN_LEN + 16"

definition TICKET_KEY_INFO :: bytes where "TICKET_KEY_INFO = ascii ''ticket-key''"

definition TICKET_AAD :: bytes where "TICKET_AAD = ascii ''ticket''"

record ticket_payload =
  tk_psk :: bytes
  tk_ticket_id :: bytes
  tk_expires_at :: u64
  tk_fingerprint :: bytes

text \<open>An issuer is its key.\<close>

definition ticket_from_master :: "'sk smx_lib \<Rightarrow> bytes \<Rightarrow> bytes hs" where
  "ticket_from_master L master = hkdf_expand L (sm3 L [master]) TICKET_KEY_INFO 16"

definition ticket_new :: "'sk smx_lib \<Rightarrow> rng \<Rightarrow> bytes hs" where
  "ticket_new L r = ticket_from_master L (fst (fill_bytes 32 r))"

text \<open>The sum of the clock and the validity wraps, as it does in a release build.\<close>

definition ticket_issue :: "'sk smx_lib \<Rightarrow> bytes \<Rightarrow> u64 \<Rightarrow> rng \<Rightarrow> bytes \<Rightarrow> u64 \<Rightarrow> bytes \<times> bytes" where
  "ticket_issue L key now r client_static_pk ttl_secs =
     (case fill_bytes 32 r of (psk, r1) \<Rightarrow>
      case fill_bytes 16 r1 of (ticket_id, r2) \<Rightarrow>
      case fill_bytes 12 r2 of (nonce, r3) \<Rightarrow>
        let expires_at = now + ttl_secs; fp = sm3 L [client_static_pk];
            plain = [1] @ psk @ ticket_id @ be_bytes 8 expires_at @ fp
        in case smx_encrypt_gcm L key nonce TICKET_AAD plain of (ct, tag) \<Rightarrow> (nonce @ ct @ tag, psk))"

definition ticket_open :: "'sk smx_lib \<Rightarrow> bytes \<Rightarrow> u64 \<Rightarrow> bytes \<Rightarrow> ticket_payload hs" where
  "ticket_open L key now ticket =
     hs_try (hs_guard (length ticket = TICKET_LEN) InvalidEncoding) (\<lambda>_.
       let nonce = take 12 ticket; ct = take (length ticket - 16 - 12) (drop 12 ticket); tag = drop (length ticket - 16) ticket in
       hs_try (ok_or AuthFailed (smx_decrypt_gcm L key nonce TICKET_AAD ct tag)) (\<lambda>plain.
       hs_try (hs_guard (length plain = TICKET_PLAIN_LEN \<and> plain ! 0 = 1) InvalidEncoding) (\<lambda>_.
         let expires_at = be_val (take 8 (drop 49 plain)) in
         hs_try (hs_guard (\<not> now > expires_at) HandshakeState) (\<lambda>_.
         Good \<lparr>tk_psk = take 32 (drop 1 plain), tk_ticket_id = take 16 (drop 33 plain), tk_expires_at = expires_at,
               tk_fingerprint = take 32 (drop 57 plain)\<rparr>))))"

lemma ticket_round:
  assumes "smx_law L" and issue: "ticket_issue L key now r pk ttl = (ticket, psk)" and fresh: "now' \<le> now + ttl"
  shows "length psk = 32" "length ticket = TICKET_LEN"
    and "\<exists>p. ticket_open L key now' ticket = Good p \<and> tk_psk p = psk \<and> tk_expires_at p = now + ttl \<and> tk_fingerprint p = sm3 L [pk]"
proof -
  obtain r1 ticket_id r2 nonce r3 where f: "fill_bytes 32 r = (psk, r1)" "fill_bytes 16 r1 = (ticket_id, r2)" "fill_bytes 12 r2 = (nonce, r3)"
    using issue by (auto simp: ticket_issue_def Let_def split: prod.splits)
  have n: "length psk = 32" "length ticket_id = 16" "length nonce = 12"
    using f by (auto simp: fill_bytes_def)
  then show "length psk = 32" by simp
  let ?plain = "[1] @ psk @ ticket_id @ be_bytes 8 (now + ttl) @ sm3 L [pk]"
  have h: "length (sm3 L [pk]) = 32" using assms(1) by (simp add: smx_law_def)
  obtain ct tag where e: "smx_encrypt_gcm L key nonce TICKET_AAD ?plain = (ct, tag)" by fastforce
  have t: "ticket = nonce @ ct @ tag" using issue f e by (simp add: ticket_issue_def Let_def)
  have g: "length ct = 89" "length tag = 16" "smx_decrypt_gcm L key nonce TICKET_AAD ct tag = Some ?plain"
    using gcm_lawD [OF _ e] assms(1) n h by (simp_all add: smx_law_def)
  show "length ticket = TICKET_LEN" using t n g by (simp add: TICKET_LEN_def TICKET_PLAIN_LEN_def)
  have v: "be_val (be_bytes 8 (now + ttl)) = now + ttl" by (simp add: be_val_bytes)
  show "\<exists>p. ticket_open L key now' ticket = Good p \<and> tk_psk p = psk \<and> tk_expires_at p = now + ttl \<and> tk_fingerprint p = sm3 L [pk]"
    using t n g h v fresh by (simp add: ticket_open_def TICKET_LEN_def TICKET_PLAIN_LEN_def Let_def not_less)
qed

section \<open>Redeemed tickets\<close>

type_synonym ticket_cache = "(bytes, u64) hmap"

definition cache_gc :: "u64 \<Rightarrow> ticket_cache \<Rightarrow> ticket_cache" where
  "cache_gc now seen = filter (\<lambda>(_, exp). exp > now) seen"

definition check_and_insert :: "u64 \<Rightarrow> bytes \<Rightarrow> u64 \<Rightarrow> ticket_cache \<Rightarrow> unit hs \<times> ticket_cache" where
  "check_and_insert now ticket_id expires_at seen =
     (let seen1 = cache_gc now seen in
      if hm_get seen1 ticket_id \<noteq> None then (Bad Replay, seen1)
      else (Good (), hm_insert ticket_id expires_at seen1))"

text \<open>
  The cache as a filter: a state is the cache and the last reading of the clock, an event a reading of the clock and the ticket. A ticket
  counts as admitted when it is redeemed before its last second.
\<close>

definition ticket_admits :: "ticket_cache \<times> u64 \<Rightarrow> u64 \<times> bytes \<times> u64 \<Rightarrow> bool" where
  "ticket_admits = (\<lambda>(seen, last) (now, tid, exp). last \<le> now \<and> now < exp \<and> fst (check_and_insert now tid exp seen) = Good ())"

definition ticket_after :: "ticket_cache \<times> u64 \<Rightarrow> u64 \<times> bytes \<times> u64 \<Rightarrow> ticket_cache \<times> u64" where
  "ticket_after = (\<lambda>(seen, last) (now, tid, exp). (snd (check_and_insert now tid exp seen), max last now))"

definition ticket_spent :: "ticket_cache \<times> u64 \<Rightarrow> (bytes \<times> u64) set" where
  "ticket_spent = (\<lambda>(seen, last). {(tid, exp). exp \<le> last \<or> (tid, exp) \<in> set seen})"

interpretation tk: one_shot ticket_admits ticket_after snd ticket_spent
proof
  fix s :: "ticket_cache \<times> u64" and e :: "u64 \<times> bytes \<times> u64"
  obtain seen last now tid exp where s: "s = (seen, last)" "e = (now, tid, exp)" by (metis surj_pair)
  have new: "set (hm_insert tid exp m) = insert (tid, exp) (set m)" if "hm_get m tid = None" for m :: ticket_cache
    using that by (induction m) (auto split: if_splits)
  show "snd e \<notin> ticket_spent s" if "ticket_admits s e"
    using that s by (auto simp: ticket_admits_def ticket_spent_def check_and_insert_def cache_gc_def Let_def map_of_eq_None_iff image_iff split: if_splits)
  show "snd e \<in> ticket_spent (ticket_after s e)" if "ticket_admits s e"
    using that s new by (auto simp: ticket_admits_def ticket_spent_def ticket_after_def check_and_insert_def Let_def split: if_splits)
  show "ticket_spent s \<subseteq> ticket_spent (ticket_after s e)"
    using s new by (auto simp: ticket_spent_def ticket_after_def check_and_insert_def cache_gc_def Let_def not_less max_def)
qed

section \<open>Properties\<close>

text \<open>Tickets presented one after the other, each with the reading of the clock at that time; whether each was let through.\<close>

fun redeem_all :: "ticket_cache \<Rightarrow> (u64 \<times> bytes \<times> u64) list \<Rightarrow> bool list" where
  "redeem_all seen [] = []"
| "redeem_all seen ((now, tid, exp) # es) = (case check_and_insert now tid exp seen of (r, seen1) \<Rightarrow> (r = Good ()) # redeem_all seen1 es)"

lemma redeemed_admitted:
  "sorted (t0 # map fst es) \<Longrightarrow>
     map fst (filter (\<lambda>((now, tid, exp), ok). ok \<and> now < exp) (zip es (redeem_all seen es))) = tk.admitted (seen, t0) es"
proof (induction es arbitrary: seen t0)
  case (Cons e es)
  obtain now tid exp where e: "e = (now, tid, exp)" by (cases e)
  obtain r seen1 where c: "check_and_insert now tid exp seen = (r, seen1)" by fastforce
  have "sorted (now # map fst es)" "t0 \<le> now" using Cons.prems e by auto
  moreover from this have "ticket_admits (seen, t0) e \<longleftrightarrow> r = Good () \<and> now < exp" "ticket_after (seen, t0) e = (seen1, now)"
    using e c by (auto simp: ticket_admits_def ticket_after_def)
  ultimately show ?case using Cons.IH [of now seen1] e c by simp
qed simp

lemma last_second: "redeem_all seen (replicate n (t, tid, t)) = replicate n True" if "hm_get (cache_gc t seen) tid = None"
  using that
proof (induction n arbitrary: seen)
  case (Suc n)
  have "cache_gc t (hm_insert tid t m) = m" if "hm_get m tid = None" "\<forall>x \<in> set m. snd x > t" for m
    using that by (induction m) (auto simp: cache_gc_def split: if_splits)
  moreover have "\<forall>x \<in> set (cache_gc t seen). snd x > t" by (auto simp: cache_gc_def)
  ultimately have "cache_gc t (hm_insert tid t (cache_gc t seen)) = cache_gc t seen" using Suc.prems by blast
  with Suc.prems Suc.IH [of "hm_insert tid t (cache_gc t seen)"] show ?case by (simp add: check_and_insert_def Let_def)
qed simp

text \<open>
  C27. A ticket is redeemed once, except in its last second. While the clock does not go back, no ticket is let through twice
  before the second in which it expires, whatever is presented in between. In that second the ticket still opens, but its entry is purged
  before it is looked up: it is let through as often as it is presented.
\<close>

theorem tickets_redeemed_once_until_last_second:
  assumes "smx_law L" and "ticket_issue L key now r pk ttl = (ticket, psk)" and "sorted (map fst es)"
  shows "distinct (map snd (map fst (filter (\<lambda>((now, tid, exp), ok). ok \<and> now < exp) (zip es (redeem_all [] es))))) \<and>
    (\<exists>p. ticket_open L key (now + ttl) ticket = Good p \<and>
      redeem_all [] (replicate n (now + ttl, tk_ticket_id p, tk_expires_at p)) = replicate n True)"
proof -
  have "sorted (0 # map fst es)" using assms(3) by simp
  from redeemed_admitted [OF this] tk.admitted_once have "distinct (map snd (map fst (filter (\<lambda>((now, tid, exp), ok). ok \<and> now < exp) (zip es (redeem_all [] es)))))"
    by simp
  moreover from ticket_round(3) [OF assms(1,2) order_refl] obtain p where p: "ticket_open L key (now + ttl) ticket = Good p" "tk_expires_at p = now + ttl" by blast
  moreover have "redeem_all [] (replicate n (now + ttl, tk_ticket_id p, tk_expires_at p)) = replicate n True"
    unfolding p(2) by (rule last_second) (simp add: cache_gc_def)
  ultimately show ?thesis by blast
qed

definition demo_redemptions :: "(u64 \<times> bytes \<times> u64) list" where
  "demo_redemptions = [(10, [1], 20), (12, [2], 20), (15, [1], 20)]"

theorem tickets_redeemed_once_until_last_second_witness:
  "redeem_all [] demo_redemptions = [True, True, False] \<and> sorted (map fst demo_redemptions) \<and>
   distinct (map snd (map fst (filter (\<lambda>((now, tid, exp), ok). ok \<and> now < exp) (zip demo_redemptions (redeem_all [] demo_redemptions))))) \<and>
   (\<exists>p. ticket_open demo_smx (replicate 16 5) (1000 + 60) (fst (ticket_issue demo_smx (replicate 16 5) 1000 (\<lambda>_. 3) [7] 60)) = Good p \<and>
     redeem_all [] (replicate 3 (1000 + 60, tk_ticket_id p, tk_expires_at p)) = replicate 3 True)"
proof -
  obtain ticket psk where i: "ticket_issue demo_smx (replicate 16 5) 1000 (\<lambda>_. 3) [7] 60 = (ticket, psk)" by fastforce
  have s: "sorted (map fst demo_redemptions)" by (simp add: demo_redemptions_def)
  have r: "redeem_all [] demo_redemptions = [True, True, False]" by (simp add: demo_redemptions_def check_and_insert_def cache_gc_def)
  from tickets_redeemed_once_until_last_second [OF demo_smx_law i s, of 3] show ?thesis unfolding i fst_conv using r s by blast
qed

end
