(* ===== verification/Gm_Api.thy ===== *)
theory Gm_Api
  imports Gm_Handshake Gm_Resume
begin

text \<open>
  The connection functions (\<^verbatim>\<open>crates/gm-pq-stack/src/api.rs\<close>) as programs over a byte stream: what they write, what they
  wait to read, the randomness they draw, the clock they read and the tickets they redeem are explicit, and the code
  between two of these is a pure function. A program can be run alone on any input, or against its peer.
\<close>

section \<open>Programs\<close>

text \<open>
  A failing read or write ends a function with an error at every place it can occur, so it is left to whoever runs the program.
  \<open>Redeem\<close> is \<open>check_and_insert\<close> on the cache all connections share.
\<close>

datatype 'r prog =
    Return 'r
  | Fail hs_error
  | Abort
  | Write bytes "'r prog"
  | Read nat "bytes \<Rightarrow> 'r prog"
  | Draw "rng \<Rightarrow> 'r prog"
  | Now "u64 \<Rightarrow> 'r prog"
  | Redeem bytes u64 "bool \<Rightarrow> 'r prog"

primrec andthen :: "'a prog \<Rightarrow> ('a \<Rightarrow> 'b prog) \<Rightarrow> 'b prog" where
  "andthen (Return x) f = f x"
| "andthen (Fail e) f = Fail e"
| "andthen Abort f = Abort"
| "andthen (Write bs p) f = Write bs (andthen p f)"
| "andthen (Read n k) f = Read n (\<lambda>b. andthen (k b) f)"
| "andthen (Draw k) f = Draw (\<lambda>r. andthen (k r) f)"
| "andthen (Now k) f = Now (\<lambda>t. andthen (k t) f)"
| "andthen (Redeem i e k) f = Redeem i e (\<lambda>b. andthen (k b) f)"

fun lift_hs :: "'a hs \<Rightarrow> 'a prog" where
  "lift_hs (Good x) = Return x"
| "lift_hs (Bad e) = Fail e"
| "lift_hs Panics = Abort"

section \<open>Frames\<close>

definition T_MSG1 :: u8 where "T_MSG1 = 1"
definition T_COOKIE :: u8 where "T_COOKIE = 2"
definition T_MSG1_RETRY :: u8 where "T_MSG1_RETRY = 3"
definition T_MSG2 :: u8 where "T_MSG2 = 4"
definition T_MSG3 :: u8 where "T_MSG3 = 5"
definition T_MSG1_PSK :: u8 where "T_MSG1_PSK = 6"
definition T_PSK_REJECT :: u8 where "T_PSK_REJECT = 7"

definition TICKET_PUSH_PREFIX :: bytes where "TICKET_PUSH_PREFIX = ascii ''TKT1''"

definition MAX_FRAME :: nat where "MAX_FRAME = 1048576"

definition write_frame :: "u8 \<Rightarrow> bytes \<Rightarrow> unit prog" where
  "write_frame ty payload =
     Write [ty] (Write (be_bytes 4 (of_nat (length payload) :: u32)) (Write payload (Return ())))"

definition read_frame :: "(u8 \<times> bytes) prog" where
  "read_frame =
     Read 5 (\<lambda>hdr.
       let n = unat (be_val (drop 1 hdr) :: u32) in
       if n > MAX_FRAME then Fail InvalidEncoding else Read n (\<lambda>buf. Return (hdr ! 0, buf)))"

definition expect_frame :: "u8 \<Rightarrow> bytes prog" where
  "expect_frame want =
     andthen read_frame (\<lambda>(got, payload). if got \<noteq> want then Fail HandshakeState else Return payload)"

section \<open>Session channel\<close>

record channel =
  ch_session :: session
  ch_peer_static :: bytes

definition send_msg :: "'k smx_lib \<Rightarrow> channel \<Rightarrow> bytes \<Rightarrow> channel prog" where
  "send_msg L ch data =
     andthen (lift_hs (session_send L (ch_session ch) data)) (\<lambda>(packet, s).
     Write (be_bytes 4 (of_nat (length packet) :: u32)) (Write packet (Return (ch\<lparr>ch_session := s\<rparr>))))"

definition recv_msg :: "'k smx_lib \<Rightarrow> channel \<Rightarrow> (bytes \<times> channel) prog" where
  "recv_msg L ch =
     Read 4 (\<lambda>hdr.
       let n = unat (be_val hdr :: u32) in
       if n > MAX_FRAME then Fail InvalidEncoding
       else Read n (\<lambda>buf. andthen (lift_hs (session_recv L (ch_session ch) buf)) (\<lambda>(pt, s). Return (pt, ch\<lparr>ch_session := s\<rparr>))))"

section \<open>Client\<close>

record client_outcome =
  co_channel :: channel
  co_resumption :: "(bytes \<times> bytes) option"
  co_resumed :: bool
  co_early_data_accepted :: bool

definition recv_ticket_push :: "'k smx_lib \<Rightarrow> channel \<Rightarrow> ((bytes \<times> bytes) option \<times> channel) prog" where
  "recv_ticket_push L ch =
     andthen (recv_msg L ch) (\<lambda>(msg, ch1).
       if take (length TICKET_PUSH_PREFIX) msg \<noteq> TICKET_PUSH_PREFIX then Fail HandshakeState
       else let body = drop (length TICKET_PUSH_PREFIX) msg in
         if length body < 2 + 32 then Fail InvalidEncoding
         else let tlen = unat (be_val (take 2 body) :: u16) in
           if length body \<noteq> 2 + tlen + 32 then Fail InvalidEncoding
           else Return (Some (take tlen (drop 2 body), drop (2 + tlen) body), ch1))"

definition client_channel :: "session \<Rightarrow> 'sk initiator \<Rightarrow> channel" where
  "client_channel session i = \<lparr>ch_session = session, ch_peer_static = (case in_peer_static i of None \<Rightarrow> [] | Some p \<Rightarrow> p)\<rparr>"

definition client_connect_full :: "'k smx_lib \<Rightarrow> 'sk auth_kem \<Rightarrow> 'sk \<Rightarrow> bytes \<Rightarrow> trust_anchor \<Rightarrow> client_outcome prog" where
  "client_connect_full L K static_sk static_pk anchor =
     Draw (\<lambda>rng.
     andthen (lift_hs (write_msg1 L K (initiator_new L K static_sk static_pk) rng)) (\<lambda>((e_pk, init), rng).
     andthen (write_frame T_MSG1 e_pk) (\<lambda>_.
     andthen (expect_frame T_COOKIE) (\<lambda>cookie.
     andthen (write_frame T_MSG1_RETRY (cookie @ e_pk)) (\<lambda>_.
     andthen (expect_frame T_MSG2) (\<lambda>m2.
     andthen (lift_hs (read_msg2 L K init m2)) (\<lambda>init.
     Draw (\<lambda>rs.
     andthen (lift_hs (write_msg3_with_auth L K init rng rs anchor)) (\<lambda>((m3, session, init), rng).
     andthen (write_frame T_MSG3 m3) (\<lambda>_.
     andthen (recv_ticket_push L (client_channel session init)) (\<lambda>(resumption, channel).
     Return \<lparr>co_channel = channel, co_resumption = resumption, co_resumed = False, co_early_data_accepted = False\<rparr>)))))))))))"

definition client_connect_resume :: "'k smx_lib \<Rightarrow> 'sk auth_kem \<Rightarrow> 'sk \<Rightarrow> bytes \<Rightarrow> trust_anchor \<Rightarrow> bytes \<Rightarrow> bytes \<Rightarrow> bytes option \<Rightarrow>
    client_outcome prog" where
  "client_connect_resume L K static_sk static_pk anchor ticket psk early_data =
     Draw (\<lambda>rng.
     andthen (lift_hs (write_msg1 L K (initiator_new_with_psk L K static_sk static_pk psk) rng)) (\<lambda>((e_pk, init), rng).
     andthen (case early_data of None \<Rightarrow> Return [] | Some ed \<Rightarrow> lift_hs (seal_early_data L init ed)) (\<lambda>sealed.
     andthen (write_frame T_MSG1_PSK (ticket @ e_pk @ sealed)) (\<lambda>_.
     andthen read_frame (\<lambda>(ty, m2_raw).
       if ty = T_PSK_REJECT then
         andthen (lift_hs (into_static_keys init)) (\<lambda>(sk, pk). client_connect_full L K sk pk anchor)
       else if ty = T_MSG2 then
         (case m2_raw of
            [] \<Rightarrow> Fail InvalidEncoding
          | accepted # m2 \<Rightarrow>
              andthen (lift_hs (read_msg2 L K init m2)) (\<lambda>init.
              Draw (\<lambda>rs.
              andthen (lift_hs (write_msg3_with_auth L K init rng rs anchor)) (\<lambda>((m3, session, init), rng).
              andthen (write_frame T_MSG3 m3) (\<lambda>_.
              andthen (recv_ticket_push L (client_channel session init)) (\<lambda>(resumption, channel).
              Return \<lparr>co_channel = channel, co_resumption = resumption, co_resumed = True, co_early_data_accepted = (accepted = 1)\<rparr>))))))
       else Fail HandshakeState)))))"

section \<open>Server\<close>

text \<open>The cache of tickets is not part of the record: it is reached by \<^const>\<open>Redeem\<close>.\<close>

record server_config =
  cfg_cookie :: cookie_issuer
  cfg_tickets :: bytes
  cfg_anchor :: trust_anchor
  cfg_client_tag :: bytes
  cfg_ticket_ttl_secs :: u64

record server_outcome =
  so_channel :: channel
  so_early_data :: "bytes option"
  so_resumed :: bool

definition finish_server :: "'k smx_lib \<Rightarrow> server_config \<Rightarrow> session \<Rightarrow> bytes \<Rightarrow> channel prog" where
  "finish_server L cfg session client_pk =
     Draw (\<lambda>r. Now (\<lambda>now.
       case ticket_issue L (cfg_tickets cfg) now r client_pk (cfg_ticket_ttl_secs cfg) of (ticket, psk) \<Rightarrow>
       send_msg L \<lparr>ch_session = session, ch_peer_static = client_pk\<rparr>
         (TICKET_PUSH_PREFIX @ be_bytes 2 (of_nat (length ticket) :: u16) @ ticket @ psk)))"

definition cookie_roundtrip :: "'k smx_lib \<Rightarrow> server_config \<Rightarrow> bytes \<Rightarrow> bytes prog" where
  "cookie_roundtrip L cfg e_pk =
     andthen (expect_frame T_MSG1_RETRY) (\<lambda>retry.
       if length retry < COOKIE_LEN then Fail InvalidEncoding
       else let cookie_echo = take COOKIE_LEN retry; e_pk2 = drop COOKIE_LEN retry in
         if e_pk2 \<noteq> e_pk then Fail HandshakeState
         else Now (\<lambda>now. andthen (lift_hs (cookie_verify L (cfg_cookie cfg) now (cfg_client_tag cfg) e_pk cookie_echo)) (\<lambda>_. Return e_pk)))"

definition full_handshake :: "'k smx_lib \<Rightarrow> 'sk auth_kem \<Rightarrow> rng \<Rightarrow> 'sk \<Rightarrow> bytes \<Rightarrow> server_config \<Rightarrow> bytes \<Rightarrow> server_outcome prog" where
  "full_handshake L K rng static_sk static_pk cfg e_pk =
     andthen (lift_hs (read_msg1 L K (responder_new L K static_sk static_pk) e_pk)) (\<lambda>resp.
     andthen (lift_hs (write_msg2 L K resp rng)) (\<lambda>((m2, resp), rng).
     andthen (write_frame T_MSG2 m2) (\<lambda>_.
     andthen (expect_frame T_MSG3) (\<lambda>m3.
     andthen (lift_hs (read_msg3_with_auth L K resp m3 (cfg_anchor cfg))) (\<lambda>((session, client_pk), resp).
     andthen (finish_server L cfg session client_pk) (\<lambda>channel.
     Return \<lparr>so_channel = channel, so_early_data = None, so_resumed = False\<rparr>))))))"

text \<open>\<^term>\<open>None\<close> is the fall-back to a full handshake.\<close>

definition resume_with :: "'k smx_lib \<Rightarrow> 'sk auth_kem \<Rightarrow> rng \<Rightarrow> 'sk responder \<Rightarrow> server_config \<Rightarrow> ticket_payload \<Rightarrow> bytes option \<Rightarrow>
    server_outcome option prog" where
  "resume_with L K rng resp cfg payload early_data =
     andthen (lift_hs (write_msg2 L K resp rng)) (\<lambda>((m2, resp), rng).
     andthen (write_frame T_MSG2 ((if early_data \<noteq> None then 1 else 0) # m2)) (\<lambda>_.
     andthen (expect_frame T_MSG3) (\<lambda>m3.
     andthen (lift_hs (read_msg3_with_auth L K resp m3 (cfg_anchor cfg))) (\<lambda>((session, client_pk), resp).
       if sm3 L [client_pk] \<noteq> tk_fingerprint payload then Fail PeerAuth
       else andthen (finish_server L cfg session client_pk) (\<lambda>channel.
         Return (Some \<lparr>so_channel = channel, so_early_data = early_data, so_resumed = True\<rparr>))))))"

definition try_resume :: "'k smx_lib \<Rightarrow> 'sk auth_kem \<Rightarrow> rng \<Rightarrow> 'sk \<Rightarrow> bytes \<Rightarrow> server_config \<Rightarrow> bytes \<Rightarrow> server_outcome option prog" where
  "try_resume L K rng static_sk static_pk cfg payload =
     (if length payload < TICKET_LEN + kem_pk_len K then Return None
      else
        let ticket = take TICKET_LEN payload; rest = drop TICKET_LEN payload;
            e_pk = take (kem_pk_len K) rest; enc_early = drop (kem_pk_len K) rest in
        Now (\<lambda>now.
          case ticket_open L (cfg_tickets cfg) now ticket of
            Panics \<Rightarrow> Abort
          | Bad _ \<Rightarrow> Return None
          | Good p \<Rightarrow>
              Redeem (tk_ticket_id p) (tk_expires_at p) (\<lambda>first.
                if \<not> first then Return None
                else case read_msg1 L K (responder_new_with_psk L K static_sk static_pk (tk_psk p)) e_pk of
                  Panics \<Rightarrow> Abort
                | Bad _ \<Rightarrow> Return None
                | Good resp \<Rightarrow>
                    if enc_early = [] then resume_with L K rng resp cfg p None
                    else case open_early_data L resp enc_early of
                      Panics \<Rightarrow> Abort
                    | Bad _ \<Rightarrow> Return None
                    | Good ed \<Rightarrow> resume_with L K rng resp cfg p (Some ed))))"

definition challenge :: "'k smx_lib \<Rightarrow> 'sk auth_kem \<Rightarrow> rng \<Rightarrow> 'sk \<Rightarrow> bytes \<Rightarrow> server_config \<Rightarrow> bytes \<Rightarrow> server_outcome prog" where
  "challenge L K rng static_sk static_pk cfg e_pk =
     Now (\<lambda>now.
     andthen (write_frame T_COOKIE (cookie_issue L (cfg_cookie cfg) now (cfg_client_tag cfg) e_pk)) (\<lambda>_.
     andthen (cookie_roundtrip L cfg e_pk) (\<lambda>e_pk.
     full_handshake L K rng static_sk static_pk cfg e_pk)))"

definition server_accept :: "'k smx_lib \<Rightarrow> 'sk auth_kem \<Rightarrow> 'sk \<Rightarrow> bytes \<Rightarrow> server_config \<Rightarrow> server_outcome prog" where
  "server_accept L K static_sk static_pk cfg =
     Draw (\<lambda>rng.
     andthen read_frame (\<lambda>(ty, payload).
       if ty = T_MSG1 then challenge L K rng static_sk static_pk cfg payload
       else if ty = T_MSG1_PSK then
         andthen (try_resume L K rng static_sk static_pk cfg payload) (\<lambda>attempt.
           case attempt of
             Some out \<Rightarrow> Return out
           | None \<Rightarrow>
               andthen (write_frame T_PSK_REJECT []) (\<lambda>_.
               andthen (expect_frame T_MSG1) (\<lambda>e_pk. challenge L K rng static_sk static_pk cfg e_pk)))
       else Fail HandshakeState))"

section \<open>Running a program\<close>

text \<open>
  A host has the bytes that have arrived, a supply of randomness, the readings its clock will give, and the cache. A program runs
  until it ends or waits for more bytes; the last component is what it wrote.
\<close>

record host =
  ho_in :: bytes
  ho_rngs :: "nat \<Rightarrow> rng"
  ho_clock :: "nat \<Rightarrow> u64"
  ho_cache :: ticket_cache

datatype 'r phase = Done 'r | Failed hs_error | Crashed | Waiting "'r prog"

primrec advance :: "'r prog \<Rightarrow> host \<Rightarrow> 'r phase \<times> host \<times> bytes" where
  "advance (Return x) h = (Done x, h, [])"
| "advance (Fail e) h = (Failed e, h, [])"
| "advance Abort h = (Crashed, h, [])"
| "advance (Write bs p) h = (case advance p h of (ph, h', out) \<Rightarrow> (ph, h', bs @ out))"
| "advance (Read n k) h =
     (if n \<le> length (ho_in h) then advance (k (take n (ho_in h))) (h\<lparr>ho_in := drop n (ho_in h)\<rparr>) else (Waiting (Read n k), h, []))"
| "advance (Draw k) h = advance (k (ho_rngs h 0)) (h\<lparr>ho_rngs := (\<lambda>i. ho_rngs h (Suc i))\<rparr>)"
| "advance (Now k) h = advance (k (ho_clock h 0)) (h\<lparr>ho_clock := (\<lambda>i. ho_clock h (Suc i))\<rparr>)"
| "advance (Redeem tid ex k) h =
     advance (k (fst (check_and_insert (ho_clock h 0) tid ex (ho_cache h)) = Good ()))
       (h\<lparr>ho_cache := snd (check_and_insert (ho_clock h 0) tid ex (ho_cache h)), ho_clock := (\<lambda>i. ho_clock h (Suc i))\<rparr>)"

text \<open>Bytes arrive at an end of the connection, which then runs; and two ends taking turns.\<close>

fun turn :: "'r phase \<times> host \<Rightarrow> bytes \<Rightarrow> ('r phase \<times> host) \<times> bytes" where
  "turn (Waiting p, h) arrived = (case advance p (h\<lparr>ho_in := ho_in h @ arrived\<rparr>) of (ph, h', out) \<Rightarrow> ((ph, h'), out))"
| "turn (ph, h) arrived = ((ph, h\<lparr>ho_in := ho_in h @ arrived\<rparr>), [])"

fun converse :: "nat \<Rightarrow> 'a phase \<times> host \<Rightarrow> 'b phase \<times> host \<Rightarrow> bytes \<Rightarrow> ('a phase \<times> host) \<times> ('b phase \<times> host)" where
  "converse 0 a b arrived = (a, b)"
| "converse (Suc n) a b arrived = (case turn a arrived of (a', out) \<Rightarrow> case turn b out of (b', arrived') \<Rightarrow> converse n a' b' arrived')"

section \<open>Sequencing and frames\<close>

lemma advance_andthen:
  "advance (andthen p f) h =
     (case advance p h of
        (Done x, h', out) \<Rightarrow> (case advance (f x) h' of (ph, h'', out') \<Rightarrow> (ph, h'', out @ out'))
      | (Failed e, h', out) \<Rightarrow> (Failed e, h', out)
      | (Crashed, h', out) \<Rightarrow> (Crashed, h', out)
      | (Waiting q, h', out) \<Rightarrow> (Waiting (andthen q f), h', out))"
proof (induction p arbitrary: h)
  case (Write bs p)
  then show ?case by (simp split: prod.split phase.split)
qed (simp_all split: prod.split phase.split)

lemma andthen_assoc: "andthen (andthen p f) g = andthen p (\<lambda>x. andthen (f x) g)"
  by (induction p) simp_all

lemma andthen_Done: "advance p h = (Done x, h', out) \<Longrightarrow> advance (f x) h' = (ph, h'', out') \<Longrightarrow> advance (andthen p f) h = (ph, h'', out @ out')"
  by (simp add: advance_andthen)

definition frame_bytes :: "u8 \<Rightarrow> bytes \<Rightarrow> bytes" where
  "frame_bytes ty payload = ty # be_bytes 4 (of_nat (length payload) :: u32) @ payload"

lemma advance_write_frame [simp]: "advance (andthen (write_frame ty payload) f) h =
    (case advance (f ()) h of (ph, h', out) \<Rightarrow> (ph, h', frame_bytes ty payload @ out))"
  by (simp add: write_frame_def frame_bytes_def split: prod.split)

lemma unat_length_u32: "n \<le> MAX_FRAME \<Longrightarrow> unat (of_nat n :: u32) = n"
  by (rule unat_of_nat_u32) (simp add: MAX_FRAME_def)

lemma advance_read_frame [simp]:
  assumes "ho_in h = frame_bytes ty payload @ rest" "length payload \<le> MAX_FRAME"
  shows "advance (andthen read_frame f) h = advance (f (ty, payload)) (h\<lparr>ho_in := rest\<rparr>)"
proof -
  let ?len = "be_bytes 4 (of_nat (length payload) :: u32)"
  have n: "unat (be_val ?len :: u32) = length payload" using unat_length_u32 [OF assms(2)] by (simp add: be_val_bytes)
  have t: "take 5 (ho_in h) = ty # ?len" "drop 5 (ho_in h) = payload @ rest" using assms(1) by (simp_all add: frame_bytes_def numeral_eq_Suc)
  have "5 \<le> length (ho_in h)" using assms(1) by (simp add: frame_bytes_def)
  with t n assms(2) show ?thesis by (simp add: read_frame_def)
qed

lemma expect_frame_as: "andthen (expect_frame want) f = andthen read_frame (\<lambda>(got, payload). if got \<noteq> want then Fail HandshakeState else f payload)"
proof -
  have "(\<lambda>x. andthen (case x of (got, payload) \<Rightarrow> if got \<noteq> want then Fail HandshakeState else Return payload) f) =
      (\<lambda>(got, payload). if got \<noteq> want then Fail HandshakeState else f payload)" by (auto simp: fun_eq_iff)
  then show ?thesis unfolding expect_frame_def andthen_assoc by simp
qed

lemma advance_expect_frame:
  assumes "ho_in h = frame_bytes want payload @ rest" "length payload \<le> MAX_FRAME"
  shows "advance (andthen (expect_frame want) f) h = advance (f payload) (h\<lparr>ho_in := rest\<rparr>)"
  unfolding expect_frame_as by (subst advance_read_frame [OF assms]) simp

text \<open>With nothing to read the program waits where it is.\<close>

lemma advance_read_frame_wait: "ho_in h = [] \<Longrightarrow> advance (andthen read_frame f) h = (Waiting (andthen read_frame f), h, [])"
  by (simp add: read_frame_def)

lemma advance_expect_frame_wait: "ho_in h = [] \<Longrightarrow> advance (andthen (expect_frame want) f) h = (Waiting (andthen (expect_frame want) f), h, [])"
  by (simp add: expect_frame_as advance_read_frame_wait)

lemma host_in_same [simp]: "h\<lparr>ho_in := ho_in h\<rparr> = h"
  by simp

end
