(* ===== verification/Gm_Agreement.thy ===== *)
theory Gm_Agreement
  imports Gm_Api
begin

text \<open>
  The two programs of \<^verbatim>\<open>api.rs\<close> against each other and against anybody: a full handshake between a client and a server
  that trust each other ends at both, with the same session; and whatever bytes arrive, the server ends with a
  connection only after its checks.
\<close>

section \<open>Continuations of the client and the server\<close>

definition client_from_push :: "'k smx_lib \<Rightarrow> session \<Rightarrow> 'sk initiator \<Rightarrow> client_outcome prog" where
  "client_from_push L session init =
     andthen (recv_ticket_push L (client_channel session init)) (\<lambda>(resumption, channel).
     Return \<lparr>co_channel = channel, co_resumption = resumption, co_resumed = False, co_early_data_accepted = False\<rparr>)"

definition client_from_msg2 :: "'k smx_lib \<Rightarrow> 'sk auth_kem \<Rightarrow> trust_anchor \<Rightarrow> 'sk initiator \<Rightarrow> rng \<Rightarrow> bytes \<Rightarrow> client_outcome prog" where
  "client_from_msg2 L K anchor init rng m2 =
     andthen (lift_hs (read_msg2 L K init m2)) (\<lambda>init.
     Draw (\<lambda>rs.
     andthen (lift_hs (write_msg3_with_auth L K init rng rs anchor)) (\<lambda>((m3, session, init), rng).
     andthen (write_frame T_MSG3 m3) (\<lambda>_. client_from_push L session init))))"

definition client_from_cookie :: "'k smx_lib \<Rightarrow> 'sk auth_kem \<Rightarrow> trust_anchor \<Rightarrow> bytes \<Rightarrow> 'sk initiator \<Rightarrow> rng \<Rightarrow> bytes \<Rightarrow> client_outcome prog" where
  "client_from_cookie L K anchor e_pk init rng cookie =
     andthen (write_frame T_MSG1_RETRY (cookie @ e_pk)) (\<lambda>_. andthen (expect_frame T_MSG2) (client_from_msg2 L K anchor init rng))"

lemma client_connect_full_as:
  "client_connect_full L K static_sk static_pk anchor =
     Draw (\<lambda>rng.
     andthen (lift_hs (write_msg1 L K (initiator_new L K static_sk static_pk) rng)) (\<lambda>((e_pk, init), rng).
     andthen (write_frame T_MSG1 e_pk) (\<lambda>_. andthen (expect_frame T_COOKIE) (client_from_cookie L K anchor e_pk init rng))))"
  unfolding client_connect_full_def client_from_cookie_def client_from_msg2_def client_from_push_def by (rule refl)

definition server_from_msg3 :: "'k smx_lib \<Rightarrow> 'sk auth_kem \<Rightarrow> server_config \<Rightarrow> 'sk responder \<Rightarrow> bytes \<Rightarrow> server_outcome prog" where
  "server_from_msg3 L K cfg resp m3 =
     andthen (lift_hs (read_msg3_with_auth L K resp m3 (cfg_anchor cfg))) (\<lambda>((session, client_pk), resp).
     andthen (finish_server L cfg session client_pk) (\<lambda>channel.
     Return \<lparr>so_channel = channel, so_early_data = None, so_resumed = False\<rparr>))"

lemma full_handshake_as:
  "full_handshake L K rng static_sk static_pk cfg e_pk =
     andthen (lift_hs (read_msg1 L K (responder_new L K static_sk static_pk) e_pk)) (\<lambda>resp.
     andthen (lift_hs (write_msg2 L K resp rng)) (\<lambda>((m2, resp), rng).
     andthen (write_frame T_MSG2 m2) (\<lambda>_. andthen (expect_frame T_MSG3) (server_from_msg3 L K cfg resp))))"
  unfolding full_handshake_def server_from_msg3_def by (rule refl)

definition server_from_retry :: "'k smx_lib \<Rightarrow> 'sk auth_kem \<Rightarrow> rng \<Rightarrow> 'sk \<Rightarrow> bytes \<Rightarrow> server_config \<Rightarrow> bytes \<Rightarrow> bytes \<Rightarrow> server_outcome prog" where
  "server_from_retry L K rng static_sk static_pk cfg e_pk retry =
     (if length retry < COOKIE_LEN then Fail InvalidEncoding
      else if drop COOKIE_LEN retry \<noteq> e_pk then Fail HandshakeState
      else Now (\<lambda>now.
        andthen (lift_hs (cookie_verify L (cfg_cookie cfg) now (cfg_client_tag cfg) e_pk (take COOKIE_LEN retry))) (\<lambda>_.
        full_handshake L K rng static_sk static_pk cfg e_pk)))"

lemma challenge_as:
  "challenge L K rng static_sk static_pk cfg e_pk =
     Now (\<lambda>now.
     andthen (write_frame T_COOKIE (cookie_issue L (cfg_cookie cfg) now (cfg_client_tag cfg) e_pk)) (\<lambda>_.
     andthen (expect_frame T_MSG1_RETRY) (server_from_retry L K rng static_sk static_pk cfg e_pk)))"
proof -
  have "andthen (cookie_roundtrip L cfg e_pk) (\<lambda>e_pk. full_handshake L K rng static_sk static_pk cfg e_pk) =
      andthen (expect_frame T_MSG1_RETRY) (server_from_retry L K rng static_sk static_pk cfg e_pk)"
    unfolding cookie_roundtrip_def andthen_assoc server_from_retry_def
    by (rule arg_cong [of _ _ "andthen (expect_frame T_MSG1_RETRY)"]) (auto simp: fun_eq_iff andthen_assoc Let_def)
  then show ?thesis unfolding challenge_def by simp
qed

definition server_from_frame :: "'k smx_lib \<Rightarrow> 'sk auth_kem \<Rightarrow> rng \<Rightarrow> 'sk \<Rightarrow> bytes \<Rightarrow> server_config \<Rightarrow> u8 \<Rightarrow> bytes \<Rightarrow> server_outcome prog" where
  "server_from_frame L K rng static_sk static_pk cfg ty payload =
     (if ty = T_MSG1 then challenge L K rng static_sk static_pk cfg payload
      else if ty = T_MSG1_PSK then
        andthen (try_resume L K rng static_sk static_pk cfg payload) (\<lambda>attempt.
          case attempt of
            Some out \<Rightarrow> Return out
          | None \<Rightarrow>
              andthen (write_frame T_PSK_REJECT []) (\<lambda>_.
              andthen (expect_frame T_MSG1) (\<lambda>e_pk. challenge L K rng static_sk static_pk cfg e_pk)))
      else Fail HandshakeState)"

lemma server_accept_as:
  "server_accept L K static_sk static_pk cfg =
     Draw (\<lambda>rng. andthen read_frame (\<lambda>(ty, payload). server_from_frame L K rng static_sk static_pk cfg ty payload))"
  unfolding server_accept_def server_from_frame_def by (rule refl)

section \<open>One stage of a program\<close>

lemma client_stage1:
  assumes "write_msg1 L K (initiator_new L K sk pk) (ho_rngs h 0) = Good ((e_pk, init), r)" "ho_in h = []"
  shows "advance (client_connect_full L K sk pk anchor) h =
    (Waiting (andthen (expect_frame T_COOKIE) (client_from_cookie L K anchor e_pk init r)),
     h\<lparr>ho_rngs := (\<lambda>i. ho_rngs h (Suc i))\<rparr>, frame_bytes T_MSG1 e_pk)"
  using assms by (simp add: client_connect_full_as advance_expect_frame_wait)

lemma client_stage2:
  assumes "ho_in h = frame_bytes T_COOKIE cookie" "length cookie \<le> MAX_FRAME"
  shows "advance (andthen (expect_frame T_COOKIE) (client_from_cookie L K anchor e_pk init r)) h =
    (Waiting (andthen (expect_frame T_MSG2) (client_from_msg2 L K anchor init r)), h\<lparr>ho_in := []\<rparr>, frame_bytes T_MSG1_RETRY (cookie @ e_pk))"
  using assms by (simp add: advance_expect_frame [where rest = "[]"] client_from_cookie_def advance_expect_frame_wait)

lemma client_from_push_wait: "ho_in h = [] \<Longrightarrow> advance (client_from_push L s init) h = (Waiting (client_from_push L s init), h, [])"
  by (simp add: client_from_push_def recv_ticket_push_def recv_msg_def)

lemma client_stage3:
  assumes "ho_in h = frame_bytes T_MSG2 m2" "length m2 \<le> MAX_FRAME"
    and "read_msg2 L K init m2 = Good init1" "write_msg3_with_auth L K init1 r (ho_rngs h 0) anchor = Good ((m3, s, init2), r1)"
  shows "advance (andthen (expect_frame T_MSG2) (client_from_msg2 L K anchor init r)) h =
    (Waiting (client_from_push L s init2), h\<lparr>ho_in := [], ho_rngs := (\<lambda>i. ho_rngs h (Suc i))\<rparr>, frame_bytes T_MSG3 m3)"
  using assms by (simp add: advance_expect_frame [where rest = "[]"] client_from_msg2_def client_from_push_wait)

text \<open>The ticket push, as it is on the wire.\<close>

definition push_bytes :: "bytes \<Rightarrow> bytes \<Rightarrow> bytes" where
  "push_bytes ticket psk = TICKET_PUSH_PREFIX @ be_bytes 2 (of_nat (length ticket) :: u16) @ ticket @ psk"

definition packet_bytes :: "bytes \<Rightarrow> bytes" where
  "packet_bytes p = be_bytes 4 (of_nat (length p) :: u32) @ p"

lemma length_prefix [simp]: "length TICKET_PUSH_PREFIX = 4"
  by (simp add: TICKET_PUSH_PREFIX_def ascii_def)

lemma client_stage4:
  assumes "ho_in h = packet_bytes p" "length p \<le> MAX_FRAME" "session_recv L s p = Good (push_bytes ticket psk, s1)"
    and "length ticket = TICKET_LEN" "length psk = 32"
  shows "advance (client_from_push L s init) h =
    (Done \<lparr>co_channel = (client_channel s init)\<lparr>ch_session := s1\<rparr>, co_resumption = Some (ticket, psk), co_resumed = False, co_early_data_accepted = False\<rparr>,
     h\<lparr>ho_in := []\<rparr>, [])"
proof -
  have n: "unat (be_val (be_bytes 4 (of_nat (length p) :: u32)) :: u32) = length p" using unat_length_u32 [OF assms(2)] by (simp add: be_val_bytes)
  have t: "unat (be_val (be_bytes 2 (of_nat TICKET_LEN :: u16)) :: u16) = TICKET_LEN"
    by (simp add: be_val_bytes TICKET_LEN_def TICKET_PLAIN_LEN_def)
  have recv: "advance (recv_msg L (client_channel s init)) h =
      (Done (push_bytes ticket psk, (client_channel s init)\<lparr>ch_session := s1\<rparr>), h\<lparr>ho_in := []\<rparr>, [])"
    using assms(1-3) n by (simp add: recv_msg_def packet_bytes_def client_channel_def)
  have "advance (recv_ticket_push L (client_channel s init)) h =
      (Done (Some (ticket, psk), (client_channel s init)\<lparr>ch_session := s1\<rparr>), h\<lparr>ho_in := []\<rparr>, [])"
    using assms(4,5) t by (simp add: recv_ticket_push_def advance_andthen recv push_bytes_def Let_def)
  then show ?thesis by (simp add: client_from_push_def advance_andthen)
qed

lemma server_stage1:
  assumes "ho_in h = frame_bytes T_MSG1 e_pk" "length e_pk \<le> MAX_FRAME"
  shows "advance (server_accept L K sk pk cfg) h =
    (Waiting (andthen (expect_frame T_MSG1_RETRY) (server_from_retry L K (ho_rngs h 0) sk pk cfg e_pk)),
     h\<lparr>ho_in := [], ho_rngs := (\<lambda>i. ho_rngs h (Suc i)), ho_clock := (\<lambda>i. ho_clock h (Suc i))\<rparr>,
     frame_bytes T_COOKIE (cookie_issue L (cfg_cookie cfg) (ho_clock h 0) (cfg_client_tag cfg) e_pk))"
  using assms by (simp add: server_accept_def advance_read_frame [where rest = "[]"] challenge_as advance_expect_frame_wait)

lemma server_stage2:
  assumes "ho_in h = frame_bytes T_MSG1_RETRY (cookie @ e_pk)" "length cookie = COOKIE_LEN" "length (cookie @ e_pk) \<le> MAX_FRAME"
    and "cookie_verify L (cfg_cookie cfg) (ho_clock h 0) (cfg_client_tag cfg) e_pk cookie = Good ()"
    and "read_msg1 L K (responder_new L K sk pk) e_pk = Good resp" "write_msg2 L K resp r = Good ((m2, resp1), r1)"
  shows "advance (andthen (expect_frame T_MSG1_RETRY) (server_from_retry L K r sk pk cfg e_pk)) h =
    (Waiting (andthen (expect_frame T_MSG3) (server_from_msg3 L K cfg resp1)), h\<lparr>ho_in := [], ho_clock := (\<lambda>i. ho_clock h (Suc i))\<rparr>,
     frame_bytes T_MSG2 m2)"
  using assms by (simp add: advance_expect_frame [where rest = "[]"] server_from_retry_def full_handshake_as advance_expect_frame_wait)

lemma server_stage3:
  assumes "ho_in h = frame_bytes T_MSG3 m3" "length m3 \<le> MAX_FRAME"
    and "read_msg3_with_auth L K resp m3 (cfg_anchor cfg) = Good ((s, cpk), resp1)"
    and "ticket_issue L (cfg_tickets cfg) (ho_clock h 0) (ho_rngs h 0) cpk (cfg_ticket_ttl_secs cfg) = (ticket, psk)"
    and "session_send L s (push_bytes ticket psk) = Good (p, s1)"
  shows "advance (andthen (expect_frame T_MSG3) (server_from_msg3 L K cfg resp)) h =
    (Done \<lparr>so_channel = \<lparr>ch_session = s1, ch_peer_static = cpk\<rparr>, so_early_data = None, so_resumed = False\<rparr>,
     h\<lparr>ho_in := [], ho_rngs := (\<lambda>i. ho_rngs h (Suc i)), ho_clock := (\<lambda>i. ho_clock h (Suc i))\<rparr>, packet_bytes p)"
  using assms by (simp add: advance_expect_frame [where rest = "[]"] server_from_msg3_def finish_server_def send_msg_def push_bytes_def packet_bytes_def)

section \<open>A full handshake\<close>

lemma session_new_id: "se_id (session_new k k' sid) = sid" "ae_tx_seq (se_tx (session_new k k' sid)) = 0"
  by (simp_all add: session_new_def aead_new_def)

lemma crossed_first: "crossed a b \<Longrightarrow> ae_tx_seq (se_tx a) = 0 \<and> ae_tx_seq (se_tx b) = 0"
  unfolding crossed_def by (metis session_new_id(2))

lemma crossed_may_send: "crossed a b \<Longrightarrow> may_send a b \<and> may_send b a"
  unfolding crossed_def by (metis may_send_new session_new_id(1))

lemma quiet_host: "ho_in h = [] \<Longrightarrow> h\<lparr>ho_in := []\<rparr> = h"
  by (cases h) simp

lemma turn_advance: "advance p (h\<lparr>ho_in := ho_in h @ arrived\<rparr>) = (ph, h', out) \<Longrightarrow> turn (Waiting p, h) arrived = ((ph, h'), out)"
  by simp

lemma converse_turn: "turn a arrived = (a', out) \<Longrightarrow> turn b out = (b', arrived') \<Longrightarrow> converse (Suc n) a b arrived = converse n a' b' arrived'"
  by simp

text \<open>The messages of a handshake between two ends that trust each other, and the sessions they give.\<close>

lemma honest_messages:
  assumes L: "smx_law L" and K: "kem_contract K" "auth_contract K" and keys: "kem_pair K csk cpk" "kem_pair K ssk spk"
    and trust: "anchor_c RoleResponder spk = Good ()" "anchor_s RoleInitiator cpk = Good ()"
  shows "\<exists>e_pk init1 r1 resp1 m2 resp2 r2 init2 m3 sc init3 r3 ss resp3.
    write_msg1 L K (initiator_new L K csk cpk) rc = Good ((e_pk, init1), r1) \<and> length e_pk = kem_pk_len K \<and>
    read_msg1 L K (responder_new L K ssk spk) e_pk = Good resp1 \<and>
    write_msg2 L K resp1 rs = Good ((m2, resp2), r2) \<and> length m2 = 2 * kem_pk_len K + kem_ct_len K + 16 \<and> read_msg2 L K init1 m2 = Good init2 \<and>
    write_msg3_with_auth L K init2 r1 rg anchor_c = Good ((m3, sc, init3), r3) \<and> length m3 = 2 * kem_ct_len K + 16 + kem_pk_len K + ka_signature_len K \<and>
    in_peer_static init3 = Some spk \<and> read_msg3_with_auth L K resp2 m3 anchor_s = Good ((ss, cpk), resp3) \<and> crossed sc ss"
proof -
  have h: "hash_law L" "gcm_law L" using L by (simp_all add: smx_law_def)
  let ?i = "initiator_new L K csk cpk" and ?re = "responder_new L K ssk spk"
  have "in_eph_sk ?i = None" by (simp add: initiator_new_def)
  from msg1_agrees [OF K(1) this, of L rc ?re] obtain e_sk e_pk r1 where
    m1: "write_msg1 L K ?i rc = Good ((e_pk, ?i\<lparr>in_ss := mix_hash L e_pk (in_ss ?i), in_eph_sk := Some e_sk\<rparr>), r1)" "kem_pair K e_sk e_pk"
      "length e_pk = kem_pk_len K" "read_msg1 L K ?re e_pk = Good (?re\<lparr>re_ss := mix_hash L e_pk (re_ss ?re), re_peer_eph_pk := Some e_pk\<rparr>)" by blast
  define i1 where "i1 = ?i\<lparr>in_ss := mix_hash L e_pk (in_ss ?i), in_eph_sk := Some e_sk\<rparr>"
  define re1 where "re1 = ?re\<lparr>re_ss := mix_hash L e_pk (re_ss ?re), re_peer_eph_pk := Some e_pk\<rparr>"
  have s1: "in_ss i1 = re_ss re1" "in_eph_sk i1 = Some e_sk" "re_peer_eph_pk re1 = Some e_pk"
    "re_static_pk re1 = spk" "re_static_sk re1 = ssk" "in_static_sk i1 = Some csk" "in_static_pk i1 = cpk"
    by (simp_all add: i1_def re1_def initiator_new_def responder_new_def)
  from msg2_agrees [OF h K(1) s1(1-3) m1(2), of rs] obtain m2 ss1 key enc f_sk f_pk ct_ee r2 where
    m2: "write_msg2 L K re1 rs = Good ((m2, re1\<lparr>re_ss := mix_hash L enc ss1, re_eph_sk := Some f_sk\<rparr>), r2)"
      "read_msg2 L K i1 m2 = Good (i1\<lparr>in_ss := ss1, in_enc_peer_static := Some enc, in_peer_eph_pk := Some f_pk, in_peer_ct_ee := Some ct_ee\<rparr>)"
      "kem_pair K f_sk f_pk" "encryption_key L ss1 INFO_STATIC_ENC = Good key" "enc = seal_static L (aead_new key) (sy_h ss1) (re_static_pk re1)"
      "length m2 = kem_pk_len K + kem_ct_len K + 16 + length (re_static_pk re1)" by blast
  define i2 where "i2 = i1\<lparr>in_ss := ss1, in_enc_peer_static := Some enc, in_peer_eph_pk := Some f_pk, in_peer_ct_ee := Some ct_ee\<rparr>"
  define re2 where "re2 = re1\<lparr>re_ss := mix_hash L enc ss1, re_eph_sk := Some f_sk\<rparr>"
  have s2: "re_ss re2 = mix_hash L enc (in_ss i2)" "re_eph_sk re2 = Some f_sk" "re_static_sk re2 = ssk" "in_enc_peer_static i2 = Some enc"
    "in_peer_eph_pk i2 = Some f_pk" "in_static_sk i2 = Some csk" "in_static_pk i2 = cpk" "in_ss i2 = ss1"
    by (simp_all add: i2_def re2_def s1)
  have "\<exists>m3 sc ss i3 re3 r3. write_msg3_with_auth L K i2 r1 rg anchor_c = Good ((m3, sc, i3), r3) \<and> in_peer_static i3 = Some spk \<and>
      read_msg3_with_auth L K re2 m3 anchor_s = Good ((ss, in_static_pk i2), re3) \<and> crossed sc ss \<and>
      length m3 = 2 * kem_ct_len K + 16 + kem_pk_len K + ka_signature_len K"
    by (rule msg3_agrees [OF h K s2(1,2) m2(3) _ s2(4-6)]) (use keys s1 s2 m2(4,5) trust in simp_all)
  then obtain m3 sc ss i3 re3 r3 where "write_msg3_with_auth L K i2 r1 rg anchor_c = Good ((m3, sc, i3), r3)" "in_peer_static i3 = Some spk"
      "read_msg3_with_auth L K re2 m3 anchor_s = Good ((ss, cpk), re3)" "crossed sc ss"
      "length m3 = 2 * kem_ct_len K + 16 + kem_pk_len K + ka_signature_len K" unfolding s2(7) by blast
  with m1(1,3,4) m2(1,2,6) kem_pair_length [OF K(1) keys(2)] show ?thesis
    unfolding i1_def [symmetric] re1_def [symmetric] i2_def [symmetric] re2_def [symmetric]
    by (intro exI conjI; (assumption | simp add: s1))
qed

lemma TICKET_LEN_value: "TICKET_LEN = 117"
  by (simp add: TICKET_LEN_def TICKET_PLAIN_LEN_def)

lemma ticket_issued:
  assumes "smx_law L"
  obtains ticket psk where "ticket_issue L key now r pk ttl = (ticket, psk)" "length psk = 32" "length ticket = TICKET_LEN"
proof -
  obtain ticket psk where "ticket_issue L key now r pk ttl = (ticket, psk)" by fastforce
  with ticket_round(1,2) [OF assms this order_refl] that show thesis by blast
qed

lemma honest_cookie:
  assumes "hash_law L" "unat t0 \<le> unat t1 + 5" "unat t1 \<le> unat t0 + unat (ci_ttl_secs ci)"
  shows "cookie_verify L ci t1 tag e_pk (cookie_issue L ci t0 tag e_pk) = Good ()" "length (cookie_issue L ci t0 tag e_pk) = COOKIE_LEN"
  using assms by (auto simp: cookie_verify_iff cookie_issue_def cookie_mac_def hash_lawD COOKIE_LEN_def)

text \<open>Four turns, given what the operations answer.\<close>

lemma four_turns:
  assumes m1: "write_msg1 L K (initiator_new L K csk cpk) (ho_rngs hc 0) = Good ((e_pk, init1), r1)"
      "read_msg1 L K (responder_new L K ssk spk) e_pk = Good resp1"
    and m2: "write_msg2 L K resp1 (ho_rngs hs 0) = Good ((m2, resp2), r2)" "read_msg2 L K init1 m2 = Good init2"
    and m3: "write_msg3_with_auth L K init2 r1 (ho_rngs hc 1) anchor = Good ((m3, sc, init3), r3)" "in_peer_static init3 = Some spk"
      "read_msg3_with_auth L K resp2 m3 (cfg_anchor cfg) = Good ((ss, cpk), resp3)"
    and tkt: "ticket_issue L (cfg_tickets cfg) (ho_clock hs 2) (ho_rngs hs 1) cpk (cfg_ticket_ttl_secs cfg) = (ticket, psk)"
      "length psk = 32" "length ticket = TICKET_LEN"
    and p: "session_send L ss (push_bytes ticket psk) = Good (p, ss1)" "session_recv L sc p = Good (push_bytes ticket psk, sc1)"
    and cookie: "cookie = cookie_issue L (cfg_cookie cfg) (ho_clock hs 0) (cfg_client_tag cfg) e_pk" "length cookie = COOKIE_LEN"
      "cookie_verify L (cfg_cookie cfg) (ho_clock hs 1) (cfg_client_tag cfg) e_pk cookie = Good ()"
    and fit: "length (cookie @ e_pk) \<le> MAX_FRAME" "length m2 \<le> MAX_FRAME" "length m3 \<le> MAX_FRAME" "length p \<le> MAX_FRAME"
    and quiet: "ho_in hc = []" "ho_in hs = []"
  shows "\<exists>hc' hs'. converse 4 (Waiting (client_connect_full L K csk cpk anchor), hc) (Waiting (server_accept L K ssk spk cfg), hs) [] =
      ((Done \<lparr>co_channel = \<lparr>ch_session = sc1, ch_peer_static = spk\<rparr>, co_resumption = Some (ticket, psk), co_resumed = False, co_early_data_accepted = False\<rparr>, hc'),
       (Done \<lparr>so_channel = \<lparr>ch_session = ss1, ch_peer_static = cpk\<rparr>, so_early_data = None, so_resumed = False\<rparr>, hs'))"
proof -
  define hc1 where "hc1 = hc\<lparr>ho_rngs := (\<lambda>i. ho_rngs hc (Suc i))\<rparr>"
  define hc3 where "hc3 = hc1\<lparr>ho_rngs := (\<lambda>i. ho_rngs hc1 (Suc i))\<rparr>"
  define hs1 where "hs1 = hs\<lparr>ho_rngs := (\<lambda>i. ho_rngs hs (Suc i)), ho_clock := (\<lambda>i. ho_clock hs (Suc i))\<rparr>"
  define hs2 where "hs2 = hs1\<lparr>ho_clock := (\<lambda>i. ho_clock hs1 (Suc i))\<rparr>"
  define hs3 where "hs3 = hs2\<lparr>ho_rngs := (\<lambda>i. ho_rngs hs2 (Suc i)), ho_clock := (\<lambda>i. ho_clock hs2 (Suc i))\<rparr>"
  note hosts = hc1_def hc3_def hs1_def hs2_def hs3_def
  have e: "length e_pk \<le> MAX_FRAME" "length cookie \<le> MAX_FRAME" using fit(1) by simp_all
  have c1: "turn (Waiting (client_connect_full L K csk cpk anchor), hc) [] =
      ((Waiting (andthen (expect_frame T_COOKIE) (client_from_cookie L K anchor e_pk init1 r1)), hc1), frame_bytes T_MSG1 e_pk)"
    by (rule turn_advance) (use client_stage1 [OF m1(1) quiet(1)] quiet in \<open>simp add: hosts quiet_host\<close>)
  have s1: "turn (Waiting (server_accept L K ssk spk cfg), hs) (frame_bytes T_MSG1 e_pk) =
      ((Waiting (andthen (expect_frame T_MSG1_RETRY) (server_from_retry L K (ho_rngs hs 0) ssk spk cfg e_pk)), hs1), frame_bytes T_COOKIE cookie)"
    by (rule turn_advance) (use quiet e in \<open>simp add: server_stage1 cookie(1) hosts\<close>)
  have c2: "turn (Waiting (andthen (expect_frame T_COOKIE) (client_from_cookie L K anchor e_pk init1 r1)), hc1) (frame_bytes T_COOKIE cookie) =
      ((Waiting (andthen (expect_frame T_MSG2) (client_from_msg2 L K anchor init1 r1)), hc1), frame_bytes T_MSG1_RETRY (cookie @ e_pk))"
    by (rule turn_advance) (use quiet e in \<open>simp add: client_stage2 hosts\<close>)
  have s2: "turn (Waiting (andthen (expect_frame T_MSG1_RETRY) (server_from_retry L K (ho_rngs hs 0) ssk spk cfg e_pk)), hs1) (frame_bytes T_MSG1_RETRY (cookie @ e_pk)) =
      ((Waiting (andthen (expect_frame T_MSG3) (server_from_msg3 L K cfg resp2)), hs2), frame_bytes T_MSG2 m2)"
    by (rule turn_advance) (use quiet cookie(2,3) fit(1) m1(2) m2(1) in \<open>simp add: server_stage2 hosts\<close>)
  have c3: "turn (Waiting (andthen (expect_frame T_MSG2) (client_from_msg2 L K anchor init1 r1)), hc1) (frame_bytes T_MSG2 m2) =
      ((Waiting (client_from_push L sc init3), hc3), frame_bytes T_MSG3 m3)"
    by (rule turn_advance) (use quiet fit(2) m2(2) m3(1) in \<open>simp add: client_stage3 hosts\<close>)
  have s3: "turn (Waiting (andthen (expect_frame T_MSG3) (server_from_msg3 L K cfg resp2)), hs2) (frame_bytes T_MSG3 m3) =
      ((Done \<lparr>so_channel = \<lparr>ch_session = ss1, ch_peer_static = cpk\<rparr>, so_early_data = None, so_resumed = False\<rparr>, hs3), packet_bytes p)"
    by (rule turn_advance) (use quiet fit(3) m3(3) tkt(1) p(1) in \<open>simp add: server_stage3 hosts numeral_2_eq_2\<close>)
  have c4: "turn (Waiting (client_from_push L sc init3), hc3) (packet_bytes p) =
      ((Done \<lparr>co_channel = \<lparr>ch_session = sc1, ch_peer_static = spk\<rparr>, co_resumption = Some (ticket, psk), co_resumed = False, co_early_data_accepted = False\<rparr>, hc3), [])"
    by (rule turn_advance) (use quiet fit(4) m3(2) tkt(2,3) p(2) in \<open>simp add: client_stage4 client_channel_def hosts\<close>)
  have four: "(4 :: nat) = Suc (Suc (Suc (Suc 0)))" by simp
  show ?thesis unfolding four by (simp only: converse.simps c1 s1 c2 s2 c3 s3 c4 turn.simps(2) prod.case) blast
qed

lemma handshake_runs:
  assumes L: "smx_law L" and K: "kem_contract K" "auth_contract K"
    and small: "kem_pk_len K \<le> 4096" "kem_ct_len K \<le> 4096" "ka_signature_len K \<le> 4096"
    and keys: "kem_pair K csk cpk" "kem_pair K ssk spk"
    and trust: "anchor RoleResponder spk = Good ()" "cfg_anchor cfg RoleInitiator cpk = Good ()"
    and clock: "unat (ho_clock hs 0) \<le> unat (ho_clock hs 1) + 5" "unat (ho_clock hs 1) \<le> unat (ho_clock hs 0) + unat (ci_ttl_secs (cfg_cookie cfg))"
    and quiet: "ho_in hc = []" "ho_in hs = []"
  shows "\<exists>sc ss ticket psk hc' hs'.
    converse 4 (Waiting (client_connect_full L K csk cpk anchor), hc) (Waiting (server_accept L K ssk spk cfg), hs) [] =
      ((Done \<lparr>co_channel = \<lparr>ch_session = sc, ch_peer_static = spk\<rparr>, co_resumption = Some (ticket, psk), co_resumed = False, co_early_data_accepted = False\<rparr>, hc'),
       (Done \<lparr>so_channel = \<lparr>ch_session = ss, ch_peer_static = cpk\<rparr>, so_early_data = None, so_resumed = False\<rparr>, hs')) \<and>
    may_send sc ss \<and> may_send ss sc \<and> ae_tx_seq (se_tx sc) = 0 \<and> ae_tx_seq (se_tx ss) = 1 \<and>
    ticket_issue L (cfg_tickets cfg) (ho_clock hs 2) (ho_rngs hs 1) cpk (cfg_ticket_ttl_secs cfg) = (ticket, psk)"
proof -
  have h: "hash_law L" "gcm_law L" using L by (simp_all add: smx_law_def)
  obtain e_pk init1 r1 resp1 m2 resp2 r2 init2 m3 sc init3 r3 ss resp3 where
    m1: "write_msg1 L K (initiator_new L K csk cpk) (ho_rngs hc 0) = Good ((e_pk, init1), r1)" "length e_pk = kem_pk_len K"
      "read_msg1 L K (responder_new L K ssk spk) e_pk = Good resp1"
    and m2: "write_msg2 L K resp1 (ho_rngs hs 0) = Good ((m2, resp2), r2)" "length m2 = 2 * kem_pk_len K + kem_ct_len K + 16" "read_msg2 L K init1 m2 = Good init2"
    and m3: "write_msg3_with_auth L K init2 r1 (ho_rngs hc 1) anchor = Good ((m3, sc, init3), r3)" "length m3 = 2 * kem_ct_len K + 16 + kem_pk_len K + ka_signature_len K"
      "in_peer_static init3 = Some spk" "read_msg3_with_auth L K resp2 m3 (cfg_anchor cfg) = Good ((ss, cpk), resp3)" and x: "crossed sc ss"
    using honest_messages [where anchor_c = anchor and anchor_s = "cfg_anchor cfg" and rc = "ho_rngs hc 0" and rs = "ho_rngs hs 0" and rg = "ho_rngs hc 1", OF L K keys trust]
    by blast
  obtain ticket psk where tkt: "ticket_issue L (cfg_tickets cfg) (ho_clock hs 2) (ho_rngs hs 1) cpk (cfg_ticket_ttl_secs cfg) = (ticket, psk)"
      "length psk = 32" "length ticket = TICKET_LEN" by (rule ticket_issued [OF L])
  have seq: "ae_tx_seq (se_tx sc) = 0" "ae_tx_seq (se_tx ss) = 0" using crossed_first [OF x] by simp_all
  have ms: "may_send sc ss" "may_send ss sc" using crossed_may_send [OF x] by simp_all
  let ?ss = "ss\<lparr>se_tx := (se_tx ss)\<lparr>ae_tx_seq := 1\<rparr>\<rparr>"
  have "ae_tx_seq (se_tx ss) \<noteq> - 1" by (simp add: seq)
  from sent_is_received [OF h(2) ms(2) this, of "push_bytes ticket psk"] obtain p w where
    p: "session_send L ss (push_bytes ticket psk) = Good (p, ?ss)" "length p = 24 + length (push_bytes ticket psk)"
      "session_recv L sc p = Good (push_bytes ticket psk, sc\<lparr>se_window := w\<rparr>)" "may_send ?ss (sc\<lparr>se_window := w\<rparr>)" by (auto simp: seq)
  let ?sc = "sc\<lparr>se_window := w\<rparr>"
  have other: "may_send ?sc ?ss" using ms(1) by (simp add: may_send_def)
  let ?echo = "cookie_issue L (cfg_cookie cfg) (ho_clock hs 0) (cfg_client_tag cfg) e_pk"
  note c = honest_cookie [OF h(1) clock, of "cfg_client_tag cfg" e_pk]
  have fit: "length (?echo @ e_pk) \<le> MAX_FRAME" "length m2 \<le> MAX_FRAME" "length m3 \<le> MAX_FRAME" "length p \<le> MAX_FRAME"
    using c(2) m1(2) m2(2) m3(2) p(2) tkt small by (simp_all add: COOKIE_LEN_def MAX_FRAME_def push_bytes_def TICKET_LEN_value)
  have "ae_tx_seq (se_tx ?sc) = 0" "ae_tx_seq (se_tx ?ss) = 1" using seq by simp_all
  with four_turns [OF m1(1,3) m2(1,3) m3(1,3,4) tkt p(1,3) refl c(2,1) fit quiet] p(4) other tkt(1) show ?thesis by blast
qed

section \<open>Whatever arrives\<close>

text \<open>Bytes arrive in pieces; more input does not change what a program did with the input it had.\<close>

fun feed :: "'r phase \<times> host \<Rightarrow> bytes list \<Rightarrow> 'r phase \<times> host" where
  "feed s [] = s"
| "feed s (c # cs) = feed (fst (turn s c)) cs"

lemma host_swap:
  "h\<lparr>ho_in := a, ho_rngs := b\<rparr> = h\<lparr>ho_rngs := b, ho_in := a\<rparr>" "h\<lparr>ho_in := a, ho_clock := c\<rparr> = h\<lparr>ho_clock := c, ho_in := a\<rparr>"
  "h\<lparr>ho_in := a, ho_cache := d\<rparr> = h\<lparr>ho_cache := d, ho_in := a\<rparr>"
  by simp_all

lemma advance_more:
  "advance p h = (ph, h1, out) \<Longrightarrow> advance p (h\<lparr>ho_in := ho_in h @ extra\<rparr>) =
     (case ph of
        Waiting q \<Rightarrow> (case advance q (h1\<lparr>ho_in := ho_in h1 @ extra\<rparr>) of (ph2, h2, out2) \<Rightarrow> (ph2, h2, out @ out2))
      | _ \<Rightarrow> (ph, h1\<lparr>ho_in := ho_in h1 @ extra\<rparr>, out))"
proof (induction p arbitrary: h out)
  case (Write bs p)
  obtain o1 where o1: "advance p h = (ph, h1, o1)" "out = bs @ o1" using Write.prems by (auto split: prod.splits)
  with Write.IH [OF o1(1)] show ?case by (auto split: phase.split prod.split)
next
  case (Read n k)
  show ?case
  proof (cases "n \<le> length (ho_in h)")
    case True
    with Read.prems Read.IH [of "k (take n (ho_in h))" "h\<lparr>ho_in := drop n (ho_in h)\<rparr>" out] show ?thesis by simp
  next
    case False
    with Read.prems show ?thesis by (auto split: prod.split)
  qed
next
  case (Draw k)
  from Draw.IH [of _ "h\<lparr>ho_rngs := (\<lambda>i. ho_rngs h (Suc i))\<rparr>" out] Draw.prems show ?case by (simp add: host_swap)
next
  case (Now k)
  from Now.IH [of _ "h\<lparr>ho_clock := (\<lambda>i. ho_clock h (Suc i))\<rparr>" out] Now.prems show ?case by (simp add: host_swap)
next
  case (Redeem tid ex k)
  from Redeem.IH [of _ "h\<lparr>ho_cache := snd (check_and_insert (ho_clock h 0) tid ex (ho_cache h)), ho_clock := (\<lambda>i. ho_clock h (Suc i))\<rparr>" out] Redeem.prems
  show ?case by (simp add: host_swap)
qed auto

lemma feed_ended: "ph = Done x \<or> ph = Failed e \<or> ph = Crashed \<Longrightarrow> fst (feed (ph, h) cs) = ph"
  by (induction cs arbitrary: h) auto

lemma feed_Done: "fst (feed (Waiting p, h) cs) = Done x \<Longrightarrow> \<exists>h' out. advance p (h\<lparr>ho_in := ho_in h @ concat cs\<rparr>) = (Done x, h', out)"
proof (induction cs arbitrary: p h)
  case (Cons c cs)
  obtain ph h1 out where a: "advance p (h\<lparr>ho_in := ho_in h @ c\<rparr>) = (ph, h1, out)" by (metis surj_pair)
  have fed: "fst (feed (ph, h1) cs) = Done x" using Cons.prems a by simp
  note m = advance_more [OF a, of "concat cs"]
  show ?case
  proof (cases ph)
    case (Done y)
    with fed feed_ended [of ph y] m show ?thesis by simp
  next
    case (Waiting q)
    with Cons.IH [of q h1] fed m show ?thesis by auto
  qed (use fed feed_ended [of ph] in auto)
qed simp

section \<open>What the server has checked when it ends\<close>

lemma advance_andthen_Done: "advance (andthen p f) h = (Done y, h', out) \<longleftrightarrow>
    (\<exists>x h1 o1 o2. advance p h = (Done x, h1, o1) \<and> advance (f x) h1 = (Done y, h', o2) \<and> out = o1 @ o2)"
  by (auto simp: advance_andthen split: prod.splits phase.splits)

lemma advance_lift_Done: "advance (lift_hs m) h = (Done x, h', out) \<longleftrightarrow> m = Good x \<and> h' = h \<and> out = []"
  by (cases m) auto

lemma advance_write_frame_Done: "advance (write_frame ty payload) h = (Done x, h', out) \<longleftrightarrow> h' = h \<and> out = frame_bytes ty payload"
  by (auto simp: write_frame_def frame_bytes_def)

lemma advance_read_frame_Done:
  assumes "advance read_frame h = (Done (ty, payload), h', out)"
  shows "ho_in h = frame_bytes ty payload @ ho_in h' \<and> h' = h\<lparr>ho_in := ho_in h'\<rparr> \<and> out = []"
proof -
  let ?hdr = "take 5 (ho_in h)" and ?rest = "drop 5 (ho_in h)"
  define n where "n = unat (be_val (drop 1 ?hdr) :: u32)"
  from assms have len: "5 \<le> length (ho_in h)" "n \<le> length ?rest" and r: "ty = ?hdr ! 0" "payload = take n ?rest" "h' = h\<lparr>ho_in := drop n ?rest\<rparr>" "out = []"
    by (auto simp: read_frame_def n_def Let_def split: if_splits)
  have "be_bytes 4 (of_nat n :: u32) = drop 1 ?hdr" using len(1) be_bytes_be_val [of "drop 1 ?hdr" 4, where 'a = 32] by (simp add: n_def)
  moreover have "?hdr = ?hdr ! 0 # drop 1 ?hdr" using len(1) by (cases "ho_in h") auto
  ultimately have hdr: "?hdr = ty # be_bytes 4 (of_nat n :: u32)" using r(1) by simp
  have "length payload = n" using r(2) len(2) by simp
  moreover have "ho_in h = (ty # be_bytes 4 (of_nat n :: u32)) @ payload @ drop n ?rest" unfolding hdr [symmetric] r(2) append_take_drop_id by (rule refl)
  ultimately show ?thesis using r(3,4) by (simp add: frame_bytes_def)
qed

lemma advance_expect_frame_Done:
  assumes "advance (expect_frame want) h = (Done payload, h', out)"
  shows "ho_in h = frame_bytes want payload @ ho_in h' \<and> h' = h\<lparr>ho_in := ho_in h'\<rparr> \<and> out = []"
proof -
  from assms obtain got where "advance read_frame h = (Done (got, payload), h', out)" "got = want"
    by (auto simp: expect_frame_def advance_andthen_Done split: if_splits)
  then show ?thesis using advance_read_frame_Done by blast
qed

text \<open>
  The client at the other end of a channel proved who it is: the anchor accepts its static key, and that key signed the
  hash of everything exchanged before the last part of the third message, which the identifier of the session extends.
\<close>

definition client_proved :: "'k smx_lib \<Rightarrow> 'sk auth_kem \<Rightarrow> server_config \<Rightarrow> channel \<Rightarrow> bool" where
  "client_proved L K cfg ch \<longleftrightarrow> cfg_anchor cfg RoleInitiator (ch_peer_static ch) = Good () \<and>
     (\<exists>hash sig enc. ka_verify K (ch_peer_static ch) hash sig = Good () \<and> se_id (ch_session ch) = sm3 L [hash, enc])"

lemma read_msg3_inner_id:
  assumes "read_msg3_inner L K re m3 = Good ((s, sp, hash), re1)"
  shows "\<exists>enc. se_id s = sm3 L [hash, enc]"
  using assms by (auto simp: read_msg3_inner_def Let_def session_new_id sym_split_def mix_hash_def split: if_splits)

lemma read_msg3_proved:
  assumes "read_msg3_with_auth L K re m3 anchor = Good ((s, pk), re1)"
  shows "anchor RoleInitiator pk = Good ()" "\<exists>hash sig enc. ka_verify K pk hash sig = Good () \<and> se_id s = sm3 L [hash, enc]"
proof -
  from assms obtain sp hash where i: "read_msg3_inner L K re m3 = Good ((s, sp, hash), re1)"
    and c: "ka_verify K pk hash (drop (kem_pk_len K) sp) = Good ()" "anchor RoleInitiator pk = Good ()"
    by (auto simp: read_msg3_with_auth_def Let_def)
  from c read_msg3_inner_id [OF i] show "anchor RoleInitiator pk = Good ()"
    "\<exists>hash sig enc. ka_verify K pk hash sig = Good () \<and> se_id s = sm3 L [hash, enc]" by blast+
qed

lemma finish_server_Done:
  assumes "advance (finish_server L cfg s pk) h = (Done ch, h', out)"
  shows "ch_peer_static ch = pk \<and> se_id (ch_session ch) = se_id s"
proof -
  have "\<exists>msg h1 out. advance (send_msg L \<lparr>ch_session = s, ch_peer_static = pk\<rparr> msg) h1 = (Done ch, h', out)"
    using assms by (auto simp: finish_server_def split: prod.splits)
  then show ?thesis
    by (auto simp: send_msg_def advance_andthen_Done advance_lift_Done session_send_def split: prod.splits)
qed

lemma channel_proved:
  assumes "read_msg3_with_auth L K resp m3 (cfg_anchor cfg) = Good ((s, pk), resp1)" "advance (finish_server L cfg s pk) h = (Done ch, h', out)"
  shows "client_proved L K cfg ch \<and> ch_peer_static ch = pk"
  using read_msg3_proved [OF assms(1)] finish_server_Done [OF assms(2)] by (auto simp: client_proved_def)

lemma full_handshake_Done:
  assumes "advance (full_handshake L K rng sk pk cfg e_pk) h = (Done so, h', out)"
  shows "\<not> so_resumed so \<and> so_early_data so = None \<and> client_proved L K cfg (so_channel so)"
proof -
  from assms obtain resp m3 h1 o1 where "advance (server_from_msg3 L K cfg resp m3) h1 = (Done so, h', o1)"
    by (auto simp: full_handshake_as advance_andthen_Done advance_lift_Done advance_write_frame_Done simp del: advance_write_frame)
  then show ?thesis by (auto simp: server_from_msg3_def advance_andthen_Done advance_lift_Done dest: channel_proved)
qed

lemma challenge_Done:
  assumes "advance (challenge L K rng sk pk cfg e_pk) h = (Done so, h', out)"
  shows "\<not> so_resumed so \<and> so_early_data so = None \<and> client_proved L K cfg (so_channel so) \<and>
    (\<exists>cookie rest. ho_in h = frame_bytes T_MSG1_RETRY (cookie @ e_pk) @ rest \<and>
       cookie_verify L (cfg_cookie cfg) (ho_clock h 1) (cfg_client_tag cfg) e_pk cookie = Good ())"
proof -
  let ?h = "h\<lparr>ho_clock := (\<lambda>i. ho_clock h (Suc i))\<rparr>"
  from assms obtain retry h1 o1 o2 where e: "advance (expect_frame T_MSG1_RETRY) ?h = (Done retry, h1, o1)"
    and s: "advance (server_from_retry L K rng sk pk cfg e_pk retry) h1 = (Done so, h', o2)"
    by (auto simp: challenge_as advance_andthen_Done advance_write_frame_Done simp del: advance_write_frame)
  from advance_expect_frame_Done [OF e] have i: "ho_in h = frame_bytes T_MSG1_RETRY retry @ ho_in h1" "ho_clock h1 = (\<lambda>i. ho_clock h (Suc i))"
    by (auto dest: arg_cong [of _ _ ho_clock])
  from s obtain h2 o3 where c: "drop COOKIE_LEN retry = e_pk"
      "cookie_verify L (cfg_cookie cfg) (ho_clock h1 0) (cfg_client_tag cfg) e_pk (take COOKIE_LEN retry) = Good ()"
      "advance (full_handshake L K rng sk pk cfg e_pk) h2 = (Done so, h', o3)"
    by (auto simp: server_from_retry_def advance_andthen_Done advance_lift_Done split: if_splits)
  have "retry = take COOKIE_LEN retry @ e_pk" using c(1) by (metis append_take_drop_id)
  with i c(2) full_handshake_Done [OF c(3)] show ?thesis
    by (intro conjI exI [of _ "take COOKIE_LEN retry"] exI [of _ "ho_in h1"]) auto
qed

lemma resume_with_Done:
  assumes "advance (resume_with L K rng resp cfg p early) h = (Done r, h', out)"
  shows "\<exists>so. r = Some so \<and> so_resumed so \<and> so_early_data so = early \<and> client_proved L K cfg (so_channel so) \<and>
    tk_fingerprint p = sm3 L [ch_peer_static (so_channel so)]"
proof -
  from assms obtain resp1 m3 s pk resp2 h1 h2 ch o1 where r: "read_msg3_with_auth L K resp1 m3 (cfg_anchor cfg) = Good ((s, pk), resp2)"
    "advance (finish_server L cfg s pk) h1 = (Done ch, h2, o1)" and fp: "sm3 L [pk] = tk_fingerprint p"
    and r': "r = Some \<lparr>so_channel = ch, so_early_data = early, so_resumed = True\<rparr>"
    by (auto simp: resume_with_def advance_andthen_Done advance_lift_Done simp del: advance_write_frame split: if_splits)
  from channel_proved [OF r] fp r' show ?thesis by auto
qed

text \<open>The ticket with which a session was resumed: it opens, its identifier was redeemed for the first time, and it belongs to the client.\<close>

definition ticket_redeemed :: "'k smx_lib \<Rightarrow> server_config \<Rightarrow> host \<Rightarrow> bytes \<Rightarrow> server_outcome \<Rightarrow> bool" where
  "ticket_redeemed L cfg h ticket so \<longleftrightarrow> (case ticket_open L (cfg_tickets cfg) (ho_clock h 0) ticket of
     Good p \<Rightarrow> fst (check_and_insert (ho_clock h 1) (tk_ticket_id p) (tk_expires_at p) (ho_cache h)) = Good () \<and>
       tk_fingerprint p = sm3 L [ch_peer_static (so_channel so)]
   | _ \<Rightarrow> False)"

lemma redeemed_cong:
  assumes "ho_clock h1 = ho_clock h" "ho_cache h1 = ho_cache h"
  shows "ticket_redeemed L cfg h1 = ticket_redeemed L cfg h"
  unfolding ticket_redeemed_def assms by (rule refl)

lemma try_resume_Done:
  assumes "advance (try_resume L K rng sk pk cfg payload) h = (Done r, h', out)"
  shows "case r of None \<Rightarrow> ho_in h' = ho_in h \<and> ho_clock h' \<in> {ho_clock h, \<lambda>i. ho_clock h (Suc i), \<lambda>i. ho_clock h (Suc (Suc i))}
    | Some so \<Rightarrow> so_resumed so \<and> client_proved L K cfg (so_channel so) \<and> ticket_redeemed L cfg h (take TICKET_LEN payload) so \<and>
        (so_early_data so \<noteq> None \<longrightarrow> drop (TICKET_LEN + kem_pk_len K) payload \<noteq> [])"
  using assms
  by (auto simp: try_resume_def Let_def ticket_redeemed_def split: if_splits hs.splits dest!: resume_with_Done)

text \<open>The client returned a cookie: right after its ephemeral key it sent the key again behind a cookie that the issuer accepts for it.\<close>

definition cookie_returned :: "'k smx_lib \<Rightarrow> server_config \<Rightarrow> (nat \<Rightarrow> u64) \<Rightarrow> bytes \<Rightarrow> bool" where
  "cookie_returned L cfg clock input \<longleftrightarrow> (\<exists>pre e_pk cookie rest n.
     input = pre @ frame_bytes T_MSG1 e_pk @ frame_bytes T_MSG1_RETRY (cookie @ e_pk) @ rest \<and>
     cookie_verify L (cfg_cookie cfg) (clock n) (cfg_client_tag cfg) e_pk cookie = Good ())"

lemma server_from_frame_Done:
  assumes "advance (server_from_frame L K r ssk spk cfg ty payload) h = (Done so, h', out)"
  shows "ty = T_MSG1 \<and> advance (challenge L K r ssk spk cfg payload) h = (Done so, h', out) \<or>
    ty = T_MSG1_PSK \<and> (\<exists>h2 o3. advance (try_resume L K r ssk spk cfg payload) h = (Done (Some so), h2, o3)) \<or>
    ty = T_MSG1_PSK \<and> (\<exists>h2 o3 e_pk h3 o4 o5. advance (try_resume L K r ssk spk cfg payload) h = (Done None, h2, o3) \<and>
       advance (expect_frame T_MSG1) h2 = (Done e_pk, h3, o4) \<and> advance (challenge L K r ssk spk cfg e_pk) h3 = (Done so, h', o5))"
proof (cases "ty = T_MSG1")
  case True
  with assms show ?thesis by (simp add: server_from_frame_def)
next
  case False
  with assms have ty: "ty = T_MSG1_PSK" by (auto simp: server_from_frame_def split: if_splits)
  with assms False obtain attempt h2 o3 o4 where t: "advance (try_resume L K r ssk spk cfg payload) h = (Done attempt, h2, o3)"
    and k: "advance (case attempt of Some out \<Rightarrow> Return out | None \<Rightarrow> andthen (write_frame T_PSK_REJECT []) (\<lambda>_.
        andthen (expect_frame T_MSG1) (\<lambda>e_pk. challenge L K r ssk spk cfg e_pk))) h2 = (Done so, h', o4)"
    unfolding server_from_frame_def by (simp only: if_False if_True simp_thms advance_andthen_Done) blast
  show ?thesis
  proof (cases attempt)
    case None
    with k t ty show ?thesis by (auto simp: advance_andthen_Done advance_write_frame_Done simp del: advance_write_frame)
  qed (use k t ty in auto)
qed

lemma server_accept_Done:
  assumes "advance (server_accept L K ssk spk cfg) h = (Done so, h', out)"
  shows "client_proved L K cfg (so_channel so) \<and>
    (if so_resumed so
     then \<exists>ticket e_pk early rest. ho_in h = frame_bytes T_MSG1_PSK (ticket @ e_pk @ early) @ rest \<and> ticket_redeemed L cfg h ticket so \<and>
       (so_early_data so \<noteq> None \<longrightarrow> early \<noteq> [])
     else so_early_data so = None \<and> cookie_returned L cfg (ho_clock h) (ho_in h))"
proof -
  let ?h = "h\<lparr>ho_rngs := (\<lambda>i. ho_rngs h (Suc i))\<rparr>" and ?r = "ho_rngs h 0"
  from assms obtain ty payload h1 o1 o2 where f: "advance read_frame ?h = (Done (ty, payload), h1, o1)"
    and k: "advance (server_from_frame L K ?r ssk spk cfg ty payload) h1 = (Done so, h', o2)"
    by (auto simp: server_accept_as advance_andthen_Done)
  from advance_read_frame_Done [OF f] have i: "ho_in h = frame_bytes ty payload @ ho_in h1" and eq: "ho_clock h1 = ho_clock h" "ho_cache h1 = ho_cache h"
    by (auto dest: arg_cong [of _ _ ho_clock] arg_cong [of _ _ ho_cache])
  consider (full) "ty = T_MSG1" "advance (challenge L K ?r ssk spk cfg payload) h1 = (Done so, h', o2)"
    | (resumed) h2 o3 where "ty = T_MSG1_PSK" "advance (try_resume L K ?r ssk spk cfg payload) h1 = (Done (Some so), h2, o3)"
    | (fallback) h2 o3 e_pk h3 o4 o5 where "ty = T_MSG1_PSK" "advance (try_resume L K ?r ssk spk cfg payload) h1 = (Done None, h2, o3)"
        "advance (expect_frame T_MSG1) h2 = (Done e_pk, h3, o4)" "advance (challenge L K ?r ssk spk cfg e_pk) h3 = (Done so, h', o5)"
    using server_from_frame_Done [OF k] by blast
  then show ?thesis
  proof cases
    case full
    from challenge_Done [OF full(2)] obtain cookie rest where c: "ho_in h1 = frame_bytes T_MSG1_RETRY (cookie @ payload) @ rest"
      "cookie_verify L (cfg_cookie cfg) (ho_clock h1 1) (cfg_client_tag cfg) payload cookie = Good ()" by blast
    have "ho_in h = [] @ frame_bytes T_MSG1 payload @ frame_bytes T_MSG1_RETRY (cookie @ payload) @ rest" using i full(1) c(1) by simp
    with c(2) eq(1) have "cookie_returned L cfg (ho_clock h) (ho_in h)" unfolding cookie_returned_def by metis
    with challenge_Done [OF full(2)] show ?thesis by simp
  next
    case resumed
    let ?t = "take TICKET_LEN payload" and ?e = "take (kem_pk_len K) (drop TICKET_LEN payload)" and ?d = "drop (TICKET_LEN + kem_pk_len K) payload"
    have "payload = ?t @ ?e @ ?d" by (metis append_take_drop_id drop_drop add.commute)
    then have "ho_in h = frame_bytes T_MSG1_PSK (?t @ ?e @ ?d) @ ho_in h1" using i resumed(1) by simp
    moreover have "ticket_redeemed L cfg h1 = ticket_redeemed L cfg h" by (rule redeemed_cong [OF eq])
    moreover have "so_resumed so" "client_proved L K cfg (so_channel so)" "ticket_redeemed L cfg h1 ?t so" "so_early_data so \<noteq> None \<longrightarrow> ?d \<noteq> []"
      using try_resume_Done [OF resumed(2)] by simp_all
    ultimately show ?thesis by metis
  next
    case fallback
    from advance_expect_frame_Done [OF fallback(3)] have e: "ho_in h2 = frame_bytes T_MSG1 e_pk @ ho_in h3" "ho_clock h3 = ho_clock h2"
      by (auto dest: arg_cong [of _ _ ho_clock])
    from try_resume_Done [OF fallback(2)] eq have "ho_in h1 = ho_in h2" and "\<exists>n. ho_clock h2 1 = ho_clock h n" by auto
    moreover from challenge_Done [OF fallback(4)] obtain cookie rest where "ho_in h3 = frame_bytes T_MSG1_RETRY (cookie @ e_pk) @ rest"
      "cookie_verify L (cfg_cookie cfg) (ho_clock h3 1) (cfg_client_tag cfg) e_pk cookie = Good ()" by blast
    ultimately have "cookie_returned L cfg (ho_clock h) (ho_in h)" unfolding cookie_returned_def using i e by metis
    with challenge_Done [OF fallback(4)] show ?thesis by simp
  qed
qed

section \<open>A concrete connection\<close>

definition demo_config :: server_config where
  "demo_config = \<lparr>cfg_cookie = \<lparr>ci_secret = replicate 32 9, ci_ttl_secs = 30\<rparr>, cfg_tickets = replicate 16 5,
     cfg_anchor = (\<lambda>_ pk. if pk = replicate 1249 1 then Good () else Bad PeerAuth), cfg_client_tag = [127, 0, 0, 1], cfg_ticket_ttl_secs = 3600\<rparr>"

definition demo_host :: host where
  "demo_host = \<lparr>ho_in = [], ho_rngs = (\<lambda>i j. of_nat (i + j)), ho_clock = (\<lambda>_. 1000), ho_cache = []\<rparr>"

definition demo_anchor :: trust_anchor where
  "demo_anchor = (\<lambda>_ pk. if pk = replicate 1249 2 then Good () else Bad PeerAuth)"

lemma demo_premises:
  "demo_anchor RoleResponder (replicate 1249 2) = Good ()" "cfg_anchor demo_config RoleInitiator (replicate 1249 1) = Good ()"
  "unat (ho_clock demo_host 0) \<le> unat (ho_clock demo_host 1) + 5"
  "unat (ho_clock demo_host 1) \<le> unat (ho_clock demo_host 0) + unat (ci_ttl_secs (cfg_cookie demo_config))" "ho_in demo_host = []"
  by (simp_all add: demo_anchor_def demo_config_def demo_host_def)

lemma converse_feeds: "converse n a b arrived = (a', b') \<Longrightarrow> \<exists>pieces. feed b pieces = b'"
proof (induction n arbitrary: a b arrived)
  case 0
  then show ?case by (intro exI [of _ "[]"]) simp
next
  case (Suc n)
  obtain a1 out b1 arrived1 where t: "turn a arrived = (a1, out)" "turn b out = (b1, arrived1)" by (metis surj_pair)
  with Suc.prems have "converse n a1 b1 arrived1 = (a', b')" by simp
  with Suc.IH obtain pieces where "feed b1 pieces = b'" by blast
  with t show ?case by (intro exI [of _ "out # pieces"]) simp
qed

section \<open>Properties\<close>

text \<open>
  C2. A full handshake succeeds and both ends agree. Let the libraries do what they document, let client and server own
  generated key pairs and trust each other's static key, and let the cookie come back before it expires. Then, whatever randomness is drawn,
  four exchanges of the client and the server program end both: each has authenticated the static key of the other, the two
  sessions have the same identifier, every sequence of messages sent over one is received unchanged over the other, in both
  directions, and the client holds a ticket that the server opens, until it expires, to the key the client was given.
\<close>

theorem handshake_agrees:
  assumes law: "smx_law L" "mlkem_law M"
    and keys: "kem_pair (default_hybrid L M) csk cpk" "kem_pair (default_hybrid L M) ssk spk"
    and trust: "anchor RoleResponder spk = Good ()" "cfg_anchor cfg RoleInitiator cpk = Good ()"
    and clock: "unat (ho_clock hs 0) \<le> unat (ho_clock hs 1) + 5" "unat (ho_clock hs 1) \<le> unat (ho_clock hs 0) + unat (ci_ttl_secs (cfg_cookie cfg))"
    and quiet: "ho_in hc = []" "ho_in hs = []"
  shows "\<exists>co so hc' hs' ticket psk.
    converse 4 (Waiting (client_connect_full L (default_hybrid L M) csk cpk anchor), hc) (Waiting (server_accept L (default_hybrid L M) ssk spk cfg), hs) [] =
      ((Done co, hc'), (Done so, hs')) \<and>
    ch_peer_static (co_channel co) = spk \<and> ch_peer_static (so_channel so) = cpk \<and>
    se_id (ch_session (co_channel co)) = se_id (ch_session (so_channel so)) \<and>
    (\<forall>ms. length ms + 1 < 2 ^ 64 \<longrightarrow>
       exchange L (ch_session (co_channel co)) (ch_session (so_channel so)) ms = Good ms \<and>
       exchange L (ch_session (so_channel so)) (ch_session (co_channel co)) ms = Good ms) \<and>
    co_resumption co = Some (ticket, psk) \<and>
    (\<forall>now \<le> ho_clock hs 2 + cfg_ticket_ttl_secs cfg. \<exists>p. ticket_open L (cfg_tickets cfg) now ticket = Good p \<and> tk_psk p = psk \<and> tk_fingerprint p = sm3 L [cpk])"
proof -
  have h: "gcm_law L" using law(1) by (simp add: smx_law_def)
  note K = default_hybrid_contract [OF law]
  from handshake_runs [where anchor = anchor and cfg = cfg and hs = hs and hc = hc, OF law(1) K _ _ _ keys trust clock quiet]
  obtain sc ss ticket psk hc' hs' where
    run: "converse 4 (Waiting (client_connect_full L (default_hybrid L M) csk cpk anchor), hc) (Waiting (server_accept L (default_hybrid L M) ssk spk cfg), hs) [] =
      ((Done \<lparr>co_channel = \<lparr>ch_session = sc, ch_peer_static = spk\<rparr>, co_resumption = Some (ticket, psk), co_resumed = False, co_early_data_accepted = False\<rparr>, hc'),
       (Done \<lparr>so_channel = \<lparr>ch_session = ss, ch_peer_static = cpk\<rparr>, so_early_data = None, so_resumed = False\<rparr>, hs'))"
    and ms: "may_send sc ss" "may_send ss sc" "ae_tx_seq (se_tx sc) = 0" "ae_tx_seq (se_tx ss) = 1"
    and tkt: "ticket_issue L (cfg_tickets cfg) (ho_clock hs 2) (ho_rngs hs 1) cpk (cfg_ticket_ttl_secs cfg) = (ticket, psk)" by auto
  have ex: "exchange L sc ss ms = Good ms" "exchange L ss sc ms = Good ms" if "length ms + 1 < 2 ^ 64" for ms
    using that ms exchange_all [OF h] by simp_all
  have "se_id sc = se_id ss" using ms(1) by (simp add: may_send_def)
  moreover have "\<exists>p. ticket_open L (cfg_tickets cfg) now ticket = Good p \<and> tk_psk p = psk \<and> tk_fingerprint p = sm3 L [cpk]"
    if "now \<le> ho_clock hs 2 + cfg_ticket_ttl_secs cfg" for now using ticket_round(3) [OF law(1) tkt that] by blast
  ultimately show ?thesis using ex unfolding run by simp
qed

theorem handshake_agrees_witness:
  "\<exists>co so hc' hs'.
     converse 4 (Waiting (client_connect_full demo_smx (default_hybrid demo_smx demo_mlkem) (demo_secret 1) (replicate 1249 1) demo_anchor), demo_host)
       (Waiting (server_accept demo_smx (default_hybrid demo_smx demo_mlkem) (demo_secret 2) (replicate 1249 2) demo_config), demo_host) [] =
       ((Done co, hc'), (Done so, hs')) \<and>
     ch_peer_static (co_channel co) = replicate 1249 2 \<and> ch_peer_static (so_channel so) = replicate 1249 1 \<and>
     exchange demo_smx (ch_session (co_channel co)) (ch_session (so_channel so)) [[1, 2], [], [3]] = Good [[1, 2], [], [3]]"
proof -
  have "length [[1, 2], [], [3 :: u8]] + 1 < (2 :: nat) ^ 64" by simp
  then show ?thesis
    using handshake_agrees [where anchor = demo_anchor and cfg = demo_config and hs = demo_host and hc = demo_host, OF demo_smx_law demo_mlkem_law demo_pair demo_pair demo_premises demo_premises(5)] by blast
qed



end
