(* ===== verification/Spec2Isabelle.thy ===== *)
theory Spec2Isabelle
  imports Xdp_Simulator Control_Agent Moq_Relay Homa_Network Homa_Rpc Gm_Agreement
begin

text \<open>
  A verification of the directwire repository: an XDP edge load balancer, its control plane,
  a Homa-style RPC transport, a media relay, a peer-to-peer mesh and a hybrid key exchange.
\<close>

end
